(* ===== verification/Gateway_Prelude.thy ===== *)
theory Gateway_Prelude
  imports Main "HOL-Library.Word"
begin

text \<open>
  Shared vocabulary of the gateway development: the machine types of the Rust sources, fallible
  effectful computations (the \<open>async fn ... -> Result\<close> functions of the sources), step
  systems with invariants, and the list and word lemmas the components share.

  \<^item> A Rust \<open>u8\<close>, \<open>u16\<close>, \<open>u32\<close>, \<open>u64\<close>, \<open>u128\<close> is a word of that width; a
    \<open>usize\<close> that only counts bytes held in memory is a \<^typ>\<open>nat\<close>.
  \<^item> A \<open>Vec<u8>\<close> or \<open>&[u8]\<close> is a list of bytes. A \<open>String\<close> is a \<^typ>\<open>string\<close>, that is,
    the list of the bytes of its UTF-8 encoding as characters.
  \<^item> \<open>Result<T, E>\<close> is \<open>'e + 't\<close> with the error on the left.
  \<^item> An error value of a third-party crate (quinn, postcard, russh, reqwest, rustls) is only ever
    displayed by the sources, so it is represented by its display text (\<open>ext_error\<close>).
\<close>

subsection \<open>Machine types\<close>

type_synonym byte = "8 word"
type_synonym u16 = "16 word"
type_synonym u32 = "32 word"
type_synonym u64 = "64 word"
type_synonym u128 = "128 word"
type_synonym bytes = "byte list"
type_synonym ext_error = string

subsection \<open>Fallible computations over a state\<close>

text \<open>
  An \<open>async fn\<close> returning \<open>Result<A, E>\<close> is a function from the state to the result and the
  new state. \<open>io_bind\<close> is the \<open>?\<close> operator: it returns the error early. \<open>io_case\<close> is a
  \<open>match\<close> on the awaited result: the continuation sees the error as well.
\<close>

type_synonym ('s, 'e, 'a) io = "'s \<Rightarrow> ('e + 'a) \<times> 's"

definition io_return :: "'a \<Rightarrow> ('s, 'e, 'a) io" where
  "io_return x s = (Inr x, s)"

definition io_fail :: "'e \<Rightarrow> ('s, 'e, 'a) io" where
  "io_fail e s = (Inl e, s)"

definition io_case :: "('s, 'e, 'a) io \<Rightarrow> ('e + 'a \<Rightarrow> ('s, 'f, 'b) io) \<Rightarrow> ('s, 'f, 'b) io" where
  "io_case m k s = (case m s of (r, s') \<Rightarrow> k r s')"

definition io_bind :: "('s, 'e, 'a) io \<Rightarrow> ('a \<Rightarrow> ('s, 'e, 'b) io) \<Rightarrow> ('s, 'e, 'b) io" where
  "io_bind m k = io_case m (case_sum io_fail k)"

definition io_map_err :: "('e \<Rightarrow> 'f) \<Rightarrow> ('s, 'e, 'a) io \<Rightarrow> ('s, 'f, 'a) io" where
  "io_map_err g m = io_case m (case_sum (\<lambda>e. io_fail (g e)) io_return)"

definition io_pure :: "'e + 'a \<Rightarrow> ('s, 'e, 'a) io" where
  "io_pure r s = (r, s)"

lemma io_return_apply [simp]: "io_return x s = (Inr x, s)"
  by (simp add: io_return_def)

lemma io_fail_apply [simp]: "io_fail e s = (Inl e, s)"
  by (simp add: io_fail_def)

lemma io_pure_apply [simp]: "io_pure r s = (r, s)"
  by (simp add: io_pure_def)

lemma io_case_apply: "io_case m k s = (case m s of (r, s') \<Rightarrow> k r s')"
  by (simp add: io_case_def)

lemma io_case_eval: "m s = (r, s') \<Longrightarrow> io_case m k s = k r s'"
  by (simp add: io_case_def)

lemma io_bind_apply:
  "io_bind m k s = (case m s of (Inl e, s') \<Rightarrow> (Inl e, s') | (Inr x, s') \<Rightarrow> k x s')"
  by (auto simp: io_bind_def io_case_def split: prod.splits sum.splits)

lemma io_bind_Inl: "m s = (Inl e, s') \<Longrightarrow> io_bind m k s = (Inl e, s')"
  by (simp add: io_bind_apply)

lemma io_bind_Inr: "m s = (Inr x, s') \<Longrightarrow> io_bind m k s = k x s'"
  by (simp add: io_bind_apply)

lemma io_bind_eqI:
  "(\<And>x s'. m s = (Inr x, s') \<Longrightarrow> k x s' = l x s') \<Longrightarrow> io_bind m k s = io_bind m l s"
  by (auto simp: io_bind_apply split: prod.splits sum.splits)

lemma io_bind_islI:
  "(\<And>x s'. m s = (Inr x, s') \<Longrightarrow> isl (fst (k x s'))) \<Longrightarrow> isl (fst (io_bind m k s))"
  by (auto simp: io_bind_apply split: prod.splits sum.splits)

lemma io_map_err_apply:
  "io_map_err g m s = (case m s of (Inl e, s') \<Rightarrow> (Inl (g e), s') | (Inr x, s') \<Rightarrow> (Inr x, s'))"
  by (auto simp: io_map_err_def io_case_def split: prod.splits sum.splits)

lemma io_map_err_Inr: "io_map_err g m s = (Inr x, s') \<longleftrightarrow> m s = (Inr x, s')"
  by (auto simp: io_map_err_apply split: prod.splits sum.splits)

lemmas io_apply = io_case_apply io_bind_apply io_map_err_apply

text \<open>
  A state property that every call keeps is kept by their composition: \<open>io_keeps P m\<close> says that
  \<open>m\<close> keeps \<open>P\<close>, whatever it returns; \<open>io_gives P m Q\<close> that moreover what it returns satisfies \<open>Q\<close>.
  The introduction rules are collected in \<open>io_intros\<close>.
\<close>

named_theorems io_intros

definition io_keeps :: "('s \<Rightarrow> bool) \<Rightarrow> ('s, 'e, 'a) io \<Rightarrow> bool" where
  "io_keeps P m \<longleftrightarrow> (\<forall>s. P s \<longrightarrow> P (snd (m s)))"

lemma io_keepsI: "(\<And>s. P s \<Longrightarrow> P (snd (m s))) \<Longrightarrow> io_keeps P m"
  by (simp add: io_keeps_def)

lemma io_keepsD: "io_keeps P m \<Longrightarrow> P s \<Longrightarrow> P (snd (m s))"
  by (simp add: io_keeps_def)

lemma io_keepsE: "io_keeps P m \<Longrightarrow> m s = (r, s') \<Longrightarrow> P s \<Longrightarrow> P s'"
  by (auto simp: io_keeps_def dest: spec [of _ s])

lemma io_keeps_return [io_intros]: "io_keeps P (io_return x)"
  by (simp add: io_keeps_def)

lemma io_keeps_fail [io_intros]: "io_keeps P (io_fail e)"
  by (simp add: io_keeps_def)

lemma io_keeps_pure [io_intros]: "io_keeps P (io_pure r)"
  by (simp add: io_keeps_def)

lemma io_keeps_case [io_intros]:
  "io_keeps P m \<Longrightarrow> (\<And>r. io_keeps P (k r)) \<Longrightarrow> io_keeps P (io_case m k)"
  by (auto simp: io_keeps_def io_case_def split: prod.splits)

lemma io_keeps_bind [io_intros]:
  "io_keeps P m \<Longrightarrow> (\<And>x. io_keeps P (k x)) \<Longrightarrow> io_keeps P (io_bind m k)"
  unfolding io_bind_def by (rule io_keeps_case) (auto split: sum.splits intro: io_keeps_fail)

lemma io_keeps_map_err [io_intros]: "io_keeps P m \<Longrightarrow> io_keeps P (io_map_err g m)"
  unfolding io_map_err_def
  by (rule io_keeps_case) (auto split: sum.splits intro: io_keeps_fail io_keeps_return)

definition io_gives :: "('s \<Rightarrow> bool) \<Rightarrow> ('s, 'e, 'a) io \<Rightarrow> ('a \<Rightarrow> bool) \<Rightarrow> bool" where
  "io_gives P m Q \<longleftrightarrow> io_keeps P m \<and> (\<forall>s x s'. P s \<longrightarrow> m s = (Inr x, s') \<longrightarrow> Q x)"

lemma io_givesD: "io_gives P m Q \<Longrightarrow> P s \<Longrightarrow> m s = (Inr x, s') \<Longrightarrow> P s' \<and> Q x"
  unfolding io_gives_def by (blast dest: io_keepsE)

lemma io_gives_keeps: "io_gives P m Q \<Longrightarrow> io_keeps P m"
  by (simp add: io_gives_def)

lemma io_gives_any: "io_keeps P m \<Longrightarrow> (\<And>x. Q x) \<Longrightarrow> io_gives P m Q"
  by (simp add: io_gives_def)

lemma io_gives_return: "Q x \<Longrightarrow> io_gives P (io_return x) Q"
  by (simp add: io_gives_def io_keeps_return)

lemma io_gives_bind:
  assumes "io_gives P m Q" and "\<And>x. Q x \<Longrightarrow> io_gives P (k x) R"
  shows "io_gives P (io_bind m k) R"
  using assms by (fastforce simp: io_gives_def io_keeps_def io_bind_apply split: prod.splits sum.splits)

lemma io_gives_case:
  assumes "io_keeps P m" and "\<And>r. io_gives P (k r) R"
  shows "io_gives P (io_case m k) R"
proof -
  have "Q" if "P s" "m s = (r, s1)" "k r s1 = (Inr x, s')" and "R x \<Longrightarrow> Q" for Q s r s1 x s'
    using io_keepsE [OF assms(1) that(2,1)] io_givesD [OF assms(2) _ that(3)] that(4) by blast
  with assms show ?thesis
    by (auto simp: io_gives_def io_case_apply intro!: io_keeps_case split: prod.splits)
qed

lemma io_keeps_bind_gives:
  assumes "io_gives P m Q" and "\<And>x. Q x \<Longrightarrow> io_keeps P (k x)"
  shows "io_keeps P (io_bind m k)"
  using assms by (fastforce simp: io_gives_def io_keeps_def io_bind_apply split: prod.splits sum.splits)

subsection \<open>Step systems and their invariants\<close>

text \<open>
  The tasks of the gateway run concurrently. A component with concurrent steps is a step relation,
  and its reachable states are the least set that holds the start states and is closed under steps.
\<close>

inductive reachable :: "('s \<Rightarrow> bool) \<Rightarrow> ('s \<Rightarrow> 's \<Rightarrow> bool) \<Rightarrow> 's \<Rightarrow> bool"
  for init :: "'s \<Rightarrow> bool" and step :: "'s \<Rightarrow> 's \<Rightarrow> bool" where
  reachable_init: "init s \<Longrightarrow> reachable init step s"
| reachable_step: "reachable init step s \<Longrightarrow> step s t \<Longrightarrow> reachable init step t"

locale invariant_system =
  fixes init :: "'s \<Rightarrow> bool" and step :: "'s \<Rightarrow> 's \<Rightarrow> bool" and inv :: "'s \<Rightarrow> bool"
  assumes inv_init: "init s \<Longrightarrow> inv s"
    and inv_step: "inv s \<Longrightarrow> step s t \<Longrightarrow> inv t"
begin

lemma reachable_inv: "reachable init step s \<Longrightarrow> inv s"
  by (induction rule: reachable.induct) (blast intro: inv_init inv_step)+

lemma steps_inv: "step\<^sup>*\<^sup>* s t \<Longrightarrow> inv s \<Longrightarrow> inv t"
  by (induction rule: rtranclp_induct) (blast intro: inv_step)+

end

subsection \<open>Lists and words\<close>

lemma unat_of_nat_small: "n < 2 ^ LENGTH('a) \<Longrightarrow> unat (of_nat n :: 'a::len word) = n"
  by (simp add: unat_of_nat take_bit_nat_eq_self)

lemma unat_add_no_wrap:
  "unat a + unat b < 2 ^ LENGTH('a) \<Longrightarrow> unat (a + b :: 'a::len word) = unat a + unat b"
  by (simp add: unat_word_ariths)

end
