(* ===== verification/Proto_Frame.thy ===== *)
theory Proto_Frame
  imports Gateway_Prelude
begin

text \<open>
  The wire frames of \<open>gw-proto/src/frame.rs\<close>: the frames a client sends to the gateway, the
  frames the gateway sends to a client, and the data they carry. The constructors of the two frame
  enums share names in the source (\<open>Hello\<close>, \<open>Data\<close>), so here they carry the prefix \<open>C_\<close>
  (client to gateway) or \<open>S_\<close> (gateway to client).
\<close>

definition PROTOCOL_VERSION :: u16 where
  "PROTOCOL_VERSION = 1"

type_synonym session_id = u128

datatype resume_token = ResumeToken bytes

primrec token_bytes :: "resume_token \<Rightarrow> bytes" where
  "token_bytes (ResumeToken b) = b"

record target_spec =
  ts_host :: string
  ts_port :: u16
  ts_user :: string

datatype auth_intent =
  DelegatedKey (ai_public_key: bytes)
| Password (ai_secret: string)
| PrivateKey (ai_pem: string) (ai_passphrase: "string option")
| GatewayKey (ai_key_id: string)

datatype client_frame =
  C_Hello u16 string "resume_token option" "bytes option"
| C_Open target_spec auth_intent u16 u16
| C_Data bytes
| C_Resize u16 u16
| C_SignResponse u64 bytes
| C_Ping
| C_Close

datatype session_status = Connecting | Authenticating | Live | Detached | Closed

datatype server_frame =
  S_Hello u16 session_id bool resume_token
| S_Data bytes
| S_SignRequest u64 bytes bytes
| S_Status session_status
| S_Pong
| S_Error string
| S_Closed

end
