(* ===== verification/Proto_Codec.thy ===== *)
theory Proto_Codec
  imports Proto_Frame
begin

unbundle bit_operations_syntax

text \<open>
  The length-prefixed codec of \<open>gw-proto/src/codec.rs\<close>. The serializer is the third-party crate
  postcard, so it is a parameter: \<open>ser\<close> stands for \<open>postcard::to_stdvec\<close> and \<open>de\<close> for
  \<open>postcard::from_bytes\<close>. What the protocol relies on is \<open>postcard_ok ser de\<close>: bytes a value was
  serialized to deserialize to that value.

  Contents: the constants and error values of the codec, \<open>encode\<close>, \<open>decode\<close> and
  \<open>encode_framed\<close>, the big-endian length prefix, and the interface \<open>length_prefixing\<close> between
  the codec and the stream reader of the transport.
\<close>

definition MAX_FRAME_LEN :: nat where
  "MAX_FRAME_LEN = 8 * 1024 * 1024"

definition LEN_PREFIX :: nat where
  "LEN_PREFIX = 4"

datatype codec_error =
  Serialize ext_error
| Deserialize ext_error
| TooLarge nat

definition encode :: "('f \<Rightarrow> ext_error + bytes) \<Rightarrow> 'f \<Rightarrow> codec_error + bytes" where
  "encode ser frame = map_sum Serialize id (ser frame)"

definition decode :: "(bytes \<Rightarrow> ext_error + 'f) \<Rightarrow> bytes \<Rightarrow> codec_error + 'f" where
  "decode de bs = map_sum Deserialize id (de bs)"

text \<open>\<open>u32::to_be_bytes\<close> and \<open>u32::from_be_bytes\<close> of the standard library.\<close>

definition to_be_bytes :: "u32 \<Rightarrow> bytes" where
  "to_be_bytes w = [ucast (drop_bit 24 w), ucast (drop_bit 16 w), ucast (drop_bit 8 w), ucast w]"

definition from_be_bytes :: "bytes \<Rightarrow> u32" where
  "from_be_bytes bs = foldl (\<lambda>acc b. push_bit 8 acc OR ucast b) 0 bs"

definition length_prefix :: "bytes \<Rightarrow> bytes" where
  "length_prefix body = to_be_bytes (of_nat (length body)) @ body"

definition encode_framed :: "('f \<Rightarrow> ext_error + bytes) \<Rightarrow> 'f \<Rightarrow> codec_error + bytes" where
  "encode_framed ser frame =
     (case encode ser frame of
        Inl e \<Rightarrow> Inl e
      | Inr body \<Rightarrow>
          if length body > MAX_FRAME_LEN then Inl (TooLarge (length body))
          else Inr (length_prefix body))"

text \<open>What the protocol relies on of postcard.\<close>

definition postcard_ok :: "('f \<Rightarrow> ext_error + bytes) \<Rightarrow> (bytes \<Rightarrow> ext_error + 'f) \<Rightarrow> bool" where
  "postcard_ok ser de \<longleftrightarrow> (\<forall>f b. ser f = Inr b \<longrightarrow> de b = Inr f)"

subsection \<open>The length prefix\<close>

lemma to_be_bytes_length [simp]: "length (to_be_bytes w) = LEN_PREFIX"
  by (simp add: to_be_bytes_def LEN_PREFIX_def)

lemma from_to_be_bytes [simp]: "from_be_bytes (to_be_bytes w) = w"
proof (rule bit_word_eqI)
  fix n
  assume "n < LENGTH(32)"
  then consider "n < 8" | "8 \<le> n" "n < 16" | "16 \<le> n" "n < 24" | "24 \<le> n" "n < 32" by fastforce
  then show "bit (from_be_bytes (to_be_bytes w)) n = bit w n"
    by cases (auto simp: to_be_bytes_def from_be_bytes_def bit_simps)
qed

lemma MAX_FRAME_LEN_u32: "MAX_FRAME_LEN < 2 ^ LENGTH(32)"
  by (simp add: MAX_FRAME_LEN_def)

lemma prefix_reads_back:
  "length body \<le> MAX_FRAME_LEN \<Longrightarrow>
     unat (from_be_bytes (take LEN_PREFIX (length_prefix body @ rest))) = length body"
  using MAX_FRAME_LEN_u32
  by (simp add: length_prefix_def unat_of_nat_small)

text \<open>
  The interface between a writer and a reader of length-prefixed bodies: what the writer puts in
  front of a body lets the reader cut exactly that body off any stream that begins with it. The
  lemmas of the block lift the law from one body to a sequence of bodies.
\<close>

fun parse_bodies :: "(bytes \<Rightarrow> (bytes \<times> bytes) option) \<Rightarrow> nat \<Rightarrow> bytes \<Rightarrow> (bytes list \<times> bytes) option" where
  "parse_bodies get 0 bs = Some ([], bs)"
| "parse_bodies get (Suc n) bs =
     (case get bs of
        None \<Rightarrow> None
      | Some (b, rest) \<Rightarrow>
          (case parse_bodies get n rest of None \<Rightarrow> None | Some (xs, r) \<Rightarrow> Some (b # xs, r)))"

locale length_prefixing =
  fixes put :: "bytes \<Rightarrow> bytes"
    and get :: "bytes \<Rightarrow> (bytes \<times> bytes) option"
    and fits :: "bytes \<Rightarrow> bool"
  assumes get_put: "fits body \<Longrightarrow> get (put body @ rest) = Some (body, rest)"
begin

lemma parse_concat:
  "\<forall>b \<in> set bodies. fits b \<Longrightarrow>
     parse_bodies get (length bodies) (concat (map put bodies) @ rest) = Some (bodies, rest)"
  by (induction bodies) (simp_all add: get_put)

lemma put_concat_inj:
  assumes "\<forall>b \<in> set xs. fits b" and "\<forall>b \<in> set ys. fits b"
    and "length xs = length ys" and "concat (map put xs) = concat (map put ys)"
  shows "xs = ys"
  using parse_concat [OF assms(1), of "[]"] parse_concat [OF assms(2), of "[]"] assms(3,4) by simp

end

text \<open>The cut a reader makes: four bytes of length, the cap, then that many bytes.\<close>

definition cut_body :: "bytes \<Rightarrow> (bytes \<times> bytes) option" where
  "cut_body bs =
     (if length bs < LEN_PREFIX then None
      else let n = unat (from_be_bytes (take LEN_PREFIX bs)); rest = drop LEN_PREFIX bs
           in if n > MAX_FRAME_LEN \<or> length rest < n then None else Some (take n rest, drop n rest))"

interpretation framing: length_prefixing length_prefix cut_body "\<lambda>b. length b \<le> MAX_FRAME_LEN"
proof unfold_locales
  fix body rest :: bytes
  assume fits: "length body \<le> MAX_FRAME_LEN"
  have "drop LEN_PREFIX (length_prefix body @ rest) = body @ rest"
    by (simp add: length_prefix_def)
  moreover have "\<not> length (length_prefix body @ rest) < LEN_PREFIX"
    by (simp add: length_prefix_def)
  ultimately show "cut_body (length_prefix body @ rest) = Some (body, rest)"
    unfolding cut_body_def Let_def prefix_reads_back [OF fits] using fits by simp
qed

subsection \<open>Properties of the codec\<close>

lemma encode_framed_Inr:
  "encode_framed ser f = Inr bs \<longleftrightarrow>
     (\<exists>body. ser f = Inr body \<and> length body \<le> MAX_FRAME_LEN \<and> bs = length_prefix body)"
  by (cases "ser f") (auto simp: encode_framed_def encode_def)

text \<open>
  Framing a value either fails with the serializer's error, or fails with
  \<open>TooLarge\<close> and the size exactly when the serialized body exceeds \<open>MAX_FRAME_LEN\<close>, or yields a
  prefix of four bytes followed by the body; the prefix then declares the body's true length (the
  narrowing of the length to 32 bits loses nothing).
\<close>

lemma encode_framed_cases:
  "(case ser f of
      Inl e \<Rightarrow> encode_framed ser f = Inl (Serialize e)
    | Inr body \<Rightarrow>
        if MAX_FRAME_LEN < length body then encode_framed ser f = Inl (TooLarge (length body))
        else \<exists>len. encode_framed ser f = Inr (len @ body) \<and> length len = LEN_PREFIX \<and>
               unat (from_be_bytes len) = length body)"
proof (cases "ser f")
  case (Inl e)
  then show ?thesis by (simp add: encode_framed_def encode_def)
next
  case (Inr body)
  have "unat (from_be_bytes (to_be_bytes (of_nat (length body)))) = length body"
    if "\<not> MAX_FRAME_LEN < length body"
    using that MAX_FRAME_LEN_u32 by (simp add: unat_of_nat_small)
  with Inr show ?thesis
    by (auto simp: encode_framed_def encode_def length_prefix_def)
qed

end
