(* ===== verification/Transport_Framed.thy ===== *)
theory Transport_Framed
  imports Proto_Codec
begin

text \<open>
  Frames over a QUIC stream, \<open>gw-transport/src/framed.rs\<close>. The streams are quinn's, so their
  operations are parameters: \<open>wr\<close> is \<open>SendStream::write_all\<close>, \<open>rd n\<close> is
  \<open>RecvStream::read_exact\<close> on a buffer of \<open>n\<close> bytes and \<open>fin\<close> is \<open>SendStream::finish\<close>,
  each over a state of its own. What the framing relies on is documented of quinn: \<open>writer_ok\<close>
  (a successful write appends exactly the given bytes to the stream) and \<open>reader_ok\<close> (a read
  returns the next \<open>n\<close> bytes of the stream in order, and fails when the stream has fewer).

  The properties: a sequence of frames sent is the sequence of frames received; a frame is only
  ever decoded from the bytes its own prefix delimits; no declared length makes the reader ask for
  more than the cap.
\<close>

datatype transport_error =
  Connection ext_error
| Connect ext_error
| Write ext_error
| Read ext_error
| Codec codec_error
| Io ext_error
| FrameTooLarge nat
| Other ext_error

definition framed_send ::
  "('f \<Rightarrow> ext_error + bytes) \<Rightarrow> (bytes \<Rightarrow> ('s, ext_error, unit) io) \<Rightarrow> 'f \<Rightarrow> ('s, transport_error, unit) io" where
  "framed_send ser wr frame =
     (case encode_framed ser frame of
        Inl e \<Rightarrow> io_fail (Codec e)
      | Inr bs \<Rightarrow> io_bind (io_map_err Write (wr bs)) (\<lambda>_. io_return ()))"

definition framed_finish :: "('s, ext_error, unit) io \<Rightarrow> 's \<Rightarrow> 's" where
  "framed_finish fin s = snd (fin s)"

definition framed_recv ::
  "(nat \<Rightarrow> ('s, ext_error, bytes) io) \<Rightarrow> (bytes \<Rightarrow> ext_error + 'f) \<Rightarrow> ('s, transport_error, 'f) io" where
  "framed_recv rd de =
     io_bind (io_map_err Read (rd LEN_PREFIX)) (\<lambda>len.
       let n = unat (from_be_bytes len)
       in if n > MAX_FRAME_LEN then io_fail (FrameTooLarge n)
          else io_bind (io_map_err Read (rd n)) (\<lambda>body. io_map_err Codec (io_pure (decode de body))))"

text \<open>A peer's use of the two halves: send, or receive, several frames in turn.\<close>

fun send_frames ::
  "('f \<Rightarrow> ext_error + bytes) \<Rightarrow> (bytes \<Rightarrow> ('s, ext_error, unit) io) \<Rightarrow> 'f list \<Rightarrow> ('s, transport_error, unit) io" where
  "send_frames ser wr [] = io_return ()"
| "send_frames ser wr (f # fs) = io_bind (framed_send ser wr f) (\<lambda>_. send_frames ser wr fs)"

fun recv_frames ::
  "(nat \<Rightarrow> ('s, ext_error, bytes) io) \<Rightarrow> (bytes \<Rightarrow> ext_error + 'f) \<Rightarrow> nat \<Rightarrow> ('s, transport_error, 'f list) io" where
  "recv_frames rd de 0 = io_return []"
| "recv_frames rd de (Suc n) =
     io_bind (framed_recv rd de) (\<lambda>f. io_bind (recv_frames rd de n) (\<lambda>fs. io_return (f # fs)))"

text \<open>What the framing relies on of the two stream halves.\<close>

definition writer_ok :: "(bytes \<Rightarrow> ('s, ext_error, unit) io) \<Rightarrow> ('s \<Rightarrow> bytes) \<Rightarrow> bool" where
  "writer_ok wr outbox \<longleftrightarrow>
     (\<forall>bs s s'. wr bs s = (Inr (), s') \<longrightarrow> outbox s' = outbox s @ bs)"

definition reader_ok :: "(nat \<Rightarrow> ('s, ext_error, bytes) io) \<Rightarrow> ('s \<Rightarrow> bytes) \<Rightarrow> bool" where
  "reader_ok rd inbox \<longleftrightarrow>
     (\<forall>n s. n \<le> length (inbox s) \<longrightarrow>
        (\<exists>s'. rd n s = (Inr (take n (inbox s)), s') \<and> inbox s' = drop n (inbox s))) \<and>
     (\<forall>n s. length (inbox s) < n \<longrightarrow> isl (fst (rd n s)))"

lemma reader_okD:
  assumes "reader_ok rd inbox" and "inbox s = bs @ rest"
  obtains s' where "rd (length bs) s = (Inr bs, s')" and "inbox s' = rest"
proof -
  from assms(1) have "length bs \<le> length (inbox s) \<longrightarrow>
      (\<exists>s'. rd (length bs) s = (Inr (take (length bs) (inbox s)), s') \<and> inbox s' = drop (length bs) (inbox s))"
    unfolding reader_ok_def by blast
  with assms(2) that show thesis by auto
qed

lemma reader_ok_Inr:
  assumes "reader_ok rd inbox" and "rd n s = (Inr bs, s')"
  shows "n \<le> length (inbox s) \<and> bs = take n (inbox s) \<and> inbox s' = drop n (inbox s)"
proof (cases "n \<le> length (inbox s)")
  case True
  with assms show ?thesis unfolding reader_ok_def by fastforce
next
  case False
  with assms(1) have "isl (fst (rd n s))" unfolding reader_ok_def by simp
  with assms(2) show ?thesis by simp
qed

subsection \<open>One frame\<close>

lemma framed_send_Inr:
  "framed_send ser wr f s = (Inr (), s') \<longleftrightarrow>
     (\<exists>bs. encode_framed ser f = Inr bs \<and> wr bs s = (Inr (), s'))"
  by (auto simp: framed_send_def io_apply split: sum.splits prod.splits)

lemma framed_recv_body:
  assumes "reader_ok rd inbox" and "length body \<le> MAX_FRAME_LEN"
    and "inbox s = length_prefix body @ rest"
  obtains s' where "framed_recv rd de s = (map_sum Codec id (decode de body), s')" and "inbox s' = rest"
proof -
  let ?p = "to_be_bytes (of_nat (length body))"
  have n: "unat (of_nat (length body) :: u32) = length body"
    using MAX_FRAME_LEN_u32 assms(2) by (simp add: unat_of_nat_small)
  from assms(3) have "inbox s = ?p @ body @ rest" by (simp add: length_prefix_def)
  from reader_okD [OF assms(1) this]
  obtain s1 where s1: "rd LEN_PREFIX s = (Inr ?p, s1)" "inbox s1 = body @ rest" by auto
  from reader_okD [OF assms(1) s1(2)]
  obtain s2 where s2: "rd (length body) s1 = (Inr body, s2)" "inbox s2 = rest" .
  have "framed_recv rd de s = (map_sum Codec id (decode de body), s2)"
    using assms(2) s1(1) s2(1)
    by (cases "decode de body") (simp_all add: framed_recv_def io_apply n Let_def)
  with s2(2) that show thesis by blast
qed

lemma framed_recv_encoded:
  assumes "postcard_ok ser de" and "reader_ok rd inbox"
    and "encode_framed ser f = Inr bs" and "inbox s = bs @ rest"
  obtains s' where "framed_recv rd de s = (Inr f, s')" and "inbox s' = rest"
proof -
  from assms(3) obtain body where
    body: "ser f = Inr body" "length body \<le> MAX_FRAME_LEN" "bs = length_prefix body"
    by (auto simp: encode_framed_Inr)
  with assms(1) have "decode de body = Inr f"
    by (simp add: postcard_ok_def decode_def)
  with framed_recv_body [OF assms(2) body(2), of s rest de] assms(4) body(3) that show thesis by auto
qed

subsection \<open>Sequences of frames\<close>

lemma send_frames_bytes:
  assumes "writer_ok wr outbox"
  shows "send_frames ser wr fs s = (Inr (), s') \<Longrightarrow>
    \<exists>bss. list_all2 (\<lambda>f bs. encode_framed ser f = Inr bs) fs bss \<and> outbox s' = outbox s @ concat bss"
proof (induction fs arbitrary: s)
  case Nil
  then show ?case by auto
next
  case (Cons f fs)
  from Cons.prems obtain s1 where
    s1: "framed_send ser wr f s = (Inr (), s1)" "send_frames ser wr fs s1 = (Inr (), s')"
    by (auto simp: io_apply split: sum.splits prod.splits)
  from s1(1) obtain bs where bs: "encode_framed ser f = Inr bs" "wr bs s = (Inr (), s1)"
    by (auto simp: framed_send_Inr)
  with assms have "outbox s1 = outbox s @ bs" unfolding writer_ok_def by blast
  moreover from Cons.IH [OF s1(2)] obtain bss where
    "list_all2 (\<lambda>f bs. encode_framed ser f = Inr bs) fs bss" "outbox s' = outbox s1 @ concat bss" by blast
  ultimately show ?case
    using bs(1) by (intro exI [of _ "bs # bss"]) simp
qed

lemma recv_frames_bytes:
  assumes "postcard_ok ser de" and "reader_ok rd inbox"
  shows "list_all2 (\<lambda>f bs. encode_framed ser f = Inr bs) fs bss \<Longrightarrow> inbox s = concat bss @ rest \<Longrightarrow>
    \<exists>s'. recv_frames rd de (length fs) s = (Inr fs, s') \<and> inbox s' = rest"
proof (induction fs arbitrary: bss s)
  case Nil
  then show ?case by simp
next
  case (Cons f fs)
  then obtain bs bss' where bss: "bss = bs # bss'" "encode_framed ser f = Inr bs"
    "list_all2 (\<lambda>f bs. encode_framed ser f = Inr bs) fs bss'"
    by (auto simp: list_all2_Cons1)
  with Cons.prems have "inbox s = bs @ (concat bss' @ rest)" by simp
  from framed_recv_encoded [OF assms bss(2) this] obtain s1 where
    s1: "framed_recv rd de s = (Inr f, s1)" "inbox s1 = concat bss' @ rest" .
  from Cons.IH [OF bss(3) s1(2)] s1(1) show ?case
    by (auto simp: io_apply)
qed

subsection \<open>Concrete streams\<close>

text \<open>
  Streams over a byte list, used to exhibit concrete instances of the properties below: a writer
  that never fails, and a reader that fails at the end of the list.
\<close>

definition list_wr :: "bytes \<Rightarrow> (bytes, ext_error, unit) io" where
  "list_wr bs s = (Inr (), s @ bs)"

definition list_rd :: "nat \<Rightarrow> (bytes, ext_error, bytes) io" where
  "list_rd n s = (if n \<le> length s then (Inr (take n s), drop n s) else (Inl ''finished early'', []))"

lemma list_wr_ok: "writer_ok list_wr id"
  by (auto simp: writer_ok_def list_wr_def)

lemma list_rd_ok: "reader_ok list_rd id"
  by (auto simp: reader_ok_def list_rd_def)

text \<open>A serializer for two of the client frames, with its inverse.\<close>

fun demo_ser :: "client_frame \<Rightarrow> ext_error + bytes" where
  "demo_ser (C_Data bs) = Inr (2 # bs)"
| "demo_ser C_Ping = Inr [5]"
| "demo_ser _ = Inl ''unsupported''"

fun demo_de :: "bytes \<Rightarrow> ext_error + client_frame" where
  "demo_de [] = Inl ''unexpected end''"
| "demo_de (t # bs) =
     (if t = 2 then Inr (C_Data bs) else if t = 5 \<and> bs = [] then Inr C_Ping else Inl ''bad tag'')"

lemma demo_postcard_ok: "postcard_ok demo_ser demo_de"
  unfolding postcard_ok_def
proof (intro allI impI)
  fix f b assume "demo_ser f = Inr b"
  then show "demo_de b = Inr f" by (cases f) auto
qed

subsection \<open>Properties\<close>

text \<open>
  C19 (roundtrip). Frames sent in turn over a stream are received in turn: if every send succeeds
  and the peer's stream carries the written bytes, then as many receives as sends return exactly
  the frames sent, in order, and leave what follows them on the stream untouched.
\<close>

theorem framed_fifo_roundtrip:
  assumes "postcard_ok ser de" and "writer_ok wr outbox" and "reader_ok rd inbox"
    and "send_frames ser wr fs s = (Inr (), s')" and "outbox s = []" and "inbox t = outbox s' @ rest"
  shows "\<exists>t'. recv_frames rd de (length fs) t = (Inr fs, t') \<and> inbox t' = rest"
proof -
  from send_frames_bytes [OF assms(2,4)] assms(5) obtain bss where
    "list_all2 (\<lambda>f bs. encode_framed ser f = Inr bs) fs bss" "outbox s' = concat bss" by auto
  with recv_frames_bytes [OF assms(1,3), of fs bss t rest] assms(6) show ?thesis by simp
qed

theorem framed_fifo_roundtrip_witness:
  "\<exists>t'. recv_frames list_rd demo_de 2 [0, 0, 0, 3, 2, 7, 8, 0, 0, 0, 1, 5, 9]
          = (Inr [C_Data [7, 8], C_Ping], t') \<and> id t' = [9]"
proof -
  have "send_frames demo_ser list_wr [C_Data [7, 8], C_Ping] [] =
      (Inr (), [0, 0, 0, 3, 2, 7, 8, 0, 0, 0, 1, 5])"
    by (simp add: io_apply framed_send_def encode_framed_def encode_def length_prefix_def
        to_be_bytes_def MAX_FRAME_LEN_def list_wr_def)
  from framed_fifo_roundtrip [OF demo_postcard_ok list_wr_ok list_rd_ok this,
      of "[0, 0, 0, 3, 2, 7, 8, 0, 0, 0, 1, 5, 9]" "[9]"]
  show ?thesis by (simp add: numeral_2_eq_2)
qed

text \<open>
  C29 (safety). A received frame was decoded from exactly the bytes that its own length prefix
  delimits on the stream, at most \<open>MAX_FRAME_LEN\<close> of them, and the stream is left right after
  these bytes: no byte of a neighbouring frame is read or skipped.
\<close>

theorem framed_recv_sound:
  assumes "reader_ok rd inbox" and "framed_recv rd de s = (Inr f, s')"
  shows "\<exists>len body. length len = LEN_PREFIX \<and> inbox s = len @ body @ inbox s' \<and>
    unat (from_be_bytes len) = length body \<and> length body \<le> MAX_FRAME_LEN \<and> de body = Inr f"
proof -
  from assms(2) obtain len s1 body where
    r: "rd LEN_PREFIX s = (Inr len, s1)" "unat (from_be_bytes len) \<le> MAX_FRAME_LEN"
       "rd (unat (from_be_bytes len)) s1 = (Inr body, s')" "decode de body = Inr f"
    by (auto simp: framed_recv_def io_apply Let_def split: sum.splits prod.splits if_splits)
  note rd1 = reader_ok_Inr [OF assms(1) r(1)]
  note rd2 = reader_ok_Inr [OF assms(1) r(3)]
  from r(4) have "de body = Inr f" by (cases "de body") (auto simp: decode_def)
  moreover have "inbox s = len @ body @ inbox s'"
    using rd1 rd2 by (metis append_take_drop_id)
  moreover have "length len = LEN_PREFIX" "length body = unat (from_be_bytes len)"
    using rd1 rd2 by (metis length_take min.absorb2)+
  ultimately show ?thesis
    using r(2) by metis
qed

theorem framed_recv_sound_witness:
  "\<exists>len body. length len = LEN_PREFIX \<and> [0, 0, 0, 1, 5, 9] = len @ body @ [9] \<and>
     unat (from_be_bytes len) = length body \<and> length body \<le> MAX_FRAME_LEN \<and> demo_de body = Inr C_Ping"
proof -
  have "framed_recv list_rd demo_de [0, 0, 0, 1, 5, 9] = (Inr C_Ping, [9])"
    by (simp add: framed_recv_def io_apply list_rd_def LEN_PREFIX_def MAX_FRAME_LEN_def
        from_be_bytes_def Let_def decode_def)
  from framed_recv_sound [OF list_rd_ok this] show ?thesis by simp
qed

text \<open>
  C30 (bounds). Whatever bytes the peer sends, a receive never asks its stream for more than
  \<open>MAX_FRAME_LEN\<close> bytes at once: two streams that behave alike on requests up to that size are
  indistinguishable to it, however they treat a larger one. A prefix that declares more is
  refused with the declared length, and the stream is left right after the prefix.
\<close>

theorem framed_recv_request_bound:
  assumes "\<And>n s. n \<le> MAX_FRAME_LEN \<Longrightarrow> rd1 n s = rd2 n s"
  shows "framed_recv rd1 de s = framed_recv rd2 de s \<and>
    (\<forall>len s'. rd1 LEN_PREFIX s = (Inr len, s') \<and> MAX_FRAME_LEN < unat (from_be_bytes len) \<longrightarrow>
       framed_recv rd1 de s = (Inl (FrameTooLarge (unat (from_be_bytes len))), s'))"
proof -
  have len: "rd1 LEN_PREFIX = rd2 LEN_PREFIX"
    using assms by (intro ext) (simp add: LEN_PREFIX_def MAX_FRAME_LEN_def)
  have body: "rd1 n = rd2 n" if "\<not> MAX_FRAME_LEN < n" for n
    using assms that by (intro ext) simp
  have "(if MAX_FRAME_LEN < n then io_fail (FrameTooLarge n) else io_bind (io_map_err Read (rd1 n)) k) =
      (if MAX_FRAME_LEN < n then io_fail (FrameTooLarge n) else io_bind (io_map_err Read (rd2 n)) k)"
    for n and k :: "bytes \<Rightarrow> ('a, transport_error, 'b) io"
    using body [of n] by auto
  then have "framed_recv rd1 de = framed_recv rd2 de"
    by (simp add: framed_recv_def len Let_def)
  moreover have "framed_recv rd1 de s = (Inl (FrameTooLarge (unat (from_be_bytes len))), s')"
    if "rd1 LEN_PREFIX s = (Inr len, s')" "MAX_FRAME_LEN < unat (from_be_bytes len)" for len s'
    using that by (simp add: framed_recv_def io_apply Let_def)
  ultimately show ?thesis by simp
qed

theorem framed_recv_request_bound_witness:
  "framed_recv list_rd demo_de [0xFF, 0, 0, 0, 1] =
     (Inl (FrameTooLarge 0xFF000000), [1])"
proof -
  have "list_rd LEN_PREFIX [0xFF, 0, 0, 0, 1] = (Inr [0xFF, 0, 0, 0], [1])"
    by (simp add: list_rd_def LEN_PREFIX_def)
  moreover have "unat (from_be_bytes [0xFF, 0, 0, 0]) = 0xFF000000"
    by (simp add: from_be_bytes_def)
  ultimately show ?thesis
    using framed_recv_request_bound [of list_rd list_rd demo_de "[0xFF, 0, 0, 0, 1]"]
    by (simp add: MAX_FRAME_LEN_def)
qed

end
