(* ===== verification/Text_Model.thy ===== *)
theory Text_Model
  imports Gateway_Prelude
begin

text \<open>
  The parts of the Rust standard library's text handling the sources use: decimal display of
  unsigned integers, the bytes of a string, \<open>String::from_utf8\<close> and \<open>String::from_utf8_lossy\<close>,
  \<open>strip_suffix\<close> and \<open>ends_with\<close>, and the error chains of \<open>anyhow\<close> as far as they are displayed.

  The lemmas: decimal display is injective (two session ids never share a name), lossy decoding
  always yields valid UTF-8 and changes nothing that is valid already.
\<close>

subsection \<open>Decimal display\<close>

definition digit :: "nat \<Rightarrow> char" where
  "digit n = char_of (48 + n)"

fun decimal :: "nat \<Rightarrow> string" where
  "decimal n = (if n < 10 then [digit n] else decimal (n div 10) @ [digit (n mod 10)])"

declare decimal.simps [simp del]

definition word_display :: "'a::len word \<Rightarrow> string" where
  "word_display w = decimal (unat w)"

definition digit_value :: "char \<Rightarrow> nat" where
  "digit_value c = of_char c - 48"

definition decimal_value :: "string \<Rightarrow> nat" where
  "decimal_value s = foldl (\<lambda>acc c. 10 * acc + digit_value c) 0 s"

lemma digit_value_digit: "n < 10 \<Longrightarrow> digit_value (digit n) = n"
  by (simp add: digit_value_def digit_def of_char_of)

lemma decimal_value_decimal: "decimal_value (decimal n) = n"
proof (induction n rule: decimal.induct)
  case (1 n)
  show ?case
  proof (cases "n < 10")
    case True
    then show ?thesis by (subst decimal.simps) (simp add: decimal_value_def digit_value_digit)
  next
    case False
    with 1 have "decimal_value (decimal (n div 10)) = n div 10" by simp
    with False show ?thesis
      by (subst decimal.simps) (simp add: decimal_value_def digit_value_digit)
  qed
qed

lemma word_display_inj: "word_display v = word_display w \<longleftrightarrow> v = w"
  unfolding word_display_def by (metis decimal_value_decimal word_unat_eq_iff)

subsection \<open>Strings and their bytes\<close>

definition str_bytes :: "string \<Rightarrow> bytes" where
  "str_bytes s = map of_char s"

definition bytes_str :: "bytes \<Rightarrow> string" where
  "bytes_str bs = map (\<lambda>b. char_of (unat b)) bs"

lemma str_bytes_str [simp]: "str_bytes (bytes_str bs) = bs"
proof -
  have "(of_char (char_of (unat b)) :: byte) = b" for b :: byte
  proof -
    have "unat b < 2 ^ LENGTH(8)" by (rule unsigned_less)
    then have "unat b < 256" by simp
    then have "(of_char (char_of (unat b)) :: nat) = unat b" by (simp add: of_char_of)
    then have "(of_nat (of_char (char_of (unat b)) :: nat) :: byte) = of_nat (unat b)" by (rule arg_cong)
    then show ?thesis by (simp only: of_nat_of_char of_nat_unat unsigned_ucast_eq ucast_id)
  qed
  then show ?thesis by (simp add: str_bytes_def bytes_str_def o_def)
qed

definition ends_with :: "string \<Rightarrow> char \<Rightarrow> bool" where
  "ends_with s c \<longleftrightarrow> s \<noteq> [] \<and> last s = c"

definition strip_suffix :: "string \<Rightarrow> string \<Rightarrow> string option" where
  "strip_suffix s suf =
     (let n = length s - length suf
      in if length suf \<le> length s \<and> drop n s = suf then Some (take n s) else None)"

lemma strip_suffix_Some: "strip_suffix s suf = Some p \<longleftrightarrow> s = p @ suf"
  by (auto simp: strip_suffix_def Let_def) (metis append_take_drop_id)

subsection \<open>UTF-8\<close>

text \<open>
  \<open>utf8_scan b bs\<close> looks at the sequence that begins with byte \<open>b\<close>: whether it encodes one
  character, and how many bytes after \<open>b\<close> belong to it (for an ill-formed sequence, the bytes of
  its longest well-formed prefix).
\<close>

definition utf8_width :: "byte \<Rightarrow> nat" where
  "utf8_width b =
     (if b < 0x80 then 1
      else if 0xC2 \<le> b \<and> b \<le> 0xDF then 2
      else if 0xE0 \<le> b \<and> b \<le> 0xEF then 3
      else if 0xF0 \<le> b \<and> b \<le> 0xF4 then 4
      else 0)"

definition utf8_second :: "byte \<Rightarrow> byte \<Rightarrow> bool" where
  "utf8_second b c =
     (if b = 0xE0 then 0xA0 \<le> c \<and> c \<le> 0xBF
      else if b = 0xED then 0x80 \<le> c \<and> c \<le> 0x9F
      else if b = 0xF0 then 0x90 \<le> c \<and> c \<le> 0xBF
      else if b = 0xF4 then 0x80 \<le> c \<and> c \<le> 0x8F
      else 0x80 \<le> c \<and> c \<le> 0xBF)"

fun utf8_conts :: "nat \<Rightarrow> bytes \<Rightarrow> nat" where
  "utf8_conts (Suc k) (c # cs) = (if 0x80 \<le> c \<and> c \<le> 0xBF then Suc (utf8_conts k cs) else 0)"
| "utf8_conts _ _ = 0"

definition utf8_scan :: "byte \<Rightarrow> bytes \<Rightarrow> bool \<times> nat" where
  "utf8_scan b bs =
     (let w = utf8_width b
      in if w = 0 then (False, 0)
         else if w = 1 then (True, 0)
         else case bs of
                [] \<Rightarrow> (False, 0)
              | c # cs \<Rightarrow> if utf8_second b c then let k = utf8_conts (w - 2) cs in (k = w - 2, Suc k)
                          else (False, 0))"

function utf8_valid :: "bytes \<Rightarrow> bool" where
  "utf8_valid [] = True"
| "utf8_valid (b # bs) = (case utf8_scan b bs of (good, k) \<Rightarrow> good \<and> utf8_valid (drop k bs))"
  by pat_completeness auto
termination by (relation "measure length") auto

definition REPLACEMENT :: bytes where
  "REPLACEMENT = [0xEF, 0xBF, 0xBD]"

function utf8_lossy :: "bytes \<Rightarrow> bytes" where
  "utf8_lossy [] = []"
| "utf8_lossy (b # bs) =
     (case utf8_scan b bs of (good, k) \<Rightarrow>
        (if good then b # take k bs else REPLACEMENT) @ utf8_lossy (drop k bs))"
  by pat_completeness auto
termination by (relation "measure length") auto

definition from_utf8 :: "bytes \<Rightarrow> string option" where
  "from_utf8 bs = (if utf8_valid bs then Some (bytes_str bs) else None)"

definition from_utf8_lossy :: "bytes \<Rightarrow> string" where
  "from_utf8_lossy bs = bytes_str (utf8_lossy bs)"

lemma utf8_lossy_id: "utf8_valid bs \<Longrightarrow> utf8_lossy bs = bs"
  by (induction bs rule: utf8_valid.induct) (auto split: prod.splits)

lemma utf8_conts_take: "utf8_conts k cs = k \<Longrightarrow> utf8_conts k (take k cs @ rest) = k"
  by (induction k cs rule: utf8_conts.induct) (auto split: if_splits)

lemma utf8_conts_le: "utf8_conts k cs \<le> k" "utf8_conts k cs \<le> length cs"
  by (induction k cs rule: utf8_conts.induct) auto

text \<open>A well-formed sequence is well-formed whatever follows it.\<close>

lemma utf8_scan_prefix:
  assumes "utf8_scan b bs = (True, k)"
  shows "utf8_scan b (take k bs @ rest) = (True, k)" and "k \<le> length bs"
proof -
  show "utf8_scan b (take k bs @ rest) = (True, k)"
    using assms utf8_conts_take
    by (auto simp: utf8_scan_def Let_def split: if_splits list.splits)
  show "k \<le> length bs"
    using assms utf8_conts_le(2)
    by (auto simp: utf8_scan_def Let_def split: if_splits list.splits)
qed

lemma utf8_scan_replacement: "utf8_scan 0xEF (0xBF # 0xBD # rest) = (True, Suc (Suc 0))"
proof -
  have "utf8_width 0xEF = 3" "utf8_second 0xEF 0xBF" by (simp_all add: utf8_width_def utf8_second_def)
  moreover have "utf8_conts (Suc 0) (0xBD # rest) = Suc 0" by simp
  ultimately show ?thesis by (simp add: utf8_scan_def Let_def)
qed

lemma utf8_lossy_valid: "utf8_valid (utf8_lossy bs)"
proof (induction bs rule: utf8_lossy.induct)
  case (2 b bs)
  obtain good k where scan: "utf8_scan b bs = (good, k)" by (cases "utf8_scan b bs")
  have IH: "utf8_valid (utf8_lossy (drop k bs))" by (rule 2) (simp add: scan)
  show ?case
  proof (cases good)
    case True
    with utf8_scan_prefix [of b bs k] scan IH show ?thesis by simp
  next
    case False
    with scan IH show ?thesis by (simp add: REPLACEMENT_def utf8_scan_replacement)
  qed
qed simp

subsection \<open>Error chains\<close>

text \<open>An \<open>anyhow::Error\<close>: a message, or a context wrapped around an error. Displaying it (\<open>{error}\<close>)
  shows the outermost message only.\<close>

datatype anyhow = Msg string | Ctx string anyhow

primrec anyhow_display :: "anyhow \<Rightarrow> string" where
  "anyhow_display (Msg m) = m"
| "anyhow_display (Ctx m e) = m"

end
