(* ===== verification/Core_F64.thy ===== *)
theory Core_F64
  imports Complex_Main Gateway_Prelude
begin

text \<open>
  The double-precision arithmetic the token bucket of \<open>gw-core/src/quota.rs\<close> computes with. An
  \<open>f64\<close> operation is the exact operation on reals followed by \<open>f64_round\<close>, the rounding of IEEE 754
  to the nearest number of 53 significant bits, ties to even. The values of the token bucket are
  zero or between $10^{-9}$ and $2^{128}$ in magnitude, far inside the exponent range, so overflow to
  infinity and subnormal numbers are not represented.

  The interface \<open>f64_rounding\<close> collects what proofs use of the rounding (it is monotone, exact on
  the numbers it can represent, and off by a factor between $1 - 2^{-53}$ and $1 + 2^{-53}$); \<open>f64_round\<close>
  satisfies it. \<open>Duration\<close> of the standard library is a number of nanoseconds.
\<close>

subsection \<open>Rounding\<close>

definition round_even :: "real \<Rightarrow> int" where
  "round_even x =
     (let f = \<lfloor>x\<rfloor>; d = x - of_int f
      in if d < 1/2 then f else if 1/2 < d then f + 1 else if even f then f else f + 1)"

definition f64_ulp :: "real \<Rightarrow> real" where
  "f64_ulp x = 2 powr of_int (\<lfloor>log 2 x\<rfloor> - 52)"

definition f64_round :: "real \<Rightarrow> real" where
  "f64_round x = (if x = 0 then 0 else of_int (round_even (x / f64_ulp \<bar>x\<bar>)) * f64_ulp \<bar>x\<bar>)"

definition f64_of_u64 :: "u64 \<Rightarrow> real" where
  "f64_of_u64 n = f64_round (real (unat n))"

definition f64_add :: "real \<Rightarrow> real \<Rightarrow> real" where
  "f64_add x y = f64_round (x + y)"

definition f64_sub :: "real \<Rightarrow> real \<Rightarrow> real" where
  "f64_sub x y = f64_round (x - y)"

definition f64_mul :: "real \<Rightarrow> real \<Rightarrow> real" where
  "f64_mul x y = f64_round (x * y)"

definition f64_div :: "real \<Rightarrow> real \<Rightarrow> real" where
  "f64_div x y = f64_round (x / y)"

subsection \<open>Durations\<close>

type_synonym duration = nat  \<comment> \<open>nanoseconds\<close>

definition NANOS_PER_SEC :: nat where
  "NANOS_PER_SEC = 1000000000"

definition as_secs_f64 :: "duration \<Rightarrow> real" where
  "as_secs_f64 d =
     f64_add (f64_round (real (d div NANOS_PER_SEC))) (f64_div (real (d mod NANOS_PER_SEC)) (real NANOS_PER_SEC))"

text \<open>\<open>Duration::from_secs_f64\<close> rounds to the nearest nanosecond and panics (\<open>None\<close>) when the value
  is negative or does not fit 64 bits of seconds.\<close>

definition from_secs_f64 :: "real \<Rightarrow> duration option" where
  "from_secs_f64 x =
     (if x < 0 \<or> 2 ^ 64 * int NANOS_PER_SEC \<le> round_even (x * real NANOS_PER_SEC) then None
      else Some (nat (round_even (x * real NANOS_PER_SEC))))"

subsection \<open>What proofs use of the rounding\<close>

definition f64_eps :: real where
  "f64_eps = 1 / 2 ^ 53"

locale f64_rounding =
  fixes rnd :: "real \<Rightarrow> real"
  assumes rnd_mono: "0 \<le> x \<Longrightarrow> x \<le> y \<Longrightarrow> rnd x \<le> rnd y"
    and rnd_exact: "n \<le> 2 ^ 53 \<Longrightarrow> rnd (real n * 2 powr of_int k) = real n * 2 powr of_int k"
    and rnd_representable: "0 \<le> x \<Longrightarrow> \<exists>n k. n \<le> 2 ^ 53 \<and> rnd x = real n * 2 powr of_int k"
    and rnd_le: "0 \<le> x \<Longrightarrow> rnd x \<le> x * (1 + f64_eps)"
    and rnd_ge: "0 \<le> x \<Longrightarrow> x * (1 - f64_eps) \<le> rnd x"
begin

lemma rnd_nat: "n \<le> 2 ^ 53 \<Longrightarrow> rnd (real n) = real n"
  using rnd_exact [of n 0] by simp

lemma rnd_0: "rnd 0 = 0"
  using rnd_nat [of 0] by simp

lemma rnd_nonneg: "0 \<le> x \<Longrightarrow> 0 \<le> rnd x"
  using rnd_mono [of 0 x] by (simp add: rnd_0)

lemma rnd_ge_nat: "n \<le> 2 ^ 53 \<Longrightarrow> real n \<le> x \<Longrightarrow> real n \<le> rnd x"
  using rnd_mono [of "real n" x] by (simp add: rnd_nat)

lemma rnd_idem: "0 \<le> x \<Longrightarrow> rnd (rnd x) = rnd x"
  using rnd_representable [of x] rnd_exact by auto

lemma rnd_ge_rnd: "0 \<le> x \<Longrightarrow> rnd x \<le> y \<Longrightarrow> rnd x \<le> rnd y"
  using rnd_mono [of "rnd x" y] by (simp add: rnd_idem rnd_nonneg)

end

subsection \<open>The rounding satisfies it\<close>

lemma round_even_of_int [simp]: "round_even (of_int k) = k"
  by (simp add: round_even_def)

lemma round_even_bounds: "real_of_int (round_even x) \<le> x + 1/2" "x - 1/2 \<le> real_of_int (round_even x)"
  unfolding round_even_def Let_def by (auto; linarith)+

lemma round_even_floor: "\<lfloor>x\<rfloor> \<le> round_even x" "round_even x \<le> \<lfloor>x\<rfloor> + 1"
  by (auto simp: round_even_def Let_def)

lemma round_even_mono: "x \<le> y \<Longrightarrow> round_even x \<le> round_even y"
proof (cases "\<lfloor>x\<rfloor> < \<lfloor>y\<rfloor>")
  case True
  with round_even_floor(2) [of x] round_even_floor(1) [of y] show ?thesis by linarith
next
  case False
  assume "x \<le> y"
  with False have "\<lfloor>x\<rfloor> = \<lfloor>y\<rfloor>" using floor_mono [of x y] by linarith
  with \<open>x \<le> y\<close> show ?thesis by (auto simp: round_even_def Let_def)
qed

lemma round_even_between: "of_int a \<le> x \<Longrightarrow> x \<le> of_int b \<Longrightarrow> a \<le> round_even x \<and> round_even x \<le> b"
  using round_even_mono [of "of_int a" x] round_even_mono [of x "of_int b"] by simp

lemma f64_ulp_pos [simp]: "0 < f64_ulp x" "0 \<le> f64_ulp x" "f64_ulp x \<noteq> 0"
  by (simp_all add: f64_ulp_def)

lemma powr_2_shift: "2 powr (of_int (e - 52)) * 2 ^ 52 = (2 powr of_int e :: real)"
  by (simp add: powr_diff powr_numeral)

lemma binade:
  assumes "0 < x"
  shows "2 powr of_int \<lfloor>log 2 x\<rfloor> \<le> x" and "x < 2 powr (of_int \<lfloor>log 2 x\<rfloor> + 1)"
proof -
  have x: "2 powr log 2 x = x" using assms by simp
  have "2 powr of_int \<lfloor>log 2 x\<rfloor> \<le> (2 powr log 2 x :: real)" by (rule powr_mono) simp_all
  with x show "2 powr of_int \<lfloor>log 2 x\<rfloor> \<le> x" by simp
  have "2 powr log 2 x < (2 powr (of_int \<lfloor>log 2 x\<rfloor> + 1) :: real)" by (rule powr_less_mono) simp_all
  with x show "x < 2 powr (of_int \<lfloor>log 2 x\<rfloor> + 1)" by simp
qed

lemma significand_range:
  assumes "0 < x"
  shows "2 ^ 52 \<le> x / f64_ulp x" and "x / f64_ulp x < 2 ^ 53"
proof -
  let ?e = "\<lfloor>log 2 x\<rfloor>"
  have u: "f64_ulp x * 2 ^ 52 = 2 powr of_int ?e" unfolding f64_ulp_def by (rule powr_2_shift)
  then have "f64_ulp x * 2 ^ 53 = 2 powr (of_int ?e + 1)" by (simp add: powr_add)
  with u binade [OF assms] show "2 ^ 52 \<le> x / f64_ulp x" "x / f64_ulp x < 2 ^ 53"
    by (simp_all add: pos_le_divide_eq pos_divide_less_eq mult.commute)
qed

lemma f64_round_pos:
  "0 < x \<Longrightarrow> f64_round x = of_int (round_even (x / f64_ulp x)) * f64_ulp x"
  by (simp add: f64_round_def)

lemma rounded_significand:
  assumes "0 < x"
  shows "2 ^ 52 \<le> round_even (x / f64_ulp x)" and "round_even (x / f64_ulp x) \<le> 2 ^ 53"
  using round_even_between [of "2 ^ 52" "x / f64_ulp x" "2 ^ 53"] significand_range [OF assms] by auto

lemma f64_round_significand:
  assumes "0 < x"
  shows "2 ^ 52 * f64_ulp x \<le> f64_round x" and "f64_round x \<le> 2 ^ 53 * f64_ulp x"
proof -
  have "(2 :: real) ^ 52 \<le> of_int (round_even (x / f64_ulp x))"
    "of_int (round_even (x / f64_ulp x)) \<le> (2 :: real) ^ 53"
    using rounded_significand [OF assms] by (metis of_int_le_iff of_int_numeral of_int_power)+
  then show "2 ^ 52 * f64_ulp x \<le> f64_round x" "f64_round x \<le> 2 ^ 53 * f64_ulp x"
    unfolding f64_round_pos [OF assms] by (intro mult_right_mono; simp)+
qed

lemma f64_round_le:
  assumes "0 \<le> x"
  shows "f64_round x \<le> x * (1 + f64_eps)"
proof (cases "x = 0")
  case False
  with assms have x: "0 < x" by simp
  have "f64_round x \<le> (x / f64_ulp x + 1/2) * f64_ulp x"
    using round_even_bounds(1) [of "x / f64_ulp x"] by (simp add: f64_round_pos [OF x])
  also have "\<dots> = x + f64_ulp x / 2" by (simp add: field_simps)
  also have "\<dots> \<le> x + x * f64_eps"
    using significand_range(1) [OF x] by (simp add: f64_eps_def pos_le_divide_eq field_simps)
  finally show ?thesis by (simp add: algebra_simps)
qed (simp add: f64_round_def)

lemma f64_round_ge:
  assumes "0 \<le> x"
  shows "x * (1 - f64_eps) \<le> f64_round x"
proof (cases "x = 0")
  case False
  with assms have x: "0 < x" by simp
  have "x * (1 - f64_eps) = x - x * f64_eps" by (simp add: algebra_simps)
  also have "\<dots> \<le> x - f64_ulp x / 2"
    using significand_range(1) [OF x] by (simp add: f64_eps_def pos_le_divide_eq field_simps)
  also have "\<dots> = (x / f64_ulp x - 1/2) * f64_ulp x" by (simp add: field_simps)
  also have "\<dots> \<le> f64_round x"
    unfolding f64_round_pos [OF x] using round_even_bounds(2) [of "x / f64_ulp x"]
    by (intro mult_right_mono) simp_all
  finally show ?thesis .
qed (simp add: f64_round_def)

lemma f64_round_mono:
  assumes "0 \<le> x" and "x \<le> y"
  shows "f64_round x \<le> f64_round y"
proof (cases "x = 0")
  case True
  have "0 \<le> f64_round y" if "0 < y"
    using rounded_significand(1) [OF that] by (simp add: f64_round_pos [OF that])
  with True assms show ?thesis by (cases "y = 0") (auto simp: f64_round_def [of 0])
next
  case False
  with assms have pos: "0 < x" "0 < y" by auto
  let ?ex = "\<lfloor>log 2 x\<rfloor>" and ?ey = "\<lfloor>log 2 y\<rfloor>"
  have "?ex \<le> ?ey" using assms pos by (intro floor_mono) simp
  then consider "?ex = ?ey" | "?ex + 1 \<le> ?ey" by linarith
  then show ?thesis
  proof cases
    case 1
    then have "f64_ulp x = f64_ulp y" by (simp add: f64_ulp_def)
    moreover have "round_even (x / f64_ulp y) \<le> round_even (y / f64_ulp y)"
      using assms by (intro round_even_mono divide_right_mono) (auto intro: less_imp_le)
    ultimately show ?thesis
      by (simp add: f64_round_pos pos mult_right_mono less_imp_le)
  next
    case 2
    have "f64_round x \<le> 2 ^ 53 * f64_ulp x" by (rule f64_round_significand(2) [OF pos(1)])
    also have "\<dots> = 2 powr (of_int (?ex + 1))"
      using powr_2_shift [of ?ex] by (simp add: f64_ulp_def powr_add)
    also have "\<dots> \<le> 2 powr (of_int ?ey)" using 2 by (intro powr_mono) auto
    also have "\<dots> = 2 ^ 52 * f64_ulp y"
      using powr_2_shift [of ?ey] by (simp add: f64_ulp_def)
    also have "\<dots> \<le> f64_round y" by (rule f64_round_significand(1) [OF pos(2)])
    finally show ?thesis .
  qed
qed

lemma f64_round_exact:
  assumes "n \<le> 2 ^ 53"
  shows "f64_round (real n * 2 powr of_int k) = real n * 2 powr of_int k"
proof (cases "n = 0")
  case False
  let ?x = "real n * 2 powr of_int k" and ?e = "\<lfloor>log 2 (real n)\<rfloor>"
  have pos: "0 < ?x" using False by simp
  have "\<lfloor>log 2 ?x\<rfloor> = ?e + k"
    using False by (simp add: log_mult)
  then have u: "f64_ulp ?x = 2 powr of_int (?e - 52) * 2 powr of_int k"
    by (simp add: f64_ulp_def flip: powr_add) (simp add: algebra_simps)
  have q: "?x / f64_ulp ?x = real n * 2 powr of_int (52 - ?e)"
    unfolding u by (simp add: powr_diff)
  have "\<exists>j. ?x / f64_ulp ?x = of_int j"
  proof (cases "?e \<le> 52")
    case True
    then have "(2 :: real) powr of_int (52 - ?e) = of_int (2 ^ nat (52 - ?e))"
      by (simp add: powr_realpow flip: powr_realpow)
    with q show ?thesis by (metis of_int_mult of_int_of_nat_eq)
  next
    case False
    then have e: "53 \<le> ?e" by linarith
    have "(2 :: real) powr 53 \<le> 2 powr of_int ?e" using e by (intro powr_mono) auto
    also have "\<dots> \<le> real n" using binade(1) [of "real n"] \<open>n \<noteq> 0\<close> by simp
    finally have "(2 :: real) ^ 53 \<le> real n" by (simp add: powr_numeral)
    with assms have "real n = 2 ^ 53"
      by (metis antisym of_nat_le_iff of_nat_numeral of_nat_power)
    then have "log 2 (real n) = 53" unfolding \<open>real n = 2 ^ 53\<close> by (subst log_nat_power) auto
    then have "?e = 53" by simp
    with q \<open>real n = 2 ^ 53\<close> have "?x / f64_ulp ?x = of_int (2 ^ 52)" by simp
    then show ?thesis ..
  qed
  then obtain j where j: "?x / f64_ulp ?x = of_int j" by blast
  then have "of_int j * f64_ulp ?x = ?x" by (metis f64_ulp_pos(3) nonzero_eq_divide_eq)
  then show ?thesis by (simp only: f64_round_pos [OF pos] j round_even_of_int)
qed (simp add: f64_round_def)

lemma f64_round_representable:
  assumes "0 \<le> x"
  shows "\<exists>n k. n \<le> 2 ^ 53 \<and> f64_round x = real n * 2 powr of_int k"
proof (cases "x = 0")
  case False
  with assms have x: "0 < x" by simp
  let ?j = "round_even (x / f64_ulp x)"
  have "0 \<le> ?j" "nat ?j \<le> 2 ^ 53" using rounded_significand [OF x] by (auto simp: nat_le_iff)
  moreover have "f64_round x = real (nat ?j) * 2 powr of_int (\<lfloor>log 2 x\<rfloor> - 52)"
    using \<open>0 \<le> ?j\<close> by (simp add: f64_round_pos [OF x] f64_ulp_def)
  ultimately show ?thesis by blast
qed (auto simp: f64_round_def intro: exI [of _ 0])

interpretation f64: f64_rounding f64_round
  by unfold_locales (fact f64_round_mono f64_round_exact f64_round_representable f64_round_le f64_round_ge)+

end
