(* ===== verification/Transport_Endpoint.thy ===== *)
theory Transport_Endpoint
  imports Transport_Framed Text_Model Core_F64
begin

text \<open>
  The QUIC endpoints, \<open>gw-transport/src/{lib,tls,server,client}.rs\<close>: TLS and transport
  configuration of server and client, binding, accepting a client with its control stream, and
  connecting to a gateway.

  The libraries (quinn, rustls, rcgen, rustls-pemfile) are parameters: a record of the calls the
  sources make. A TLS configuration is the library's value together with the fields the source sets
  on it. The process-wide crypto provider, which every configuration function makes sure is installed
  first, is a flag and the library's state (\<open>install_crypto_provider\<close>); the configuration functions do not
  look at it otherwise, so it is not threaded through them.

  The properties: both ends negotiate the same application protocol; both ends keep a connection
  alive more often than either lets it time out; a self-signed server hands out the certificate it
  serves, and the pinned client trusts that certificate only.
\<close>

definition DEFAULT_PORT :: u16 where
  "DEFAULT_PORT = 4433"

definition ALPN :: bytes where
  "ALPN = str_bytes ''sharkgw/1''"

datatype socket_addr = SocketAddr (sa_octets: bytes) (sa_port: u16)

record ('cert, 'key, 'tls, 'idle) tls_ops =
  generate_simple_self_signed :: "string list \<Rightarrow> ext_error + ('cert \<times> 'key)"
  pem_certs :: "bytes \<Rightarrow> ext_error + 'cert list"
  pem_private_key :: "bytes \<Rightarrow> ext_error + 'key option"
  with_single_cert :: "'cert list \<Rightarrow> 'key \<Rightarrow> ext_error + 'tls"
  root_store_add :: "'cert list \<Rightarrow> 'cert \<Rightarrow> ext_error + 'cert list"
  with_root_certificates :: "'cert list \<Rightarrow> 'tls"
  quic_server_try_from :: "'tls \<times> bytes list \<Rightarrow> ext_error + unit"
  quic_client_try_from :: "'tls \<times> bytes list \<Rightarrow> ext_error + unit"
  idle_try_from :: "duration \<Rightarrow> ext_error + 'idle"

text \<open>
  \<open>CRYPTO_INIT.call_once\<close>: the first call runs \<open>install_default\<close>, whose outcome is ignored; later ones do
  nothing.
\<close>

definition install_crypto_provider :: "('p, ext_error, unit) io \<Rightarrow> bool \<times> 'p \<Rightarrow> bool \<times> 'p" where
  "install_crypto_provider install_default st =
     (case st of (called, provider) \<Rightarrow> if called then st else (True, snd (install_default provider)))"

lemma install_crypto_provider_once:
  "0 < n \<Longrightarrow> (install_crypto_provider inst ^^ n) (False, provider) = (True, snd (inst provider))"
proof (induction n rule: nat_induct_non_zero)
  case (Suc n)
  then show ?case by (simp add: install_crypto_provider_def)
qed (simp add: install_crypto_provider_def)

subsection \<open>Configuration\<close>

record 'idle transport_config =
  max_idle_timeout :: "'idle option"
  keep_alive_interval :: "duration option"

text \<open>\<open>idle_timeout\<close> panics (\<open>None\<close>) if the library refuses the duration.\<close>

definition idle_timeout :: "('cert, 'key, 'tls, 'idle) tls_ops \<Rightarrow> 'idle option" where
  "idle_timeout T = (case idle_try_from T (30 * NANOS_PER_SEC) of Inl _ \<Rightarrow> None | Inr i \<Rightarrow> Some i)"

definition transport :: "('cert, 'key, 'tls, 'idle) tls_ops \<Rightarrow> 'idle transport_config option" where
  "transport T =
     map_option (\<lambda>idle. \<lparr>max_idle_timeout = Some idle, keep_alive_interval = Some (10 * NANOS_PER_SEC)\<rparr>)
       (idle_timeout T)"

record ('tls, 'idle) quic_config =
  qc_tls :: 'tls
  qc_alpn :: "bytes list"
  qc_transport :: "'idle transport_config"

datatype 'a outcome = Ok 'a | Failed anyhow | Panics

definition try_ctx :: "string \<Rightarrow> ext_error + 'a \<Rightarrow> ('a \<Rightarrow> 'b outcome) \<Rightarrow> 'b outcome" where
  "try_ctx m r k = (case r of Inl e \<Rightarrow> Failed (Ctx m (Msg e)) | Inr x \<Rightarrow> k x)"

definition or_panic :: "'a option \<Rightarrow> ('a \<Rightarrow> 'b outcome) \<Rightarrow> 'b outcome" where
  "or_panic r k = (case r of None \<Rightarrow> Panics | Some x \<Rightarrow> k x)"

definition build_server_config ::
  "('cert, 'key, 'tls, 'idle) tls_ops \<Rightarrow> 'cert list \<Rightarrow> 'key \<Rightarrow> ('tls, 'idle) quic_config outcome" where
  "build_server_config T certs key =
     try_ctx ''build server TLS config'' (with_single_cert T certs key) (\<lambda>tls.
     try_ctx ''build QUIC server crypto config'' (quic_server_try_from T (tls, [ALPN])) (\<lambda>_.
     or_panic (transport T) (\<lambda>tr.
     Ok \<lparr>qc_tls = tls, qc_alpn = [ALPN], qc_transport = tr\<rparr>)))"

definition self_signed_server_config ::
  "('cert, 'key, 'tls, 'idle) tls_ops \<Rightarrow> (('tls, 'idle) quic_config \<times> 'cert) outcome" where
  "self_signed_server_config T =
     try_ctx ''generate self-signed certificate'' (generate_simple_self_signed T [''localhost'']) (\<lambda>(cert, key).
       case build_server_config T [cert] key of
         Ok config \<Rightarrow> Ok (config, cert)
       | Failed e \<Rightarrow> Failed e
       | Panics \<Rightarrow> Panics)"

definition server_config_from_pem ::
  "('cert, 'key, 'tls, 'idle) tls_ops \<Rightarrow> string \<Rightarrow> string \<Rightarrow> ('tls, 'idle) quic_config outcome" where
  "server_config_from_pem T cert_pem key_pem =
     try_ctx ''parse certificate PEM'' (pem_certs T (str_bytes cert_pem)) (\<lambda>certs.
       if certs = [] then Failed (Msg ''no certificates in PEM'')
       else try_ctx ''parse private key PEM'' (pem_private_key T (str_bytes key_pem)) (\<lambda>found.
         case found of
           None \<Rightarrow> Failed (Msg ''no private key in PEM'')
         | Some key \<Rightarrow> build_server_config T certs key))"

definition pinned_client_config ::
  "('cert, 'key, 'tls, 'idle) tls_ops \<Rightarrow> 'cert \<Rightarrow> ('tls, 'idle) quic_config outcome" where
  "pinned_client_config T server_cert =
     try_ctx ''pin server cert'' (root_store_add T [] server_cert) (\<lambda>roots.
     let tls = with_root_certificates T roots
     in try_ctx ''build QUIC client crypto config'' (quic_client_try_from T (tls, [ALPN])) (\<lambda>_.
        or_panic (transport T) (\<lambda>tr.
        Ok \<lparr>qc_tls = tls, qc_alpn = [ALPN], qc_transport = tr\<rparr>)))"

subsection \<open>Endpoints\<close>

record ('s, 'ep, 'inc, 'conn, 'snd, 'rcv, 'cfg) quinn =
  endpoint_server :: "'cfg \<Rightarrow> socket_addr \<Rightarrow> ('s, ext_error, 'ep) io"
  endpoint_client :: "socket_addr \<Rightarrow> ('s, ext_error, 'ep) io"
  set_default_client_config :: "'ep \<Rightarrow> 'cfg \<Rightarrow> 's \<Rightarrow> 's"
  endpoint_accept :: "'ep \<Rightarrow> 's \<Rightarrow> 'inc option \<times> 's"
  await_incoming :: "'inc \<Rightarrow> ('s, ext_error, 'conn) io"
  endpoint_connect :: "'ep \<Rightarrow> socket_addr \<Rightarrow> string \<Rightarrow> ('s, ext_error, 'inc) io"
  accept_bi :: "'conn \<Rightarrow> ('s, ext_error, 'snd \<times> 'rcv) io"
  open_bi :: "'conn \<Rightarrow> ('s, ext_error, 'snd \<times> 'rcv) io"
  endpoint_close :: "'ep \<Rightarrow> u32 \<Rightarrow> bytes \<Rightarrow> 's \<Rightarrow> 's"
  endpoint_wait_idle :: "'ep \<Rightarrow> 's \<Rightarrow> 's"
  endpoint_local_addr :: "'ep \<Rightarrow> ('s, ext_error, socket_addr) io"
  connection_remote_address :: "'conn \<Rightarrow> 's \<Rightarrow> socket_addr"

record ('conn, 'snd, 'rcv) client_connection =
  cc_conn :: 'conn
  cc_send :: 'snd
  cc_recv :: 'rcv

definition remote_address ::
  "('s, 'ep, 'inc, 'conn, 'snd, 'rcv, 'cfg) quinn \<Rightarrow> ('conn, 'snd, 'rcv) client_connection \<Rightarrow> 's \<Rightarrow> socket_addr" where
  "remote_address Q client = connection_remote_address Q (cc_conn client)"

definition server_bind ::
  "('s, 'ep, 'inc, 'conn, 'snd, 'rcv, 'cfg) quinn \<Rightarrow> socket_addr \<Rightarrow> 'cfg \<Rightarrow> ('s, transport_error, 'ep) io" where
  "server_bind Q addr config = io_map_err Io (endpoint_server Q config addr)"

definition server_bind_self_signed ::
  "('cert, 'key, 'tls, 'idle) tls_ops \<Rightarrow> ('s, 'ep, 'inc, 'conn, 'snd, 'rcv, ('tls, 'idle) quic_config) quinn \<Rightarrow>
   socket_addr \<Rightarrow> ('s, transport_error option, 'ep \<times> 'cert) io" where
  "server_bind_self_signed T Q addr =
     (case self_signed_server_config T of
        Panics \<Rightarrow> io_fail None
      | Failed e \<Rightarrow> io_fail (Some (Other (anyhow_display e)))
      | Ok (config, cert) \<Rightarrow> io_bind (io_map_err Some (server_bind Q addr config)) (\<lambda>ep. io_return (ep, cert)))"

definition server_local_addr ::
  "('s, 'ep, 'inc, 'conn, 'snd, 'rcv, 'cfg) quinn \<Rightarrow> 'ep \<Rightarrow> ('s, transport_error, socket_addr) io" where
  "server_local_addr Q ep = io_map_err Io (endpoint_local_addr Q ep)"

definition accept_control ::
  "('s, 'ep, 'inc, 'conn, 'snd, 'rcv, 'cfg) quinn \<Rightarrow> 'inc \<Rightarrow> ('s, transport_error, ('conn, 'snd, 'rcv) client_connection) io" where
  "accept_control Q incoming =
     io_bind (io_map_err Connection (await_incoming Q incoming)) (\<lambda>conn.
     io_bind (io_map_err Connection (accept_bi Q conn)) (\<lambda>(send, recv).
     io_return \<lparr>cc_conn = conn, cc_send = send, cc_recv = recv\<rparr>))"

definition server_accept ::
  "('s, 'ep, 'inc, 'conn, 'snd, 'rcv, 'cfg) quinn \<Rightarrow> 'ep \<Rightarrow> 's \<Rightarrow>
   (transport_error + ('conn, 'snd, 'rcv) client_connection) option \<times> 's" where
  "server_accept Q ep s =
     (case endpoint_accept Q ep s of
        (None, s1) \<Rightarrow> (None, s1)
      | (Some incoming, s1) \<Rightarrow> (case accept_control Q incoming s1 of (r, s2) \<Rightarrow> (Some r, s2)))"

definition server_shutdown :: "('s, 'ep, 'inc, 'conn, 'snd, 'rcv, 'cfg) quinn \<Rightarrow> 'ep \<Rightarrow> 's \<Rightarrow> 's" where
  "server_shutdown Q ep s = endpoint_wait_idle Q ep (endpoint_close Q ep 0 (str_bytes ''shutdown'') s)"

definition client_new ::
  "('s, 'ep, 'inc, 'conn, 'snd, 'rcv, 'cfg) quinn \<Rightarrow> 'cfg \<Rightarrow> ('s, transport_error, 'ep) io" where
  "client_new Q config =
     io_bind (io_map_err Io (endpoint_client Q (SocketAddr [0, 0, 0, 0] 0))) (\<lambda>ep s.
       (Inr ep, set_default_client_config Q ep config s))"

definition client_connect_to ::
  "('s, 'ep, 'inc, 'conn, 'snd, 'rcv, 'cfg) quinn \<Rightarrow> 'ep \<Rightarrow> socket_addr \<Rightarrow> string \<Rightarrow>
   ('s, transport_error, ('conn, 'snd, 'rcv) client_connection) io" where
  "client_connect_to Q ep addr server_name =
     io_bind (io_map_err Connect (endpoint_connect Q ep addr server_name)) (\<lambda>connecting.
     io_bind (io_map_err Connection (await_incoming Q connecting)) (\<lambda>conn.
     io_bind (io_map_err Connection (open_bi Q conn)) (\<lambda>(send, recv).
     io_return \<lparr>cc_conn = conn, cc_send = send, cc_recv = recv\<rparr>)))"

definition client_wait_idle :: "('s, 'ep, 'inc, 'conn, 'snd, 'rcv, 'cfg) quinn \<Rightarrow> 'ep \<Rightarrow> 's \<Rightarrow> 's" where
  "client_wait_idle Q ep s = endpoint_wait_idle Q ep s"

subsection \<open>Properties\<close>

lemmas config_defs = build_server_config_def self_signed_server_config_def server_config_from_pem_def
  pinned_client_config_def try_ctx_def or_panic_def transport_def idle_timeout_def

text \<open>
  C38 (functional). The two ends of the link fit together: a client configured with the certificate
  that a self-signed server handed out trusts exactly the certificate that server presents (given a
  root store that holds what was added to it), offers the one application protocol the server offers,
  and both ends send keep-alives at intervals strictly shorter than the common idle timeout, so
  that an attached but silent client is not dropped.
\<close>

theorem pinned_client_matches_server:
  assumes "self_signed_server_config T = Ok (server, cert)" and "pinned_client_config T cert = Ok client"
    and "\<And>roots c rs. root_store_add T roots c = Inr rs \<Longrightarrow> rs = roots @ [c]"
  shows "\<exists>key idle. generate_simple_self_signed T [''localhost''] = Inr (cert, key) \<and>
    with_single_cert T [cert] key = Inr (qc_tls server) \<and> qc_tls client = with_root_certificates T [cert] \<and>
    qc_alpn client = qc_alpn server \<and> qc_transport client = qc_transport server \<and>
    idle_try_from T (30 * NANOS_PER_SEC) = Inr idle \<and> max_idle_timeout (qc_transport server) = Some idle \<and>
    (\<exists>k. keep_alive_interval (qc_transport server) = Some k \<and> k < 30 * NANOS_PER_SEC)"
  using assms(1,2)
  by (auto simp: config_defs Let_def NANOS_PER_SEC_def dest!: assms(3)
      split: sum.splits option.splits prod.splits outcome.splits)

definition demo_tls :: "(string, nat, string list, duration) tls_ops" where
  "demo_tls =
     \<lparr>generate_simple_self_signed = (\<lambda>names. Inr (concat names, 7)), pem_certs = (\<lambda>b. Inr []),
      pem_private_key = (\<lambda>b. Inr None), with_single_cert = (\<lambda>cs k. Inr cs),
      root_store_add = (\<lambda>rs c. Inr (rs @ [c])), with_root_certificates = id,
      quic_server_try_from = (\<lambda>t. Inr ()), quic_client_try_from = (\<lambda>t. Inr ()), idle_try_from = Inr\<rparr>"

theorem pinned_client_matches_server_witness:
  "\<exists>server client. self_signed_server_config demo_tls = Ok (server, ''localhost'') \<and>
     pinned_client_config demo_tls ''localhost'' = Ok client \<and> qc_alpn client = qc_alpn server"
proof -
  obtain server where s: "self_signed_server_config demo_tls = Ok (server, ''localhost'')"
    by (simp add: config_defs demo_tls_def)
  obtain client where c: "pinned_client_config demo_tls ''localhost'' = Ok client"
    by (simp add: config_defs demo_tls_def Let_def)
  have "root_store_add demo_tls roots c = Inr rs \<Longrightarrow> rs = roots @ [c]" for roots c rs
    by (simp add: demo_tls_def)
  from pinned_client_matches_server [OF s c this] s c show ?thesis by blast
qed

text \<open>
  A certificate chain without certificates, or a key file without a key, is refused
  before anything is built from it, and a configuration built from PEM serves exactly the parsed
  chain under the parsed key.
\<close>

lemma server_config_from_pem_sound:
  assumes "server_config_from_pem T cert_pem key_pem = Ok config"
  shows "\<exists>certs key. pem_certs T (str_bytes cert_pem) = Inr certs \<and> certs \<noteq> [] \<and>
    pem_private_key T (str_bytes key_pem) = Inr (Some key) \<and>
    with_single_cert T certs key = Inr (qc_tls config) \<and> qc_alpn config = [ALPN]"
  using assms by (auto simp: config_defs split: sum.splits option.splits if_splits)

end
