(* ===== verification/Core_Session.thy ===== *)
theory Core_Session
  imports Proto_Frame "HOL-Library.Sublist"
begin

text \<open>
  The session and its scrollback, \<open>gw-core/src/lib.rs\<close>: the bounded buffer of a session's output
  (\<open>SessionInner\<close>), the ingest task that fills it, and the per-client readers that replay it
  and then follow it live (\<open>SessionReader\<close>).

  Offsets are 64-bit words, and their additions wrap as in the release build. The abstract view
  of a session is its whole output so far, a byte list; \<open>scroll_rep s log\<close> relates the two, and
  the interface \<open>output_log\<close> states what a scrollback promises its readers in terms of that list.
  The lemmas of the interface (what a run of output and reads delivers) rest on these laws only.
\<close>

definition DEFAULT_SCROLLBACK_BYTES :: nat where
  "DEFAULT_SCROLLBACK_BYTES = 256 * 1024"

record session_inner =
  buf :: bytes
  start_offset :: u64
  end_offset :: u64
  closed :: bool
  max_bytes :: nat

definition session_append :: "session_inner \<Rightarrow> bytes \<Rightarrow> session_inner" where
  "session_append s data =
     (let s1 = s\<lparr>buf := buf s @ data, end_offset := end_offset s + of_nat (length data)\<rparr>
      in if length (buf s1) > max_bytes s1
         then let excess = length (buf s1) - max_bytes s1
              in s1\<lparr>buf := drop excess (buf s1), start_offset := start_offset s1 + of_nat excess\<rparr>
         else s1)"

record session =
  sess_id :: session_id
  sess_token :: bytes
  server_fingerprint :: "string option"
  sess_inner :: session_inner

definition session_spawn :: "session_id \<Rightarrow> bytes \<Rightarrow> string option \<Rightarrow> nat \<Rightarrow> session" where
  "session_spawn sid token fingerprint maxb =
     \<lparr>sess_id = sid, sess_token = token, server_fingerprint = fingerprint,
      sess_inner = \<lparr>buf = [], start_offset = 0, end_offset = 0, closed = False, max_bytes = maxb\<rparr>\<rparr>"

definition is_closed :: "session \<Rightarrow> bool" where
  "is_closed s = closed (sess_inner s)"

text \<open>
  The ingest task: every chunk the output channel delivers is appended; when the channel is closed
  the session is marked closed. \<open>chunks\<close> is what the channel delivers until it is closed.
\<close>

fun ingest :: "session_inner \<Rightarrow> bytes list \<Rightarrow> session_inner" where
  "ingest s [] = s\<lparr>closed := True\<rparr>"
| "ingest s (b # bs) = ingest (session_append s b) bs"

text \<open>A reader is its cursor; one look at the buffer under the session lock is \<open>reader_poll\<close>.\<close>

type_synonym cursor = u64

definition session_reader :: "session \<Rightarrow> cursor" where
  "session_reader s = 0"

datatype poll =
  Chunk bytes    \<comment> \<open>\<open>return Some(chunk)\<close>\<close>
| Ended          \<comment> \<open>\<open>return None\<close>\<close>
| Pending        \<comment> \<open>fall through to the wait\<close>
| Panic          \<comment> \<open>the slice \<open>buf[lo..]\<close> out of range\<close>

definition reader_poll :: "session_inner \<Rightarrow> cursor \<Rightarrow> poll \<times> cursor" where
  "reader_poll s cur =
     (let c = (if cur < start_offset s then start_offset s else cur)
      in if c < end_offset s
         then let lo = unat (c - start_offset s)
              in if lo \<le> length (buf s) then (Chunk (drop lo (buf s)), end_offset s) else (Panic, c)
         else if closed s then (Ended, c) else (Pending, c))"

subsection \<open>The interface of a scrollback\<close>

text \<open>
  A client of the scrollback sees output arriving and polls its reader. \<open>out_run\<close> runs such a
  sequence and collects the chunks delivered.
\<close>

datatype sess_event = Output bytes | Poll

fun out_run ::
  "('s \<Rightarrow> bytes \<Rightarrow> 's) \<Rightarrow> ('s \<Rightarrow> 'c \<Rightarrow> poll \<times> 'c) \<Rightarrow> sess_event list \<Rightarrow> 's \<Rightarrow> 'c \<Rightarrow> bytes list \<times> 's \<times> 'c" where
  "out_run push poll [] s c = ([], s, c)"
| "out_run push poll (Output d # es) s c = out_run push poll es (push s d) c"
| "out_run push poll (Poll # es) s c =
     (case poll s c of
        (Chunk b, c') \<Rightarrow> (case out_run push poll es s c' of (bs, r) \<Rightarrow> (b # bs, r))
      | (_, c') \<Rightarrow> out_run push poll es s c')"

fun outputs :: "sess_event list \<Rightarrow> bytes" where
  "outputs [] = []"
| "outputs (Output d # es) = d @ outputs es"
| "outputs (Poll # es) = outputs es"

text \<open>No more than \<open>m\<close> bytes ever wait unread: \<open>lag\<close> bytes wait now.\<close>

fun keeps_up :: "nat \<Rightarrow> nat \<Rightarrow> sess_event list \<Rightarrow> bool" where
  "keeps_up m lag [] = True"
| "keeps_up m lag (Output d # es) = (lag + length d \<le> m \<and> keeps_up m (lag + length d) es)"
| "keeps_up m lag (Poll # es) = keeps_up m 0 es"

locale output_log =
  fixes push :: "'s \<Rightarrow> bytes \<Rightarrow> 's"
    and poll :: "'s \<Rightarrow> 'c \<Rightarrow> poll \<times> 'c"
    and rep :: "'s \<Rightarrow> bytes \<Rightarrow> bool"
    and pos :: "'c \<Rightarrow> nat"
    and cap :: "'s \<Rightarrow> nat"
    and over :: "'s \<Rightarrow> bool"
    and limit :: nat
  assumes push_rep: "rep s log \<Longrightarrow> length log + length d < limit \<Longrightarrow> rep (push s d) (log @ d)"
    and push_cap: "cap (push s d) = cap s"
    and poll_unread: "rep s log \<Longrightarrow> pos c < length log \<Longrightarrow> length log - cap s < length log \<Longrightarrow>
      \<exists>c'. poll s c = (Chunk (drop (max (pos c) (length log - cap s)) log), c') \<and> pos c' = length log"
    and poll_no_room: "rep s log \<Longrightarrow> pos c < length log \<Longrightarrow> length log - cap s = length log \<Longrightarrow>
      \<exists>c'. poll s c = (if over s then Ended else Pending, c') \<and> pos c' = length log"
    and poll_read: "rep s log \<Longrightarrow> pos c = length log \<Longrightarrow> poll s c = (if over s then Ended else Pending, c)"
begin

text \<open>
  One poll: it delivers a suffix of what is unread, all of it when no more than the capacity is
  unread, and moves the cursor to the end of the output.
\<close>

lemma poll_step:
  assumes "rep s log" and "pos c \<le> length log" and "out_run push poll (Poll # es) s c = (bs, r)"
  obtains d c1 bs' where "concat bs = d @ concat bs'" and "out_run push poll es s c1 = (bs', r)"
    and "pos c1 = length log" and "suffix d (drop (pos c) log)"
    and "length log - pos c \<le> cap s \<longrightarrow> d = drop (pos c) log"
proof -
  consider (read) "pos c = length log"
    | (unread) "pos c < length log" "length log - cap s < length log"
    | (noroom) "pos c < length log" "length log - cap s = length log"
    using assms(2) by linarith
  then show thesis
  proof cases
    case read
    with poll_read [OF assms(1)] assms(3) that [of "[]" bs c] show thesis
      by (auto split: if_splits)
  next
    case unread
    let ?p = "max (pos c) (length log - cap s)"
    from poll_unread [OF assms(1) unread] obtain c1 where
      c1: "poll s c = (Chunk (drop ?p log), c1)" "pos c1 = length log" by blast
    have "suffix (drop ?p log) (drop (pos c) log)"
      by (metis drop_drop le_add_diff_inverse2 max.cobounded1 suffix_drop)
    moreover have "length log - pos c \<le> cap s \<longrightarrow> ?p = pos c" by auto
    ultimately show thesis
      using assms(3) c1 that by (force split: prod.splits)
  next
    case noroom
    with poll_no_room [OF assms(1) noroom] assms(3) that [of "[]"] show thesis
      by (auto split: if_splits)
  qed
qed

lemma run_subseq:
  assumes "rep s log" and "pos c \<le> length log" and "length log + length (outputs es) < limit"
    and "out_run push poll es s c = (bs, s', c')"
  shows "subseq (concat bs) (drop (pos c) (log @ outputs es))"
  using assms
proof (induction es arbitrary: s c log bs)
  case Nil
  then show ?case by simp
next
  case (Cons e es)
  show ?case
  proof (cases e)
    case (Output d)
    have "rep (push s d) (log @ d)" using Cons.prems Output by (intro push_rep) auto
    from Cons.IH [OF this, of c bs] Cons.prems Output show ?thesis by simp
  next
    case Poll
    with Cons.prems(4) have "out_run push poll (Poll # es) s c = (bs, s', c')" by simp
    from poll_step [OF Cons.prems(1,2) this]
    obtain d c1 bs' where st: "concat bs = d @ concat bs'" "out_run push poll es s c1 = (bs', s', c')"
      "pos c1 = length log" "suffix d (drop (pos c) log)" .
    from st(4) have "subseq d (drop (pos c) log)" by (rule suffix_imp_subseq)
    moreover have "subseq (concat bs') (outputs es)"
      using Cons.IH [OF Cons.prems(1) _ _ st(2)] st(3) Cons.prems(3) Poll by simp
    ultimately show ?thesis
      using st(1) Cons.prems(2) Poll by (simp add: list_emb_append_mono)
  qed
qed

lemma run_lossless:
  assumes "rep s log" and "pos c \<le> length log" and "length log + length (outputs es) < limit"
    and "length log - pos c \<le> cap s" and "keeps_up (cap s) (length log - pos c) es"
    and "out_run push poll es s c = (bs, s', c')"
  shows "\<exists>n. pos c' = pos c + n \<and> concat bs = take n (drop (pos c) (log @ outputs es))"
  using assms
proof (induction es arbitrary: s c log bs)
  case Nil
  then show ?case by auto
next
  case (Cons e es)
  show ?case
  proof (cases e)
    case (Output d)
    have "rep (push s d) (log @ d)" using Cons.prems Output by (intro push_rep) auto
    from Cons.IH [OF this, of c bs] Cons.prems Output show ?thesis
      by (simp add: push_cap)
  next
    case Poll
    with Cons.prems(6) have "out_run push poll (Poll # es) s c = (bs, s', c')" by simp
    from poll_step [OF Cons.prems(1,2) this] Cons.prems(4)
    obtain c1 bs' where st: "concat bs = drop (pos c) log @ concat bs'"
      "out_run push poll es s c1 = (bs', s', c')" "pos c1 = length log" by metis
    obtain n where "pos c' = length log + n" "concat bs' = take n (outputs es)"
      using Cons.IH [OF Cons.prems(1) _ _ _ _ st(2)] st(3) Cons.prems(3,5) Poll by auto
    then show ?thesis
      using st(1) Cons.prems(2) Poll by (intro exI [of _ "length log - pos c + n"]) simp
  qed
qed

lemma run_rep:
  assumes "rep s log" and "pos c \<le> length log" and "length log + length (outputs es) < limit"
    and "out_run push poll es s c = (bs, s', c')"
  shows "rep s' (log @ outputs es) \<and> pos c' \<le> length (log @ outputs es)"
  using assms
proof (induction es arbitrary: s c log bs)
  case Nil
  then show ?case by simp
next
  case (Cons e es)
  show ?case
  proof (cases e)
    case (Output d)
    have "rep (push s d) (log @ d)" using Cons.prems Output by (intro push_rep) auto
    from Cons.IH [OF this, of c bs] Cons.prems Output show ?thesis by simp
  next
    case Poll
    with Cons.prems(4) have "out_run push poll (Poll # es) s c = (bs, s', c')" by simp
    from poll_step [OF Cons.prems(1,2) this] obtain c1 bs' where
      "out_run push poll es s c1 = (bs', s', c')" "pos c1 = length log" .
    with Cons.IH [OF Cons.prems(1), of c1 bs'] Cons.prems(3) Poll show ?thesis by simp
  qed
qed

lemma run_caught_up:
  assumes "rep s log" and "pos c \<le> length log" and "length log + length (outputs es) < limit"
    and "out_run push poll (es @ [Poll]) s c = (bs, s', c')"
  shows "pos c' = length (log @ outputs es)"
  using assms
proof (induction es arbitrary: s c log bs)
  case Nil
  then have "out_run push poll [Poll] s c = (bs, s', c')" by simp
  from poll_step [OF Nil.prems(1,2) this] show ?case by fastforce
next
  case (Cons e es)
  show ?case
  proof (cases e)
    case (Output d)
    have "rep (push s d) (log @ d)" using Cons.prems Output by (intro push_rep) auto
    from Cons.IH [OF this, of c bs] Cons.prems Output show ?thesis by simp
  next
    case Poll
    with Cons.prems(4) have "out_run push poll (Poll # es @ [Poll]) s c = (bs, s', c')" by simp
    from poll_step [OF Cons.prems(1,2) this] obtain c1 bs' where
      "out_run push poll (es @ [Poll]) s c1 = (bs', s', c')" "pos c1 = length log" .
    with Cons.IH [OF Cons.prems(1), of c1 bs'] Cons.prems(3) Poll show ?thesis by simp
  qed
qed

end

subsection \<open>The scrollback implements the interface\<close>

definition scroll_rep :: "session_inner \<Rightarrow> bytes \<Rightarrow> bool" where
  "scroll_rep s log \<longleftrightarrow>
     length log < 2 ^ 64 \<and> buf s = drop (length log - max_bytes s) log \<and>
     unat (start_offset s) = length log - max_bytes s \<and> unat (end_offset s) = length log"

named_theorems session_simps

lemma session_append_fields [session_simps]:
  "max_bytes (session_append s d) = max_bytes s"
  "closed (session_append s d) = closed s"
  "end_offset (session_append s d) = end_offset s + of_nat (length d)"
  by (simp_all add: session_append_def Let_def)

lemma session_append_buf:
  "buf (session_append s d) = drop (length (buf s) + length d - max_bytes s) (buf s @ d)"
  "start_offset (session_append s d) =
     start_offset s + of_nat (length (buf s) + length d - max_bytes s)"
  by (simp_all add: session_append_def Let_def)

lemma scroll_rep_spawn: "scroll_rep (sess_inner (session_spawn i t f m)) []"
  by (simp add: scroll_rep_def session_spawn_def)

lemma scroll_rep_append:
  assumes "scroll_rep s log" and "length log + length d < 2 ^ 64"
  shows "scroll_rep (session_append s d) (log @ d)"
proof -
  let ?k = "length (buf s) + length d - max_bytes s"
  let ?p = "length log - max_bytes s"
  from assms(1) have rep: "buf s = drop ?p log" "unat (start_offset s) = ?p"
    "unat (end_offset s) = length log" by (auto simp: scroll_rep_def)
  have p: "length (log @ d) - max_bytes s = ?p + ?k"
    using rep(1) by auto
  have "buf (session_append s d) = drop (length (log @ d) - max_bytes s) (log @ d)"
    unfolding p session_append_buf rep(1)
    by (subst add.commute, subst drop_drop [symmetric], subst drop_append [of ?p]) simp
  moreover have "unat (start_offset (session_append s d)) = ?p + ?k"
    using assms(2) rep(1,2) unfolding session_append_buf
    by (subst unat_add_no_wrap) (auto simp: unat_of_nat_small)
  moreover have "unat (end_offset (session_append s d)) = length (log @ d)"
    using assms(2) rep(3) unfolding session_simps
    by (subst unat_add_no_wrap) (auto simp: unat_of_nat_small)
  ultimately show ?thesis
    using assms(2) unfolding scroll_rep_def session_append_fields(1) p by simp
qed

lemma reader_poll_rep:
  assumes "scroll_rep s log" and "unat c \<le> length log"
  defines "p \<equiv> max (unat c) (length log - max_bytes s)"
  shows "reader_poll s c =
    (if p < length log then (Chunk (drop p log), end_offset s)
     else (if closed s then Ended else Pending, if c < start_offset s then start_offset s else c))"
proof -
  from assms(1) have rep: "buf s = drop (length log - max_bytes s) log"
    "unat (start_offset s) = length log - max_bytes s" "unat (end_offset s) = length log"
    by (auto simp: scroll_rep_def)
  let ?c = "if c < start_offset s then start_offset s else c"
  have "unat ?c = p" "start_offset s \<le> ?c"
    using rep(2) by (auto simp: p_def word_less_nat_alt word_le_nat_alt)
  then have "unat (?c - start_offset s) = p - (length log - max_bytes s)"
    by (simp add: unat_sub rep(2))
  moreover have "?c < end_offset s \<longleftrightarrow> p < length log"
    using \<open>unat ?c = p\<close> rep(3) by (simp add: word_less_nat_alt)
  moreover have "drop (p - (length log - max_bytes s)) (buf s) = drop p log"
    by (simp add: rep(1) p_def)
  moreover have "p < length log \<Longrightarrow> p - (length log - max_bytes s) \<le> length (buf s)"
    by (simp add: rep(1))
  ultimately show ?thesis
    by (simp add: reader_poll_def Let_def)
qed

interpretation scroll: output_log session_append reader_poll scroll_rep unat max_bytes closed "2 ^ 64"
proof unfold_locales
  fix s log and c :: cursor
  assume rep: "scroll_rep s log"
  note poll = reader_poll_rep [OF rep]
  from rep have e: "unat (end_offset s) = length log" "unat (start_offset s) = length log - max_bytes s"
    by (auto simp: scroll_rep_def)
  show "\<exists>c'. reader_poll s c = (Chunk (drop (max (unat c) (length log - max_bytes s)) log), c') \<and> unat c' = length log"
    if "unat c < length log" "length log - max_bytes s < length log"
    using poll [of c] that e(1) by simp
  show "\<exists>c'. reader_poll s c = (if closed s then Ended else Pending, c') \<and> unat c' = length log"
    if "unat c < length log" "length log - max_bytes s = length log"
    using poll [of c] that e(2) by (simp add: word_less_nat_alt)
  show "reader_poll s c = (if closed s then Ended else Pending, c)" if "unat c = length log"
    using poll [of c] that e(2) by (simp add: word_less_nat_alt not_less [THEN iffD2, OF diff_le_self])
qed (simp_all add: scroll_rep_append session_simps)

lemma scroll_rep_closed [simp]: "scroll_rep (s\<lparr>closed := b\<rparr>) log = scroll_rep s log"
  by (simp add: scroll_rep_def)

lemma ingest_rep:
  "scroll_rep s log \<Longrightarrow> length log + length (concat chunks) < 2 ^ 64 \<Longrightarrow>
     scroll_rep (ingest s chunks) (log @ concat chunks)"
proof (induction chunks arbitrary: s log)
  case Nil
  then show ?case by simp
next
  case (Cons b bs)
  then have "scroll_rep (session_append s b) (log @ b)" by (intro scroll_rep_append) auto
  from Cons.IH [OF this] Cons.prems show ?case by simp
qed

lemma ingest_fields [session_simps]:
  "max_bytes (ingest s chunks) = max_bytes s" "closed (ingest s chunks)"
  by (induction chunks arbitrary: s) (simp_all add: session_simps)

text \<open>A well-formed scrollback, whatever the offsets.\<close>

definition inner_wf :: "session_inner \<Rightarrow> bool" where
  "inner_wf s \<longleftrightarrow> length (buf s) \<le> max_bytes s \<and> end_offset s = start_offset s + of_nat (length (buf s))"

lemma session_append_bound: "length (buf (session_append s d)) \<le> max_bytes s"
  by (simp add: session_append_buf)

lemma session_append_wf:
  assumes "inner_wf s"
  shows "inner_wf (session_append s d)"
proof -
  let ?k = "length (buf s) + length d - max_bytes s" and ?s = "session_append s d"
  have "length (buf ?s) + ?k = length (buf s) + length d" by (simp only: session_append_buf length_drop length_append)
  from arg_cong [OF this, of "of_nat :: nat \<Rightarrow> u64"]
  have "of_nat (length (buf ?s)) + of_nat ?k = (of_nat (length (buf s)) + of_nat (length d) :: u64)" by simp
  moreover have "start_offset ?s = start_offset s + of_nat ?k" by (rule session_append_buf(2))
  ultimately have "end_offset ?s = start_offset ?s + of_nat (length (buf ?s))"
    using assms by (simp add: inner_wf_def session_append_fields ac_simps)
  with session_append_bound [of s d] show ?thesis by (simp add: inner_wf_def session_append_fields)
qed

lemma ingest_wf: "inner_wf s \<Longrightarrow> inner_wf (ingest s chunks)"
proof (induction chunks arbitrary: s)
  case Nil
  then show ?case by (simp add: inner_wf_def)
next
  case (Cons b bs)
  then show ?case by (simp add: session_append_wf)
qed

lemma spawn_fields [session_simps]:
  "max_bytes (sess_inner (session_spawn i t f m)) = m"
  "buf (sess_inner (session_spawn i t f m)) = []"
  by (simp_all add: session_spawn_def)

subsection \<open>Properties\<close>

text \<open>
  C31 (type). However much the target outputs and in whatever chunks, even past the range of the 64-bit
  offsets, a session's scrollback stays well-formed: it never holds more than its \<open>max_bytes\<close> bytes, and
  its two offsets are apart by exactly the bytes it holds, modulo $2^{64}$.
\<close>

theorem scrollback_well_formed:
  "let s = ingest (sess_inner (session_spawn i t f m)) chunks
   in length (buf s) \<le> m \<and> end_offset s = start_offset s + of_nat (length (buf s)) \<and> max_bytes s = m"
  using ingest_wf [of "sess_inner (session_spawn i t f m)" chunks]
  by (simp add: inner_wf_def session_simps session_spawn_def Let_def)

text \<open>
  C20 (refinement). The buffer refines the abstract output history: after ingesting chunks whose
  total length is within the range of the offsets, the buffer is exactly the last \<open>m\<close> bytes of
  the concatenated output, its offsets are the true positions of its two ends in that output, and
  the session is closed.
\<close>

theorem ingest_refines_history:
  assumes "length (concat chunks) < 2 ^ 64"
  shows "let s = ingest (sess_inner (session_spawn i t f m)) chunks; log = concat chunks
    in buf s = drop (length log - m) log \<and> unat (start_offset s) = length log - m \<and>
       unat (end_offset s) = length log \<and> closed s"
  using ingest_rep [OF scroll_rep_spawn, of chunks i t f m] assms
  by (simp add: scroll_rep_def session_simps Let_def)

theorem ingest_refines_history_witness:
  "buf (ingest (sess_inner (session_spawn 7 [] None 4)) [[1, 2, 3], [4, 5], [6]]) = [3, 4, 5, 6]"
  using ingest_refines_history [of "[[1, 2, 3], [4, 5], [6]]" 7 "[]" None 4]
  by (simp add: Let_def)

text \<open>
  Resume replays: a fresh reader of a session that has ended first gets, in one
  chunk, everything the scrollback retains (the last \<open>m\<close> bytes of the output), and its next
  call reports the end of the session.
\<close>

lemma fresh_reader_replays:
  assumes "length (concat chunks) < 2 ^ 64" and "concat chunks \<noteq> []" and "0 < m"
  shows "let sess = session_spawn i t f m; s = ingest (sess_inner sess) chunks
    in \<exists>c. reader_poll s (session_reader sess) =
           (Chunk (drop (length (concat chunks) - m) (concat chunks)), c) \<and>
         reader_poll s c = (Ended, c)"
proof -
  define s where "s = ingest (sess_inner (session_spawn i t f m)) chunks"
  have rep: "scroll_rep s (concat chunks)"
    using ingest_rep [OF scroll_rep_spawn, of chunks i t f m] assms(1) by (simp add: s_def)
  have m: "max_bytes s = m" "closed s" by (simp_all add: s_def session_simps)
  have "0 < length (concat chunks)" using assms(2) by blast
  with scroll.poll_unread [OF rep, of 0] m assms(3) obtain c where
    c: "reader_poll s 0 = (Chunk (drop (length (concat chunks) - m) (concat chunks)), c)"
       "unat c = length (concat chunks)" by auto
  moreover have "reader_poll s c = (Ended, c)"
    using scroll.poll_read [OF rep c(2)] m by simp
  ultimately show ?thesis by (auto simp: session_reader_def Let_def s_def)
qed

text \<open>
  A reader that never has more than \<open>max_bytes\<close> bytes unread loses nothing:
  whatever the timing of output and reads, the chunks it was given are, concatenated, exactly the
  output from the start of the session up to its cursor.
\<close>

lemma attached_reader_lossless:
  assumes "keeps_up m 0 es" and "length (outputs es) < 2 ^ 64"
    and "out_run session_append reader_poll es (sess_inner (session_spawn i t f m)) 0 = (bs, s', c')"
  shows "concat bs = take (unat c') (outputs es)"
  using scroll.run_lossless [OF scroll_rep_spawn, of 0 es i t f m bs s' c'] assms
  by (simp add: session_simps)

text \<open>
  C22 (safety). Whatever the timing, even when a reader falls behind and output ages out, what it
  delivers is a subsequence of the session's output: in order, nothing twice, nothing made up; and
  the slice it takes of the buffer is never out of range.
\<close>

theorem reader_in_order_no_panic:
  assumes "length (outputs es) < 2 ^ 64"
    and "out_run session_append reader_poll es (sess_inner (session_spawn i t f m)) 0 = (bs, s', c')"
  shows "subseq (concat bs) (outputs es) \<and> fst (reader_poll s' c') \<noteq> Panic"
proof -
  let ?s = "sess_inner (session_spawn i t f m)"
  have "subseq (concat bs) (outputs es)"
    using scroll.run_subseq [OF scroll_rep_spawn, of 0 es i t f m] assms by simp
  moreover have "scroll_rep s' (outputs es)" "unat c' \<le> length (outputs es)"
    using scroll.run_rep [OF scroll_rep_spawn, of 0 es i t f m] assms by simp_all
  from reader_poll_rep [OF this] have "fst (reader_poll s' c') \<noteq> Panic" by simp
  ultimately show ?thesis by simp
qed

theorem reader_in_order_no_panic_witness:
  "subseq (concat [[1, 2], [5, 6 :: byte]]) [1, 2, 3, 4, 5, 6]"
proof -
  let ?es = "[Output [1, 2], Poll, Output [3, 4], Output [5, 6], Poll]"
  obtain bs s' c' where run: "out_run session_append reader_poll ?es (sess_inner (session_spawn 7 [] None 2)) 0
      = (bs, s', c')" by (metis prod_cases3)
  moreover have "bs = [[1, 2], [5, 6]]"
    using run by (simp add: session_spawn_def session_append_def reader_poll_def Let_def)
  ultimately show ?thesis
    using reader_in_order_no_panic [OF _ run] by simp
qed

end
