(* ===== verification/Core_Wakeup.thy ===== *)
theory Core_Wakeup
  imports Core_Session
begin

text \<open>
  The wait of \<open>SessionReader::next\<close> against the ingest task, \<open>gw-core/src/lib.rs\<close>. The two run
  concurrently and share the session lock and a tokio \<open>Notify\<close>; each step below is what one of
  them does between two points where the other can run. \<open>Notify\<close> is third-party, so its operations
  are parameters (\<open>notify_ops\<close>), and \<open>notify_ok\<close> is what its documentation promises: a future
  that was enabled is completed by the next \<open>notify_waiters\<close>, and a completed future stays so.

  The property: a reader never sleeps through output. Whenever a reader waits although its buffer
  has something for it, the wait ends and the reader delivers it.
\<close>

record ('n, 'f) notify_ops =
  notified :: "'n \<Rightarrow> 'f \<times> 'n"
  enable :: "'f \<Rightarrow> 'n \<Rightarrow> 'n"
  notify_waiters :: "'n \<Rightarrow> 'n"
  is_notified :: "'n \<Rightarrow> 'f \<Rightarrow> bool"

definition notify_ok :: "('n, 'f) notify_ops \<Rightarrow> ('n \<Rightarrow> 'f \<Rightarrow> bool) \<Rightarrow> bool" where
  "notify_ok N waits \<longleftrightarrow>
     (\<forall>n f. waits (enable N f n) f \<or> is_notified N (enable N f n) f) \<and>
     (\<forall>n f. waits n f \<longrightarrow> is_notified N (notify_waiters N n) f) \<and>
     (\<forall>n f. is_notified N n f \<longrightarrow> is_notified N (notify_waiters N n) f)"

datatype ingest_pc =
  I_Recv          \<comment> \<open>awaiting \<open>output.recv()\<close>\<close>
| I_Notify        \<comment> \<open>appended, before \<open>notify_waiters\<close>\<close>
| I_Notify_End    \<comment> \<open>marked closed, before the last \<open>notify_waiters\<close>\<close>
| I_Done

datatype 'f next_pc =
  N_Idle          \<comment> \<open>not inside \<open>next\<close>\<close>
| N_Top 'f        \<comment> \<open>head of the loop, holding a fresh \<open>Notified\<close> future\<close>
| N_Check 'f      \<comment> \<open>future enabled, before taking the lock\<close>
| N_Wait 'f       \<comment> \<open>nothing to deliver: awaiting the future\<close>
| N_Renew         \<comment> \<open>woken, before creating the next future\<close>

record ('n, 'f) wake_state =
  w_inner :: session_inner
  w_notify :: 'n
  w_ingest :: ingest_pc
  w_cursor :: cursor
  w_next :: "'f next_pc"
  w_results :: "poll list"

definition wake_init :: "('n, 'f) wake_state \<Rightarrow> bool" where
  "wake_init s \<longleftrightarrow> w_ingest s = I_Recv \<and> w_cursor s = 0 \<and> w_next s = N_Idle \<and> w_results s = []"

inductive wake_step ::
  "('n, 'f) notify_ops \<Rightarrow> ('n \<Rightarrow> 'f \<Rightarrow> bool) \<Rightarrow> ('n, 'f) wake_state \<Rightarrow> ('n, 'f) wake_state \<Rightarrow> bool"
  for N :: "('n, 'f) notify_ops" and waits :: "'n \<Rightarrow> 'f \<Rightarrow> bool" where
  recv_some: "w_ingest s = I_Recv \<Longrightarrow>
    wake_step N waits s (s\<lparr>w_inner := session_append (w_inner s) b, w_ingest := I_Notify\<rparr>)"
| notify_data: "w_ingest s = I_Notify \<Longrightarrow>
    wake_step N waits s (s\<lparr>w_notify := notify_waiters N (w_notify s), w_ingest := I_Recv\<rparr>)"
| recv_none: "w_ingest s = I_Recv \<Longrightarrow>
    wake_step N waits s (s\<lparr>w_inner := (w_inner s)\<lparr>closed := True\<rparr>, w_ingest := I_Notify_End\<rparr>)"
| notify_end: "w_ingest s = I_Notify_End \<Longrightarrow>
    wake_step N waits s (s\<lparr>w_notify := notify_waiters N (w_notify s), w_ingest := I_Done\<rparr>)"
| next_call: "w_next s = N_Idle \<Longrightarrow> notified N (w_notify s) = (f, n) \<Longrightarrow>
    wake_step N waits s (s\<lparr>w_notify := n, w_next := N_Top f\<rparr>)"
| next_enable: "w_next s = N_Top f \<Longrightarrow>
    wake_step N waits s (s\<lparr>w_notify := enable N f (w_notify s), w_next := N_Check f\<rparr>)"
| next_ready: "w_next s = N_Check f \<Longrightarrow> reader_poll (w_inner s) (w_cursor s) = (r, c) \<Longrightarrow> r \<noteq> Pending \<Longrightarrow>
    wake_step N waits s (s\<lparr>w_cursor := c, w_next := N_Idle, w_results := w_results s @ [r]\<rparr>)"
| next_pending: "w_next s = N_Check f \<Longrightarrow> reader_poll (w_inner s) (w_cursor s) = (Pending, c) \<Longrightarrow>
    wake_step N waits s (s\<lparr>w_cursor := c, w_next := N_Wait f\<rparr>)"
| next_woken: "w_next s = N_Wait f \<Longrightarrow> is_notified N (w_notify s) f \<Longrightarrow>
    wake_step N waits s (s\<lparr>w_next := N_Renew\<rparr>)"
| next_renew: "w_next s = N_Renew \<Longrightarrow> notified N (w_notify s) = (f, n) \<Longrightarrow>
    wake_step N waits s (s\<lparr>w_notify := n, w_next := N_Top f\<rparr>)"
| next_cancel: "w_next s = N_Wait f \<Longrightarrow>
    wake_step N waits s (s\<lparr>w_next := N_Idle\<rparr>)"
| other_reader: "(\<forall>f. waits (w_notify s) f \<longrightarrow> waits n f) \<Longrightarrow>
    (\<forall>f. is_notified N (w_notify s) f \<longrightarrow> is_notified N n f) \<Longrightarrow>
    wake_step N waits s (s\<lparr>w_notify := n\<rparr>)"

subsection \<open>The invariant\<close>

definition registered ::
  "('n, 'f) notify_ops \<Rightarrow> ('n \<Rightarrow> 'f \<Rightarrow> bool) \<Rightarrow> 'n \<Rightarrow> 'f \<Rightarrow> bool" where
  "registered N waits n f \<longleftrightarrow> waits n f \<or> is_notified N n f"

definition wake_inv ::
  "('n, 'f) notify_ops \<Rightarrow> ('n \<Rightarrow> 'f \<Rightarrow> bool) \<Rightarrow> ('n, 'f) wake_state \<Rightarrow> bool" where
  "wake_inv N waits s \<longleftrightarrow>
     (\<forall>f. w_next s = N_Check f \<longrightarrow> registered N waits (w_notify s) f) \<and>
     (\<forall>f. w_next s = N_Wait f \<longrightarrow> registered N waits (w_notify s) f \<and>
        (is_notified N (w_notify s) f \<or> w_ingest s \<in> {I_Notify, I_Notify_End} \<or>
         fst (reader_poll (w_inner s) (w_cursor s)) = Pending))"

lemma notify_registered:
  "notify_ok N waits \<Longrightarrow> registered N waits n f \<Longrightarrow> is_notified N (notify_waiters N n) f"
  by (auto simp: notify_ok_def registered_def)

lemma enable_registered: "notify_ok N waits \<Longrightarrow> registered N waits (enable N f n) f"
  by (auto simp: notify_ok_def registered_def)

lemma notified_registered: "is_notified N n f \<Longrightarrow> registered N waits n f"
  by (simp add: registered_def)

text \<open>A look that finds nothing leaves a cursor from which a second look finds nothing.\<close>

lemma reader_poll_pending_stable:
  "reader_poll s c = (Pending, c') \<Longrightarrow> reader_poll s c' = (Pending, c')"
  by (auto simp: reader_poll_def Let_def split: if_splits)

lemma wake_inv_init: "wake_init s \<Longrightarrow> wake_inv N waits s"
  by (simp add: wake_init_def wake_inv_def)

lemma wake_inv_step:
  assumes "notify_ok N waits" and "wake_inv N waits s" and "wake_step N waits s t"
  shows "wake_inv N waits t"
  using assms(3,2,1)
proof cases
  case (next_pending f c)
  with assms(2) show ?thesis
    by (auto simp: wake_inv_def reader_poll_pending_stable)
next
  case (other_reader n)
  with assms(2) show ?thesis
    unfolding wake_inv_def registered_def by simp blast
qed (auto simp: wake_inv_def notify_registered enable_registered notified_registered)

interpretation wake: invariant_system wake_init "wake_step N waits"
  "\<lambda>s. notify_ok N waits \<longrightarrow> wake_inv N waits s" for N waits
  by unfold_locales (blast intro: wake_inv_init wake_inv_step)+

subsection \<open>Progress of a waiting reader\<close>

lemma woken_reader_delivers:
  assumes "w_next s = N_Wait f" and "is_notified N (w_notify s) f"
    and "reader_poll (w_inner s) (w_cursor s) = (r, c)" and "r \<noteq> Pending"
  shows "\<exists>t. (wake_step N waits)\<^sup>*\<^sup>* s t \<and> w_results t = w_results s @ [r]"
proof -
  obtain g n where g: "notified N (w_notify s) = (g, n)" by (cases "notified N (w_notify s)")
  let ?a = "s\<lparr>w_next := N_Renew\<rparr>"
  let ?b = "?a\<lparr>w_notify := n, w_next := N_Top g\<rparr>"
  let ?c = "?b\<lparr>w_notify := enable N g (w_notify ?b), w_next := N_Check g\<rparr>"
  let ?d = "?c\<lparr>w_cursor := c, w_next := N_Idle, w_results := w_results ?c @ [r]\<rparr>"
  have "wake_step N waits s ?a" by (rule next_woken) (use assms in auto)
  moreover have "wake_step N waits ?a ?b" by (rule next_renew) (use g in auto)
  moreover have "wake_step N waits ?b ?c" by (rule next_enable) simp
  moreover have "wake_step N waits ?c ?d" by (rule next_ready) (use assms in auto)
  ultimately have "(wake_step N waits)\<^sup>*\<^sup>* s ?d"
    by (meson converse_rtranclp_into_rtranclp rtranclp.rtrancl_refl)
  then show ?thesis by (intro exI [of _ ?d]) simp
qed

lemma pending_notify_fires:
  assumes "notify_ok N waits" and "registered N waits (w_notify s) f"
    and "w_ingest s \<in> {I_Notify, I_Notify_End}"
  shows "\<exists>t. wake_step N waits s t \<and> is_notified N (w_notify t) f \<and> w_next t = w_next s \<and>
    w_inner t = w_inner s \<and> w_cursor t = w_cursor s \<and> w_results t = w_results s"
  using assms notify_registered [OF assms(1,2)] notify_data [of s N waits] notify_end [of s N waits]
  by fastforce

text \<open>
  A concrete \<open>Notify\<close>: a counter of futures, the set of enabled ones and the set of completed ones.
\<close>

definition set_notify :: "(nat \<times> nat set \<times> nat set, nat) notify_ops" where
  "set_notify = \<lparr>notified = (\<lambda>(k, w, d). (k, (Suc k, w, d))),
     enable = (\<lambda>f (k, w, d). (k, insert f w, d)),
     notify_waiters = (\<lambda>(k, w, d). (k, {}, d \<union> w)),
     is_notified = (\<lambda>(k, w, d) f. f \<in> d)\<rparr>"

definition set_waits :: "nat \<times> nat set \<times> nat set \<Rightarrow> nat \<Rightarrow> bool" where
  "set_waits n f \<longleftrightarrow> f \<in> fst (snd n)"

lemma set_notify_ok: "notify_ok set_notify set_waits"
  by (auto simp: notify_ok_def set_notify_def set_waits_def)

subsection \<open>Property\<close>

text \<open>
  C17 (liveness). No lost wakeup: in every reachable interleaving of the ingest task, the reader,
  its cancellation by \<open>select!\<close> and the other readers of the session, if the reader is waiting
  while a look at the buffer would find output or the end of the session, then it is never stuck:
  either its future is already complete or the ingest task is about to complete it, and from there
  the reader delivers exactly what the look finds.
\<close>

theorem waiting_reader_never_stuck:
  assumes "notify_ok N waits" and "reachable wake_init (wake_step N waits) s"
    and "w_next s = N_Wait f" and "fst (reader_poll (w_inner s) (w_cursor s)) \<noteq> Pending"
  shows "(is_notified N (w_notify s) f \<or> w_ingest s \<in> {I_Notify, I_Notify_End}) \<and>
    (\<exists>t. (wake_step N waits)\<^sup>*\<^sup>* s t \<and>
       w_results t = w_results s @ [fst (reader_poll (w_inner s) (w_cursor s))])"
proof -
  obtain r c where rc: "reader_poll (w_inner s) (w_cursor s) = (r, c)"
    by (cases "reader_poll (w_inner s) (w_cursor s)")
  from wake.reachable_inv [OF assms(2)] assms(1) have inv: "wake_inv N waits s" by blast
  with assms(3,4) have reg: "registered N waits (w_notify s) f"
    and wake: "is_notified N (w_notify s) f \<or> w_ingest s \<in> {I_Notify, I_Notify_End}"
    by (auto simp: wake_inv_def)
  have "\<exists>t. (wake_step N waits)\<^sup>*\<^sup>* s t \<and> w_results t = w_results s @ [r]"
  proof (cases "is_notified N (w_notify s) f")
    case True
    from woken_reader_delivers [OF assms(3) True rc] assms(4) rc show ?thesis by simp
  next
    case False
    with wake pending_notify_fires [OF assms(1) reg] obtain t where
      t: "wake_step N waits s t" "is_notified N (w_notify t) f" "w_next t = N_Wait f"
        "w_inner t = w_inner s" "w_cursor t = w_cursor s" "w_results t = w_results s"
      using assms(3) by auto
    with woken_reader_delivers [OF t(3,2), of r c waits] assms(4) rc show ?thesis
      by (auto intro: converse_rtranclp_into_rtranclp)
  qed
  with wake rc show ?thesis by simp
qed

definition wake_demo :: "(nat \<times> nat set \<times> nat set, nat) wake_state" where
  "wake_demo = \<lparr>w_inner = sess_inner (session_spawn 7 [] None 4), w_notify = (0, {}, {}),
     w_ingest = I_Recv, w_cursor = 0, w_next = N_Idle, w_results = []\<rparr>"

theorem waiting_reader_never_stuck_witness:
  "\<exists>s t. w_next s = N_Wait 0 \<and> w_ingest s = I_Notify \<and>
     (wake_step set_notify set_waits)\<^sup>*\<^sup>* s t \<and> w_results t = [Chunk [1, 2]]"
proof -
  let ?step = "wake_step set_notify set_waits"
  let ?a = "wake_demo\<lparr>w_notify := (1, {}, {}), w_next := N_Top 0\<rparr>"
  let ?b = "?a\<lparr>w_notify := enable set_notify 0 (w_notify ?a), w_next := N_Check 0\<rparr>"
  let ?c = "?b\<lparr>w_cursor := 0, w_next := N_Wait 0\<rparr>"
  let ?d = "?c\<lparr>w_inner := session_append (w_inner ?c) [1, 2], w_ingest := I_Notify\<rparr>"
  note defs = wake_demo_def session_spawn_def set_notify_def reader_poll_def
  have "reachable wake_init ?step wake_demo"
    by (rule reachable_init) (simp add: wake_init_def wake_demo_def)
  moreover have "?step wake_demo ?a" by (rule next_call) (simp_all add: defs)
  moreover have "?step ?a ?b" by (rule next_enable) simp
  moreover have "?step ?b ?c" by (rule next_pending) (simp_all add: defs)
  moreover have "?step ?c ?d" by (rule recv_some) (simp add: defs)
  ultimately have "reachable wake_init ?step ?d" by (meson reachable_step)
  moreover have "fst (reader_poll (w_inner ?d) (w_cursor ?d)) = Chunk [1, 2]"
    by (simp add: defs session_append_def Let_def)
  ultimately obtain t where "?step\<^sup>*\<^sup>* ?d t" "w_results t = w_results ?d @ [Chunk [1, 2]]"
    using waiting_reader_never_stuck [OF set_notify_ok, of ?d 0] by auto
  then show ?thesis by (intro exI [of _ ?d] exI [of _ t]) (simp add: wake_demo_def)
qed

end
