(* ===== verification/Core_Registry.thy ===== *)
theory Core_Registry
  imports Core_Session "HOL-Library.Finite_Map"
begin

text \<open>
  The session manager, \<open>gw-core/src/lib.rs\<close>: sessions registered by id and by resume token.

  A \<open>Session\<close> is shared (\<open>Arc\<close>) between the registry, the ingest task and the attached clients,
  and its scrollback is mutated through any of these handles. The gateway state therefore has an
  explicit store of session objects; an \<open>Arc\<close> is an address in it, and a removed session stays in
  the store. The two \<open>HashMap\<close>s of the registry are finite maps. The session id (a version 4 UUID)
  and the resume token (32 random bytes) come from third-party crates, so \<open>mgr_create\<close> takes the
  drawn values as arguments; where a property needs them to be new, that is a hypothesis
  (\<open>unused\<close>).
\<close>

type_synonym arc = nat

record registry =
  by_id :: "(session_id, arc) fmap"
  by_token :: "(bytes, session_id) fmap"

record session_manager =
  reg :: registry
  max_scrollback :: nat

record gateway =
  mgr :: session_manager
  store :: "session list"

definition with_scrollback :: "nat \<Rightarrow> session_manager" where
  "with_scrollback m = \<lparr>reg = \<lparr>by_id = fmempty, by_token = fmempty\<rparr>, max_scrollback = m\<rparr>"

definition mgr_new :: session_manager where
  "mgr_new = with_scrollback DEFAULT_SCROLLBACK_BYTES"

definition gateway_new :: "session_manager \<Rightarrow> gateway" where
  "gateway_new m = \<lparr>mgr = m, store = []\<rparr>"

definition mgr_create :: "session_id \<Rightarrow> bytes \<Rightarrow> string option \<Rightarrow> gateway \<Rightarrow> arc \<times> gateway" where
  "mgr_create sid token fp g =
     (let a = length (store g);
          s = session_spawn sid token fp (max_scrollback (mgr g));
          r = reg (mgr g)
      in (a, g\<lparr>store := store g @ [s],
               mgr := (mgr g)\<lparr>reg := \<lparr>by_id = fmupd sid a (by_id r), by_token = fmupd token sid (by_token r)\<rparr>\<rparr>\<rparr>))"

definition mgr_resume :: "bytes \<Rightarrow> gateway \<Rightarrow> arc option" where
  "mgr_resume token g =
     (case fmlookup (by_token (reg (mgr g))) token of
        None \<Rightarrow> None
      | Some sid \<Rightarrow> fmlookup (by_id (reg (mgr g))) sid)"

definition mgr_remove :: "session_id \<Rightarrow> gateway \<Rightarrow> gateway" where
  "mgr_remove sid g =
     (let r = reg (mgr g)
      in case fmlookup (by_id r) sid of
           None \<Rightarrow> g
         | Some a \<Rightarrow> g\<lparr>mgr := (mgr g)\<lparr>reg :=
             \<lparr>by_id = fmdrop sid (by_id r), by_token = fmdrop (sess_token (store g ! a)) (by_token r)\<rparr>\<rparr>\<rparr>)"

definition mgr_len :: "gateway \<Rightarrow> nat" where
  "mgr_len g = fcard (fmdom (by_id (reg (mgr g))))"

definition mgr_is_empty :: "gateway \<Rightarrow> bool" where
  "mgr_is_empty g = (mgr_len g = 0)"

text \<open>The ingest task and the readers reach a session's scrollback through its address.\<close>

definition session_at :: "gateway \<Rightarrow> arc \<Rightarrow> session" where
  "session_at g a = store g ! a"

definition update_inner :: "arc \<Rightarrow> (session_inner \<Rightarrow> session_inner) \<Rightarrow> gateway \<Rightarrow> gateway" where
  "update_inner a f g =
     g\<lparr>store := (store g)[a := (store g ! a)\<lparr>sess_inner := f (sess_inner (store g ! a))\<rparr>]\<rparr>"

subsection \<open>The interface of a session registry\<close>

text \<open>
  The abstract registry is the set of live sessions: id, resume token and object. Histories of a
  registry are sequences of operations, in which output keeps arriving in the sessions' buffers.
\<close>

type_synonym live_session = "session_id \<times> bytes \<times> arc"

datatype reg_op =
  Create session_id bytes "string option"
| Remove session_id
| Ingest arc bytes

definition op_unused :: "live_session set \<Rightarrow> reg_op \<Rightarrow> bool" where
  "op_unused l opn \<longleftrightarrow>
     (case opn of Create sid token fp \<Rightarrow> \<forall>(i, t, a) \<in> l. i \<noteq> sid \<and> t \<noteq> token | _ \<Rightarrow> True)"

fun history :: "('g \<Rightarrow> live_session set) \<Rightarrow> (reg_op \<Rightarrow> 'g \<Rightarrow> 'g) \<Rightarrow> reg_op list \<Rightarrow> 'g \<Rightarrow> bool" where
  "history live run [] g = True"
| "history live run (opn # ops) g = (op_unused (live g) opn \<and> history live run ops (run opn g))"

locale session_registry =
  fixes live :: "'g \<Rightarrow> live_session set"
    and inv :: "'g \<Rightarrow> bool"
    and run :: "reg_op \<Rightarrow> 'g \<Rightarrow> 'g"
    and lookup :: "bytes \<Rightarrow> 'g \<Rightarrow> arc option"
    and next_arc :: "'g \<Rightarrow> arc"
  assumes run_inv: "inv g \<Longrightarrow> op_unused (live g) opn \<Longrightarrow> inv (run opn g)"
    and create_live: "inv g \<Longrightarrow> op_unused (live g) (Create sid token fp) \<Longrightarrow>
      live (run (Create sid token fp) g) = insert (sid, token, next_arc g) (live g)"
    and remove_live: "inv g \<Longrightarrow> live (run (Remove sid) g) = {l \<in> live g. fst l \<noteq> sid}"
    and ingest_live: "inv g \<Longrightarrow> live (run (Ingest a d) g) = live g"
    and lookup_live: "inv g \<Longrightarrow> lookup token g = Some a \<longleftrightarrow> (\<exists>i. (i, token, a) \<in> live g)"
    and token_owner: "inv g \<Longrightarrow> (i, t, a) \<in> live g \<Longrightarrow> (j, t, b) \<in> live g \<Longrightarrow> i = j"
begin

lemmas op_live = create_live remove_live ingest_live

lemma op_keeps_live:
  "inv g \<Longrightarrow> op_unused (live g) opn \<Longrightarrow> (i, t, a) \<in> live g \<Longrightarrow> opn \<noteq> Remove i \<Longrightarrow>
     (i, t, a) \<in> live (run opn g)"
  by (cases opn) (auto simp: op_live)

lemma lookup_None: "inv g \<Longrightarrow> lookup t g = None \<longleftrightarrow> (\<forall>i a. (i, t, a) \<notin> live g)"
  using lookup_live [of g t] by (metis not_None_eq)

lemma op_no_new_token:
  assumes "inv g" "op_unused (live g) opn" "\<forall>sid fp. opn \<noteq> Create sid t fp" "lookup t g = None"
  shows "lookup t (run opn g) = None"
  using assms run_inv [OF assms(1,2)] by (cases opn) (auto simp: op_live lookup_None)

lemma history_inv: "inv g \<Longrightarrow> history live run ops g \<Longrightarrow> inv (fold run ops g)"
  by (induction ops arbitrary: g) (auto intro: run_inv)

lemma history_keeps:
  "inv g \<Longrightarrow> history live run ops g \<Longrightarrow> (i, t, a) \<in> live g \<Longrightarrow> Remove i \<notin> set ops \<Longrightarrow>
     (i, t, a) \<in> live (fold run ops g)"
  by (induction ops arbitrary: g) (auto intro: run_inv op_keeps_live)

lemma history_no_new_token:
  "inv g \<Longrightarrow> history live run ops g \<Longrightarrow> lookup t g = None \<Longrightarrow>
     \<forall>sid fp. Create sid t fp \<notin> set ops \<Longrightarrow> lookup t (fold run ops g) = None"
proof (induction ops arbitrary: g)
  case Nil
  then show ?case by simp
next
  case (Cons opn ops)
  then show ?case by (auto intro!: Cons.IH run_inv op_no_new_token)
qed

lemma removed_token_dead:
  assumes "inv g" and "(i, t, a) \<in> live g"
  shows "lookup t (run (Remove i) g) = None"
proof -
  have "inv (run (Remove i) g)" using assms(1) by (rule run_inv) (simp add: op_unused_def)
  moreover have "(j, t, b) \<notin> live (run (Remove i) g)" for j b
    using token_owner [OF assms, of j b] by (auto simp: remove_live [OF assms(1)])
  ultimately show ?thesis by (simp add: lookup_None)
qed

lemma token_lifetime:
  assumes "inv g" and "op_unused (live g) (Create sid t fp)"
    and "history live run ops (run (Create sid t fp) g)"
  shows "Remove sid \<notin> set ops \<Longrightarrow> lookup t (fold run ops (run (Create sid t fp) g)) = Some (next_arc g)"
    and "ops = xs @ Remove sid # ys \<Longrightarrow> Remove sid \<notin> set xs \<Longrightarrow> \<forall>i f. Create i t f \<notin> set ys \<Longrightarrow>
      lookup t (fold run ops (run (Create sid t fp) g)) = None"
proof -
  let ?g = "run (Create sid t fp) g"
  have inv: "inv ?g" using assms by (blast intro: run_inv)
  have l: "(sid, t, next_arc g) \<in> live ?g" using assms by (simp add: create_live)
  show "lookup t (fold run ops ?g) = Some (next_arc g)" if "Remove sid \<notin> set ops"
    using history_keeps [OF inv assms(3) l that] history_inv [OF inv assms(3)] by (auto simp: lookup_live)
  have split: "history live run (xs @ ys) h \<longleftrightarrow> history live run xs h \<and> history live run ys (fold run xs h)"
    for xs ys h by (induction xs arbitrary: h) auto
  assume ops: "ops = xs @ Remove sid # ys" and xs: "Remove sid \<notin> set xs" and ys: "\<forall>i f. Create i t f \<notin> set ys"
  let ?h = "fold run xs ?g"
  have h: "history live run xs ?g" "history live run ys (run (Remove sid) ?h)"
    using assms(3) ops by (simp_all add: split)
  have "inv ?h" "(sid, t, next_arc g) \<in> live ?h"
    using history_inv [OF inv h(1)] history_keeps [OF inv h(1) l xs] by auto
  then have "lookup t (run (Remove sid) ?h) = None" "inv (run (Remove sid) ?h)"
    by (auto intro: removed_token_dead run_inv simp: op_unused_def)
  with history_no_new_token [OF _ h(2)] ys ops show "lookup t (fold run ops ?g) = None" by simp
qed

end

subsection \<open>The session manager implements the interface\<close>

definition live_sessions :: "gateway \<Rightarrow> live_session set" where
  "live_sessions g =
     {(i, t, a). fmlookup (by_id (reg (mgr g))) i = Some a \<and> t = sess_token (store g ! a)}"

definition run_op :: "reg_op \<Rightarrow> gateway \<Rightarrow> gateway" where
  "run_op opn g =
     (case opn of
        Create sid token fp \<Rightarrow> snd (mgr_create sid token fp g)
      | Remove sid \<Rightarrow> mgr_remove sid g
      | Ingest a d \<Rightarrow> update_inner a (\<lambda>s. session_append s d) g)"

text \<open>
  The two maps agree: every registered object is in the store, carries the id it is registered
  under, and its token leads back to that id; every registered token belongs to a registered session.
\<close>

abbreviation ids :: "gateway \<Rightarrow> session_id \<Rightarrow> arc option" where
  "ids g \<equiv> fmlookup (by_id (reg (mgr g)))"

abbreviation tokens :: "gateway \<Rightarrow> bytes \<Rightarrow> session_id option" where
  "tokens g \<equiv> fmlookup (by_token (reg (mgr g)))"

definition registry_ok :: "gateway \<Rightarrow> bool" where
  "registry_ok g \<longleftrightarrow>
     (\<forall>i a. ids g i = Some a \<longrightarrow>
        a < length (store g) \<and> sess_id (store g ! a) = i \<and> tokens g (sess_token (store g ! a)) = Some i) \<and>
     (\<forall>t i. tokens g t = Some i \<longrightarrow> (\<exists>a. ids g i = Some a \<and> sess_token (store g ! a) = t))"

lemma registry_okI:
  assumes "\<And>i a. ids g i = Some a \<Longrightarrow>
      a < length (store g) \<and> sess_id (store g ! a) = i \<and> tokens g (sess_token (store g ! a)) = Some i"
    and "\<And>t i. tokens g t = Some i \<Longrightarrow> \<exists>a. ids g i = Some a \<and> sess_token (store g ! a) = t"
  shows "registry_ok g"
  using assms unfolding registry_ok_def by blast

lemma registry_ok_id:
  assumes "registry_ok g" and "ids g i = Some a"
  shows "a < length (store g)" and "sess_id (store g ! a) = i" and "tokens g (sess_token (store g ! a)) = Some i"
  using assms unfolding registry_ok_def by blast+

lemma registry_ok_token:
  assumes "registry_ok g" and "tokens g t = Some i"
  obtains a where "ids g i = Some a" and "sess_token (store g ! a) = t"
  using assms unfolding registry_ok_def by blast

named_theorems registry_simps

lemma mgr_create_fields [registry_simps]:
  "fst (mgr_create sid t fp g) = length (store g)"
  "store (snd (mgr_create sid t fp g)) = store g @ [session_spawn sid t fp (max_scrollback (mgr g))]"
  "ids (snd (mgr_create sid t fp g)) = (ids g)(sid \<mapsto> length (store g))"
  "tokens (snd (mgr_create sid t fp g)) = (tokens g)(t \<mapsto> sid)"
  by (auto simp: mgr_create_def Let_def)

lemma spawn_ids [registry_simps]:
  "sess_id (session_spawn i t f m) = i" "sess_token (session_spawn i t f m) = t"
  by (simp_all add: session_spawn_def)

lemma mgr_remove_fields [registry_simps]:
  "store (mgr_remove sid g) = store g"
  "ids (mgr_remove sid g) = (ids g)(sid := None)"
  by (auto simp: mgr_remove_def Let_def split: option.splits)

lemma mgr_remove_token:
  "ids g sid = Some a \<Longrightarrow> tokens (mgr_remove sid g) = (tokens g)(sess_token (store g ! a) := None)"
  "ids g sid = None \<Longrightarrow> mgr_remove sid g = g"
  by (auto simp: mgr_remove_def Let_def)

lemma update_inner_nth:
  "store (update_inner a f g) ! b =
     (if b = a \<and> a < length (store g) then (store g ! a)\<lparr>sess_inner := f (sess_inner (store g ! a))\<rparr>
      else store g ! b)"
  by (cases "a < length (store g)") (auto simp: update_inner_def list_update_beyond not_less)

lemma update_inner_fields [registry_simps]:
  "mgr (update_inner a f g) = mgr g" "length (store (update_inner a f g)) = length (store g)"
  by (simp_all add: update_inner_def)

lemma update_inner_ids [registry_simps]:
  "sess_id (store (update_inner a f g) ! b) = sess_id (store g ! b)"
  "sess_token (store (update_inner a f g) ! b) = sess_token (store g ! b)"
  by (simp_all add: update_inner_nth)

lemma live_sessions_iff:
  "(i, t, a) \<in> live_sessions g \<longleftrightarrow> ids g i = Some a \<and> t = sess_token (store g ! a)"
  by (simp add: live_sessions_def)

lemma unused_iff:
  "op_unused (live_sessions g) (Create sid t fp) \<longleftrightarrow>
     ids g sid = None \<and> (\<forall>i a. ids g i = Some a \<longrightarrow> sess_token (store g ! a) \<noteq> t)"
  by (cases "ids g sid") (auto simp: op_unused_def live_sessions_def)

lemma registry_ok_new: "registry_ok (gateway_new (with_scrollback m))"
  by (simp add: registry_ok_def gateway_new_def with_scrollback_def)

lemma registry_ok_create:
  assumes ok: "registry_ok g" and new: "op_unused (live_sessions g) (Create sid t fp)"
  shows "registry_ok (snd (mgr_create sid t fp g))"
proof (rule registry_okI)
  from new have none: "ids g sid = None" and fresh: "\<And>i a. ids g i = Some a \<Longrightarrow> sess_token (store g ! a) \<noteq> t"
    by (auto simp: unused_iff)
  fix i a u
  let ?g = "snd (mgr_create sid t fp g)"
  show "a < length (store ?g) \<and> sess_id (store ?g ! a) = i \<and> tokens ?g (sess_token (store ?g ! a)) = Some i"
    if "ids ?g i = Some a"
    using that fresh [of i a] registry_ok_id [OF ok, of i a]
    by (auto simp: registry_simps nth_append split: if_splits)
  show "\<exists>a. ids ?g i = Some a \<and> sess_token (store ?g ! a) = u" if "tokens ?g u = Some i"
  proof (cases "u = t")
    case True
    with that show ?thesis by (simp add: registry_simps)
  next
    case False
    with that have "tokens g u = Some i" by (simp add: registry_simps)
    from registry_ok_token [OF ok this] obtain b where b: "ids g i = Some b" "sess_token (store g ! b) = u" .
    with none registry_ok_id(1) [OF ok b(1)] show ?thesis
      by (auto simp: registry_simps nth_append)
  qed
qed

lemma registry_ok_remove:
  assumes ok: "registry_ok g"
  shows "registry_ok (mgr_remove sid g)"
proof (cases "ids g sid")
  case (Some b)
  show ?thesis
  proof (rule registry_okI)
    fix i a u
    show "a < length (store (mgr_remove sid g)) \<and> sess_id (store (mgr_remove sid g) ! a) = i \<and>
        tokens (mgr_remove sid g) (sess_token (store (mgr_remove sid g) ! a)) = Some i"
      if "ids (mgr_remove sid g) i = Some a"
      using that registry_ok_id [OF ok, of i a] registry_ok_id(3) [OF ok Some]
      by (auto simp: registry_simps mgr_remove_token(1) [OF Some] split: if_splits)
    show "\<exists>a. ids (mgr_remove sid g) i = Some a \<and> sess_token (store (mgr_remove sid g) ! a) = u"
      if "tokens (mgr_remove sid g) u = Some i"
    proof -
      from that have u: "u \<noteq> sess_token (store g ! b)" "tokens g u = Some i"
        by (auto simp: mgr_remove_token(1) [OF Some] split: if_splits)
      from registry_ok_token [OF ok u(2)] obtain a where "ids g i = Some a" "sess_token (store g ! a) = u" .
      with u(1) Some show ?thesis by (auto simp: registry_simps)
    qed
  qed
qed (simp add: mgr_remove_token(2) ok)

lemma registry_ok_update_inner: "registry_ok (update_inner a f g) = registry_ok g"
  by (simp add: registry_ok_def registry_simps)

lemma mgr_resume_live:
  assumes ok: "registry_ok g"
  shows "mgr_resume t g = Some a \<longleftrightarrow> (\<exists>i. (i, t, a) \<in> live_sessions g)"
proof
  assume "mgr_resume t g = Some a"
  then obtain i where i: "tokens g t = Some i" "ids g i = Some a"
    by (auto simp: mgr_resume_def split: option.splits)
  from registry_ok_token [OF ok i(1)] i show "\<exists>i. (i, t, a) \<in> live_sessions g"
    by (auto simp: live_sessions_iff)
next
  assume "\<exists>i. (i, t, a) \<in> live_sessions g"
  then show "mgr_resume t g = Some a"
    using registry_ok_id(3) [OF ok] by (auto simp: mgr_resume_def live_sessions_iff)
qed

lemma live_sessions_create:
  assumes ok: "registry_ok g" and new: "op_unused (live_sessions g) (Create sid t fp)"
  shows "live_sessions (snd (mgr_create sid t fp g)) = insert (sid, t, length (store g)) (live_sessions g)"
proof -
  have "(i, u, a) \<in> live_sessions (snd (mgr_create sid t fp g)) \<longleftrightarrow>
      (i, u, a) \<in> insert (sid, t, length (store g)) (live_sessions g)" for i u a
    using new registry_ok_id(1) [OF ok, of i a]
    by (auto simp: live_sessions_iff registry_simps unused_iff nth_append)
  then show ?thesis by auto
qed

interpretation manager: session_registry live_sessions registry_ok run_op mgr_resume "\<lambda>g. length (store g)"
proof unfold_locales
  fix g opn sid token fp a d i j b t
  assume ok: "registry_ok g"
  show "registry_ok (run_op opn g)" if "op_unused (live_sessions g) opn"
    using ok that by (cases opn)
      (simp_all add: run_op_def registry_ok_create registry_ok_remove registry_ok_update_inner)
  show "live_sessions (run_op (Create sid token fp) g) = insert (sid, token, length (store g)) (live_sessions g)"
    if "op_unused (live_sessions g) (Create sid token fp)"
    using ok that by (simp add: run_op_def live_sessions_create)
  show "live_sessions (run_op (Remove sid) g) = {l \<in> live_sessions g. fst l \<noteq> sid}"
    by (auto simp: run_op_def live_sessions_def registry_simps split: if_splits)
  show "live_sessions (run_op (Ingest a d) g) = live_sessions g"
    by (simp add: run_op_def live_sessions_def registry_simps)
  show "mgr_resume token g = Some a \<longleftrightarrow> (\<exists>i. (i, token, a) \<in> live_sessions g)"
    by (rule mgr_resume_live [OF ok])
  show "i = j" if "(i, t, a) \<in> live_sessions g" "(j, t, b) \<in> live_sessions g"
    using registry_ok_id(3) [OF ok, of i a] registry_ok_id(3) [OF ok, of j b] that
    by (auto simp: live_sessions_iff)
qed

subsection \<open>A session's scrollback across a history\<close>

fun ingested :: "arc \<Rightarrow> reg_op list \<Rightarrow> bytes" where
  "ingested a [] = []"
| "ingested a (Ingest b d # ops) = (if b = a then d @ ingested a ops else ingested a ops)"
| "ingested a (_ # ops) = ingested a ops"

lemma run_op_store:
  "a < length (store g) \<Longrightarrow> a < length (store (run_op opn g))"
  "a < length (store g) \<Longrightarrow> sess_inner (store (run_op opn g) ! a) =
     (case opn of Ingest b d \<Rightarrow> if b = a then session_append (sess_inner (store g ! a)) d else sess_inner (store g ! a)
      | _ \<Rightarrow> sess_inner (store g ! a))"
  by (cases opn; simp add: run_op_def registry_simps nth_append update_inner_nth)+

lemma history_scrollback:
  "a < length (store g) \<Longrightarrow> scroll_rep (sess_inner (store g ! a)) log \<Longrightarrow>
     length log + length (ingested a ops) < 2 ^ 64 \<Longrightarrow>
     scroll_rep (sess_inner (store (fold run_op ops g) ! a)) (log @ ingested a ops) \<and>
     max_bytes (sess_inner (store (fold run_op ops g) ! a)) = max_bytes (sess_inner (store g ! a)) \<and>
     closed (sess_inner (store (fold run_op ops g) ! a)) = closed (sess_inner (store g ! a))"
proof (induction ops arbitrary: g log)
  case Nil
  then show ?case by simp
next
  case (Cons opn ops)
  note a = run_op_store [OF Cons.prems(1), of opn]
  show ?case
  proof (cases "\<exists>d. opn = Ingest a d")
    case True
    then obtain d where opn: "opn = Ingest a d" by blast
    with Cons.prems a have "scroll_rep (sess_inner (store (run_op opn g) ! a)) (log @ d)"
      by (simp add: scroll_rep_append)
    from Cons.IH [OF a(1) this] Cons.prems opn a(2) show ?thesis by (simp add: session_simps)
  next
    case False
    then have "sess_inner (store (run_op opn g) ! a) = sess_inner (store g ! a)"
      "ingested a (opn # ops) = ingested a ops"
      using a(2) by (cases opn; simp split: if_splits)+
    with Cons.IH [OF a(1), of log] Cons.prems show ?thesis by simp
  qed
qed

lemma spawn_closed [session_simps]: "\<not> closed (sess_inner (session_spawn i t f m))"
  by (simp add: session_spawn_def)

lemma registry_counts:
  assumes ok: "registry_ok g"
  shows "card (live_sessions g) = mgr_len g" and "card (fmdom' (by_token (reg (mgr g)))) = mgr_len g"
proof -
  have "inj_on fst (live_sessions g)" by (auto simp: inj_on_def live_sessions_def)
  moreover have "fst ` live_sessions g = fmdom' (by_id (reg (mgr g)))"
    by (force simp: live_sessions_def image_iff fmlookup_dom'_iff)
  ultimately show live: "card (live_sessions g) = mgr_len g"
    using card_image [of fst "live_sessions g"] by (simp add: mgr_len_def fcard.rep_eq fmdom'_alt_def)
  let ?tok = "\<lambda>l :: live_session. fst (snd l)"
  have "inj_on ?tok (live_sessions g)"
  proof (rule inj_onI, clarsimp simp: live_sessions_iff)
    fix i j a b assume "ids g i = Some a" "ids g j = Some b" "sess_token (store g ! a) = sess_token (store g ! b)"
    with registry_ok_id(3) [OF ok, of i a] registry_ok_id(3) [OF ok, of j b]
    show "i = j \<and> a = b" by auto
  qed
  moreover have "?tok ` live_sessions g = fmdom' (by_token (reg (mgr g)))"
  proof
    show "?tok ` live_sessions g \<subseteq> fmdom' (by_token (reg (mgr g)))"
      using registry_ok_id(3) [OF ok] by (auto simp: live_sessions_def fmlookup_dom'_iff)
    show "fmdom' (by_token (reg (mgr g))) \<subseteq> ?tok ` live_sessions g"
    proof
      fix t assume "t \<in> fmdom' (by_token (reg (mgr g)))"
      then obtain i where "tokens g t = Some i" by (auto simp: fmlookup_dom'_iff)
      from registry_ok_token [OF ok this] obtain a where "(i, t, a) \<in> live_sessions g"
        by (auto simp: live_sessions_iff)
      then show "t \<in> ?tok ` live_sessions g" by force
    qed
  qed
  ultimately show "card (fmdom' (by_token (reg (mgr g)))) = mgr_len g"
    using card_image [of ?tok "live_sessions g"] live by simp
qed

text \<open>
  Nothing of a session's end reaches the registry: a session whose output has ended stays registered
  under its token until a connection handler removes it.
\<close>

lemma ended_session_stays_registered:
  "mgr_resume t (update_inner a (\<lambda>s. ingest s chunks) g) = mgr_resume t g \<and>
   live_sessions (update_inner a (\<lambda>s. ingest s chunks) g) = live_sessions g"
  by (simp add: mgr_resume_def live_sessions_def registry_simps cong: option.case_cong)

subsection \<open>Properties\<close>

text \<open>
  C14 (functional). Keep-alive: after a session is created, whatever other sessions come and go and
  whether or not a client is attached, as long as the session itself is not removed its token
  resumes this very session, and a fresh reader's first look replays the last
  \<open>max_scrollback\<close> bytes of everything the target has output since (or waits, if nothing is
  retained).
\<close>

theorem keep_alive_resume:
  assumes "registry_ok g" and "op_unused (live_sessions g) (Create sid t fp)"
    and "history live_sessions run_op ops (run_op (Create sid t fp) g)"
    and "Remove sid \<notin> set ops" and "length (ingested (length (store g)) ops) < 2 ^ 64"
  shows "let a = length (store g); g' = fold run_op ops (run_op (Create sid t fp) g);
             out = ingested a ops; m = max_scrollback (mgr g)
         in mgr_resume t g' = Some a \<and>
            fst (reader_poll (sess_inner (session_at g' a)) (session_reader (session_at g' a))) =
              (if out = [] \<or> m = 0 then Pending else Chunk (drop (length out - m) out))"
proof -
  let ?a = "length (store g)" and ?g1 = "run_op (Create sid t fp) g"
  let ?g' = "fold run_op ops ?g1" and ?out = "ingested (length (store g)) ops"
  let ?s = "sess_inner (session_at ?g' ?a)" and ?m = "max_scrollback (mgr g)"
  have s0: "store ?g1 ! ?a = session_spawn sid t fp ?m" "?a < length (store ?g1)"
    by (simp_all add: run_op_def registry_simps)
  have "scroll_rep (sess_inner (store ?g1 ! ?a)) []" by (simp add: s0 scroll_rep_spawn)
  from history_scrollback [OF s0(2) this, of ops] assms(5)
  have rep: "scroll_rep ?s ?out" "max_bytes ?s = ?m" "\<not> closed ?s"
    by (simp_all add: session_at_def s0(1) session_simps)
  have "mgr_resume t ?g' = Some ?a"
    by (rule manager.token_lifetime(1) [OF assms(1-4)])
  moreover have "fst (reader_poll ?s 0) =
      (if ?out = [] \<or> ?m = 0 then Pending else Chunk (drop (length ?out - ?m) ?out))"
    using reader_poll_rep [OF rep(1), of 0] rep(2,3) by auto
  ultimately show ?thesis by (simp add: Let_def session_reader_def)
qed

definition demo_gateway :: gateway where
  "demo_gateway = gateway_new (with_scrollback 3)"

lemmas demo_simps = demo_gateway_def gateway_new_def with_scrollback_def run_op_def registry_simps
  op_unused_def live_sessions_def nth_append

lemma demo_registry_ok: "registry_ok demo_gateway"
  by (simp add: demo_gateway_def registry_ok_new)

lemma demo_history:
  "op_unused (live_sessions demo_gateway) (Create 7 [9] None)"
  "history live_sessions run_op [Ingest 0 [1, 2], Create 8 [5] None, Ingest 1 [6], Ingest 0 [3, 4], Remove 8]
     (run_op (Create 7 [9] None) demo_gateway)"
  by (auto simp: demo_simps split: if_splits)

theorem keep_alive_resume_witness:
  "let g' = fold run_op [Ingest 0 [1, 2], Create 8 [5] None, Ingest 1 [6], Ingest 0 [3, 4], Remove 8]
              (run_op (Create 7 [9] None) demo_gateway)
   in mgr_resume [9] g' = Some 0 \<and>
      fst (reader_poll (sess_inner (session_at g' 0)) (session_reader (session_at g' 0))) = Chunk [2, 3, 4]"
  using keep_alive_resume [OF demo_registry_ok demo_history]
  by (simp add: demo_gateway_def gateway_new_def with_scrollback_def Let_def)

text \<open>
  C15 (safety). A resume token dies with its session and stays dead: after the session is removed
  the token resumes nothing, in any later history in which no new session draws the same token.
\<close>

theorem removed_token_never_resumes:
  assumes "registry_ok g" and "op_unused (live_sessions g) (Create sid t fp)"
    and "history live_sessions run_op (xs @ Remove sid # ys) (run_op (Create sid t fp) g)"
    and "Remove sid \<notin> set xs" and "\<forall>i f. Create i t f \<notin> set ys"
  shows "mgr_resume t (fold run_op (xs @ Remove sid # ys) (run_op (Create sid t fp) g)) = None"
  by (rule manager.token_lifetime(2) [OF assms(1-3) refl assms(4,5)])

theorem removed_token_never_resumes_witness:
  "mgr_resume [9] (fold run_op ([Ingest 0 [1, 2]] @ Remove 7 # [Create 8 [5] None])
     (run_op (Create 7 [9] None) demo_gateway)) = None"
  by (rule removed_token_never_resumes [OF demo_registry_ok demo_history(1)])
    (auto simp: demo_simps split: if_splits)

text \<open>
  C16 (invariant). From an empty gateway, every history of creations (with unused ids and tokens),
  removals and output keeps the two maps of the registry consistent: every registered id leads to an
  object that carries it, tokens and sessions correspond one to one, and \<open>len\<close> counts both.
\<close>

theorem registry_consistent:
  assumes "history live_sessions run_op ops (gateway_new (with_scrollback m))"
  shows "let g = fold run_op ops (gateway_new (with_scrollback m))
    in registry_ok g \<and> card (fmdom' (by_token (reg (mgr g)))) = mgr_len g \<and> card (live_sessions g) = mgr_len g"
  using manager.history_inv [OF registry_ok_new assms] by (simp add: registry_counts Let_def)

theorem registry_consistent_witness:
  "registry_ok (fold run_op [Create 7 [9] None, Create 8 [5] None, Remove 7] (gateway_new (with_scrollback 3)))"
proof -
  have "history live_sessions run_op [Create 7 [9] None, Create 8 [5] None, Remove 7] (gateway_new (with_scrollback 3))"
    by (auto simp: demo_simps split: if_splits)
  from registry_consistent [OF this] show ?thesis by (simp add: Let_def)
qed

end
