(* ===== verification/Core_Quota.thy ===== *)
theory Core_Quota
  imports Core_F64
begin

text \<open>
  Quota primitives, \<open>gw-core/src/quota.rs\<close>: entitlements, the authorization hook with its default
  methods and the \<open>AllowAll\<close> hook, the token bucket and the usage meter.

  A hook is a record of its methods over the state of the control plane. The token bucket computes
  in double precision (\<open>Core_F64\<close>), rounding included; \<open>bucket_ok\<close> is its invariant, and the
  interface \<open>rate_limiter\<close> is what the data plane (the \<open>throttle\<close> loop of the handler) relies on.
\<close>

subsection \<open>Entitlements and hooks\<close>

record entitlement =
  max_bytes_per_sec :: "u64 option"
  max_sessions :: "u32 option"

definition unlimited :: entitlement where
  "unlimited = \<lparr>max_bytes_per_sec = None, max_sessions = None\<rparr>"

datatype denied = Denied string

primrec denied_display :: "denied \<Rightarrow> string" where
  "denied_display (Denied reason) = ''authorization denied: '' @ reason"

record 's auth_hook =
  hook_authorize :: "string \<Rightarrow> bytes option \<Rightarrow> ('s, denied, entitlement) io"
  hook_session_open :: "bytes option \<Rightarrow> string \<Rightarrow> string \<Rightarrow> ('s, denied, unit) io"
  hook_session_close :: "bytes option \<Rightarrow> string \<Rightarrow> 's \<Rightarrow> 's"
  hook_report_usage :: "bytes option \<Rightarrow> string \<Rightarrow> u64 \<Rightarrow> u64 \<Rightarrow> 's \<Rightarrow> 's"

definition default_hook :: "(string \<Rightarrow> bytes option \<Rightarrow> ('s, denied, entitlement) io) \<Rightarrow> 's auth_hook" where
  "default_hook authorize =
     \<lparr>hook_authorize = authorize,
      hook_session_open = (\<lambda>_ _ _. io_return ()),
      hook_session_close = (\<lambda>_ _ s. s),
      hook_report_usage = (\<lambda>_ _ _ _ s. s)\<rparr>"

definition allow_all :: "'s auth_hook" where
  "allow_all = default_hook (\<lambda>_ _. io_return unlimited)"

subsection \<open>The token bucket\<close>

record token_bucket =
  tb_capacity :: real
  tb_tokens :: real
  tb_rate :: real

definition tb_new :: "u64 \<Rightarrow> u64 \<Rightarrow> token_bucket" where
  "tb_new rate_per_sec burst =
     (let capacity = f64_of_u64 (max burst 1)
      in \<lparr>tb_capacity = capacity, tb_tokens = capacity, tb_rate = f64_of_u64 (max rate_per_sec 1)\<rparr>)"

definition tb_refill :: "duration \<Rightarrow> token_bucket \<Rightarrow> token_bucket" where
  "tb_refill elapsed b =
     b\<lparr>tb_tokens := min (f64_add (tb_tokens b) (f64_mul (as_secs_f64 elapsed) (tb_rate b))) (tb_capacity b)\<rparr>"

definition tb_try_consume :: "u64 \<Rightarrow> token_bucket \<Rightarrow> bool \<times> token_bucket" where
  "tb_try_consume amount b =
     (let n = f64_of_u64 amount
      in if tb_tokens b \<ge> n then (True, b\<lparr>tb_tokens := f64_sub (tb_tokens b) n\<rparr>) else (False, b))"

definition tb_time_until :: "token_bucket \<Rightarrow> u64 \<Rightarrow> duration option" where
  "tb_time_until b amount =
     (let n = min (f64_of_u64 amount) (tb_capacity b)
      in if tb_tokens b \<ge> n then Some 0
         else from_secs_f64 (f64_div (f64_sub n (tb_tokens b)) (tb_rate b)))"

subsection \<open>The usage meter\<close>

text \<open>The counters are atomics, whose \<open>fetch_add\<close> wraps around.\<close>

record usage_meter =
  bytes_in :: u64
  bytes_out :: u64

definition meter_default :: usage_meter where
  "meter_default = \<lparr>bytes_in = 0, bytes_out = 0\<rparr>"

definition meter_add_in :: "u64 \<Rightarrow> usage_meter \<Rightarrow> usage_meter" where
  "meter_add_in n m = m\<lparr>bytes_in := bytes_in m + n\<rparr>"

definition meter_add_out :: "u64 \<Rightarrow> usage_meter \<Rightarrow> usage_meter" where
  "meter_add_out n m = m\<lparr>bytes_out := bytes_out m + n\<rparr>"

definition meter_totals :: "usage_meter \<Rightarrow> u64 \<times> u64" where
  "meter_totals m = (bytes_in m, bytes_out m)"

subsection \<open>The bucket invariant\<close>

definition bucket_ok :: "token_bucket \<Rightarrow> bool" where
  "bucket_ok b \<longleftrightarrow> 0 \<le> tb_tokens b \<and> tb_tokens b \<le> tb_capacity b \<and> 1 \<le> tb_capacity b \<and> 1 \<le> tb_rate b \<and>
     f64_round (tb_capacity b) = tb_capacity b \<and> f64_round (tb_tokens b) = tb_tokens b"

named_theorems bucket_simps

lemma tb_refill_fields [bucket_simps]:
  "tb_capacity (tb_refill d b) = tb_capacity b" "tb_rate (tb_refill d b) = tb_rate b"
  by (simp_all add: tb_refill_def)

lemma tb_consume_fields [bucket_simps]:
  "tb_capacity (snd (tb_try_consume n b)) = tb_capacity b" "tb_rate (snd (tb_try_consume n b)) = tb_rate b"
  by (simp_all add: tb_try_consume_def Let_def)

lemma f64_of_u64_nonneg [simp]: "0 \<le> f64_of_u64 n"
  unfolding f64_of_u64_def by (rule f64.rnd_nonneg) (rule of_nat_0_le_iff)

lemma f64_of_u64_ge1: "1 \<le> f64_of_u64 (max n 1)"
proof -
  have "(1 :: u64) \<le> max n 1" by simp
  then have "1 \<le> real (unat (max n 1))" by (simp add: word_le_nat_alt del: of_nat_unat)
  then have "real 1 \<le> f64_round (real (unat (max n 1)))" by (intro f64.rnd_ge_nat) auto
  then show ?thesis by (simp add: f64_of_u64_def del: of_nat_unat)
qed

lemma f64_of_u64_fixed: "f64_round (f64_of_u64 n) = f64_of_u64 n"
  unfolding f64_of_u64_def by (rule f64.rnd_idem) (rule of_nat_0_le_iff)

lemma f64_of_u64_exact: "unat n \<le> 2 ^ 53 \<Longrightarrow> f64_of_u64 n = real (unat n)"
  unfolding f64_of_u64_def by (rule f64.rnd_nat)

lemma as_secs_f64_nonneg [simp]: "0 \<le> as_secs_f64 d"
  by (simp add: as_secs_f64_def f64_add_def f64_div_def f64.rnd_nonneg)

lemma bucket_ok_new: "bucket_ok (tb_new rate burst)"
  by (simp add: bucket_ok_def tb_new_def Let_def f64_of_u64_ge1 f64_of_u64_fixed)

lemma bucket_ok_refill: "bucket_ok b \<Longrightarrow> bucket_ok (tb_refill d b)"
  by (auto simp: bucket_ok_def tb_refill_def f64_add_def f64_mul_def f64.rnd_nonneg f64.rnd_idem min_def)

lemma bucket_ok_consume:
  assumes ok: "bucket_ok b"
  shows "bucket_ok (snd (tb_try_consume n b))"
proof (cases "tb_tokens b \<ge> f64_of_u64 n")
  case True
  have "tb_tokens b - f64_of_u64 n \<le> tb_capacity b"
    using ok f64_of_u64_nonneg [of n] unfolding bucket_ok_def by linarith
  then have "f64_round (tb_tokens b - f64_of_u64 n) \<le> f64_round (tb_capacity b)"
    using True by (intro f64.rnd_mono) simp_all
  with ok True show ?thesis
    by (simp add: bucket_ok_def tb_try_consume_def f64_sub_def Let_def f64.rnd_nonneg f64.rnd_idem)
qed (use ok in \<open>simp add: tb_try_consume_def Let_def\<close>)

subsection \<open>Runs of a bucket and the rate they allow\<close>

datatype bucket_op = Refill duration | Consume u64

text \<open>A run returns the bytes granted, the sum of the amounts successfully consumed.\<close>

fun bucket_run :: "bucket_op list \<Rightarrow> token_bucket \<Rightarrow> nat \<times> token_bucket" where
  "bucket_run [] b = (0, b)"
| "bucket_run (Refill d # ops) b = bucket_run ops (tb_refill d b)"
| "bucket_run (Consume n # ops) b =
     (case tb_try_consume n b of
        (True, b') \<Rightarrow> (case bucket_run ops b' of (g, r) \<Rightarrow> (unat n + g, r))
      | (False, b') \<Rightarrow> bucket_run ops b')"

fun elapsed :: "bucket_op list \<Rightarrow> duration" where
  "elapsed [] = 0"
| "elapsed (Refill d # ops) = d + elapsed ops"
| "elapsed (Consume n # ops) = elapsed ops"

fun amounts_exact :: "bucket_op list \<Rightarrow> bool" where
  "amounts_exact [] = True"
| "amounts_exact (Refill d # ops) = amounts_exact ops"
| "amounts_exact (Consume n # ops) = (unat n \<le> 2 ^ 53 \<and> amounts_exact ops)"

abbreviation rnd_hi :: real where
  "rnd_hi \<equiv> 1 + f64_eps"

lemma q_gt1: "1 < rnd_hi" by (simp add: f64_eps_def)

lemma q_ge1: "1 \<le> rnd_hi ^ k" using q_gt1 by (intro one_le_power) simp

definition secs :: "duration \<Rightarrow> real" where
  "secs d = real d / real NANOS_PER_SEC"

lemma secs_nonneg [simp]: "0 \<le> secs d" by (simp add: secs_def)

lemma secs_add: "secs (a + b) = secs a + secs b" by (simp add: secs_def add_divide_distrib)

lemma secs_split:
  "real (d div NANOS_PER_SEC) + real (d mod NANOS_PER_SEC) / real NANOS_PER_SEC = secs d"
proof -
  have "real d = real (d div NANOS_PER_SEC) * real NANOS_PER_SEC + real (d mod NANOS_PER_SEC)"
    by (metis div_mult_mod_eq of_nat_add of_nat_mult)
  then show ?thesis by (simp add: secs_def NANOS_PER_SEC_def field_simps)
qed

lemma as_secs_f64_le: "as_secs_f64 d \<le> secs d * rnd_hi ^ 2"
proof -
  let ?s = "real (d div NANOS_PER_SEC)" and ?n = "real (d mod NANOS_PER_SEC) / real NANOS_PER_SEC"
  have "?s + ?n = secs d" by (rule secs_split)
  moreover have "f64_round ?s \<le> ?s * rnd_hi" "f64_round ?n \<le> ?n * rnd_hi" by (rule f64.rnd_le; simp)+
  ultimately have "f64_round ?s + f64_round ?n \<le> secs d * rnd_hi" by (metis add_mono distrib_right)
  then have "(f64_round ?s + f64_round ?n) * rnd_hi \<le> secs d * rnd_hi * rnd_hi"
    using q_gt1 by (intro mult_right_mono) simp_all
  moreover have "as_secs_f64 d \<le> (f64_round ?s + f64_round ?n) * rnd_hi"
    unfolding as_secs_f64_def f64_add_def f64_div_def by (intro f64.rnd_le add_nonneg_nonneg f64.rnd_nonneg) auto
  ultimately show ?thesis by (simp add: power2_eq_square mult.assoc)
qed

lemma refill_tokens_le:
  assumes "bucket_ok b"
  shows "tb_tokens (tb_refill d b) \<le> (tb_tokens b + tb_rate b * secs d) * rnd_hi ^ 4"
proof -
  let ?p = "as_secs_f64 d * tb_rate b"
  from assms have b: "0 \<le> tb_tokens b" "0 \<le> tb_rate b" by (auto simp: bucket_ok_def)
  have "?p \<le> secs d * rnd_hi ^ 2 * tb_rate b" using as_secs_f64_le b(2) by (rule mult_right_mono)
  moreover have "f64_round ?p \<le> ?p * rnd_hi" using b(2) by (intro f64.rnd_le) simp
  ultimately have "f64_round ?p \<le> secs d * rnd_hi ^ 2 * tb_rate b * rnd_hi"
    using q_gt1 by (meson less_eq_real_def mult_right_mono order_trans less_trans zero_less_one)
  also have "\<dots> = tb_rate b * secs d * rnd_hi ^ 3" by (simp add: power3_eq_cube power2_eq_square)
  finally have "tb_tokens b + f64_round ?p \<le> tb_tokens b * rnd_hi ^ 3 + tb_rate b * secs d * rnd_hi ^ 3"
    using mult_left_mono [OF q_ge1 [of 3] b(1)] by simp
  then have "(tb_tokens b + f64_round ?p) * rnd_hi \<le> (tb_tokens b + tb_rate b * secs d) * rnd_hi ^ 3 * rnd_hi"
    using q_gt1 by (intro mult_right_mono) (simp_all add: distrib_right)
  moreover have "tb_tokens (tb_refill d b) \<le> (tb_tokens b + f64_round ?p) * rnd_hi"
    unfolding tb_refill_def f64_add_def f64_mul_def
    using f64.rnd_le [of "tb_tokens b + f64_round ?p"] b f64.rnd_nonneg [of ?p] by simp
  ultimately show ?thesis by (simp add: power_Suc2 [of _ 3, simplified] mult.assoc)
qed

lemma consume_tokens_le:
  assumes "bucket_ok b" and "tb_try_consume n b = (True, b')" and "unat n \<le> 2 ^ 53"
  shows "real (unat n) + tb_tokens b' \<le> tb_tokens b * rnd_hi"
proof -
  have n: "f64_of_u64 n = real (unat n)" using assms(3) by (rule f64_of_u64_exact)
  have le: "real (unat n) \<le> tb_tokens b" "tb_tokens b' = f64_round (tb_tokens b - real (unat n))"
    using assms(2) by (auto simp: tb_try_consume_def Let_def n f64_sub_def split: if_splits simp del: of_nat_unat)
  have "tb_tokens b' \<le> (tb_tokens b - real (unat n)) * rnd_hi"
    using le by (simp add: f64.rnd_le del: of_nat_unat)
  moreover have "real (unat n) \<le> real (unat n) * rnd_hi"
    using mult_left_mono [OF q_ge1 [of 1], of "real (unat n)"] by (simp del: of_nat_unat)
  ultimately show ?thesis by (simp add: left_diff_distrib del: of_nat_unat)
qed

lemma consume_paid:
  assumes "bucket_ok b" and "tb_try_consume n b = (taken, b')" and "unat n \<le> 2 ^ 53"
  shows "(if taken then real (unat n) else 0) + tb_tokens b' \<le> tb_tokens b * rnd_hi ^ 4"
proof (cases taken)
  case True
  have "rnd_hi ^ 1 \<le> rnd_hi ^ 4" using q_gt1 by (intro power_increasing) simp_all
  then have "tb_tokens b * rnd_hi \<le> tb_tokens b * rnd_hi ^ 4"
    using assms(1) by (intro mult_left_mono) (simp_all add: bucket_ok_def)
  with consume_tokens_le [OF assms(1) _ assms(3)] assms(2) True show ?thesis by fastforce
next
  case False
  with assms(2) have "b' = b" by (auto simp: tb_try_consume_def Let_def split: if_splits)
  with False assms(1) mult_left_mono [OF q_ge1 [of 4], of "tb_tokens b"] show ?thesis
    by (simp add: bucket_ok_def)
qed

lemma absorb_step:
  fixes p x t k r Q :: real
  assumes "0 \<le> p" and "1 \<le> Q" and "p + x \<le> t * k" and "0 \<le> r" and "1 \<le> k"
  shows "p + (x + r) * Q \<le> (t + r) * (k * Q)"
proof -
  have "p \<le> p * Q" "r \<le> r * k" using assms mult_left_mono [of 1 Q p] mult_left_mono [of 1 k r] by auto
  then have "p + (x + r) * Q \<le> (p + x + r) * Q" by (simp add: algebra_simps)
  also have "\<dots> \<le> (t * k + r * k) * Q"
    using assms \<open>r \<le> r * k\<close> by (intro mult_right_mono) auto
  finally show ?thesis by (simp add: algebra_simps)
qed

lemma bucket_run_bound:
  "bucket_ok b \<Longrightarrow> amounts_exact ops \<Longrightarrow> bucket_run ops b = (g, b') \<Longrightarrow>
     real g + tb_tokens b' \<le> (tb_tokens b + tb_rate b * secs (elapsed ops)) * rnd_hi ^ (4 * length ops)"
proof (induction ops arbitrary: b g)
  case Nil
  then show ?case by (simp add: secs_def)
next
  case (Cons opn ops)
  let ?Q = "rnd_hi ^ (4 * length ops)" and ?r = "tb_rate b * secs (elapsed ops)"
  have r: "0 \<le> ?r" using Cons.prems(1) by (simp add: bucket_ok_def)
  have Suc: "rnd_hi ^ (4 * length (opn # ops)) = rnd_hi ^ 4 * ?Q" by (simp add: power_add)
  show ?case
  proof (cases opn)
    case (Refill d)
    have "real g + tb_tokens b' \<le> 0 + (tb_tokens (tb_refill d b) + ?r) * ?Q"
      using Cons.IH [of "tb_refill d b" g] Cons.prems Refill by (simp add: bucket_ok_refill bucket_simps)
    also have "\<dots> \<le> (tb_tokens b + tb_rate b * secs d + ?r) * (rnd_hi ^ 4 * ?Q)"
      using refill_tokens_le [OF Cons.prems(1), of d]
      by (intro absorb_step [OF _ q_ge1 _ r q_ge1]) simp_all
    finally show ?thesis unfolding Suc by (simp add: Refill secs_add algebra_simps)
  next
    case (Consume n)
    obtain taken b1 where c: "tb_try_consume n b = (taken, b1)" by (cases "tb_try_consume n b")
    let ?p = "if taken then real (unat n) else 0"
    obtain g1 where g1: "bucket_run ops b1 = (g1, b')" "real g = ?p + real g1"
      using Cons.prems(3) Consume c by (auto split: prod.splits bool.splits)
    have b1: "bucket_ok b1" "tb_rate b1 = tb_rate b"
      using bucket_ok_consume [OF Cons.prems(1), of n] tb_consume_fields(2) [of n b] c by auto
    have "real g + tb_tokens b' \<le> ?p + (tb_tokens b1 + ?r) * ?Q"
      using Cons.IH [OF b1(1) _ g1(1)] Cons.prems(2) Consume b1(2) g1(2) by simp
    also have "\<dots> \<le> (tb_tokens b + ?r) * (rnd_hi ^ 4 * ?Q)"
      using consume_paid [OF Cons.prems(1) c] Cons.prems(2) Consume
      by (intro absorb_step [OF _ q_ge1 _ r q_ge1]) (simp_all del: of_nat_unat)
    finally show ?thesis unfolding Suc by (simp add: Consume)
  qed
qed

lemma bucket_run_ok: "bucket_ok b \<Longrightarrow> bucket_ok (snd (bucket_run ops b))"
proof (induction ops arbitrary: b)
  case (Cons opn ops)
  then show ?case
  proof (cases opn)
    case (Consume n)
    obtain t b1 where c: "tb_try_consume n b = (t, b1)" by (cases "tb_try_consume n b")
    with bucket_ok_consume [OF Cons.prems, of n] have "bucket_ok b1" by simp
    from Cons.IH [OF this] Consume c show ?thesis by (auto split: bool.splits prod.splits)
  qed (simp add: bucket_ok_refill)
qed simp

lemma bucket_run_capacity: "tb_capacity (snd (bucket_run ops b)) = tb_capacity b"
proof (induction ops arbitrary: b)
  case (Cons opn ops)
  then show ?case
  proof (cases opn)
    case (Consume n)
    then show ?thesis
      using Cons.IH tb_consume_fields(1) [of n b] by (auto split: bool.splits prod.splits) (metis snd_conv)+
  qed (simp add: bucket_simps)
qed simp

subsection \<open>The interface of a rate limiter\<close>

text \<open>
  What a client that waits for room relies on: an amount that \<open>fits\<close> is granted after any refill
  that \<open>pays\<close> for it in full, and an amount that does not fit is never granted. Neither depends on
  what was granted before. \<open>wait_rounds\<close> is the loop of such a client, over the times that pass
  between its rounds.
\<close>

fun wait_rounds ::
  "(duration \<Rightarrow> 'b \<Rightarrow> 'b) \<Rightarrow> (u64 \<Rightarrow> 'b \<Rightarrow> bool \<times> 'b) \<Rightarrow> u64 \<Rightarrow> duration list \<Rightarrow> 'b \<Rightarrow> bool \<times> 'b" where
  "wait_rounds refill consume n [] b = (False, b)"
| "wait_rounds refill consume n (d # ds) b =
     (case consume n (refill d b) of
        (True, b') \<Rightarrow> (True, b')
      | (False, b') \<Rightarrow> wait_rounds refill consume n ds b')"

locale rate_limiter =
  fixes ok :: "'b \<Rightarrow> bool"
    and refill :: "duration \<Rightarrow> 'b \<Rightarrow> 'b"
    and consume :: "u64 \<Rightarrow> 'b \<Rightarrow> bool \<times> 'b"
    and fits :: "'b \<Rightarrow> u64 \<Rightarrow> bool"
    and pays :: "'b \<Rightarrow> duration \<Rightarrow> u64 \<Rightarrow> bool"
  assumes refill_ok: "ok b \<Longrightarrow> ok (refill d b)"
    and consume_ok: "ok b \<Longrightarrow> ok (snd (consume n b))"
    and refill_fits: "fits (refill d b) n = fits b n"
    and consume_fits: "fits (snd (consume m b)) n = fits b n"
    and refill_pays: "pays (refill d b) e n = pays b e n"
    and consume_pays: "pays (snd (consume m b)) e n = pays b e n"
    and paid: "ok b \<Longrightarrow> fits b n \<Longrightarrow> pays b d n \<Longrightarrow> fst (consume n (refill d b))"
    and oversized: "ok b \<Longrightarrow> \<not> fits b n \<Longrightarrow> \<not> fst (consume n b)"
begin

lemma refused_round:
  assumes "ok b" and "consume n (refill d b) = (g, b')"
  shows "ok b'" and "fits b' m = fits b m" and "pays b' e m = pays b e m"
  using assms consume_ok [OF refill_ok [OF assms(1)], of n d] consume_fits [of n "refill d b" m]
    consume_pays [of n "refill d b" e m] by (simp_all add: refill_fits refill_pays)

lemma wait_granted:
  "ok b \<Longrightarrow> fits b n \<Longrightarrow> d \<in> set ds \<Longrightarrow> pays b d n \<Longrightarrow> fst (wait_rounds refill consume n ds b)"
proof (induction ds arbitrary: b)
  case (Cons e ds)
  obtain g b' where c: "consume n (refill e b) = (g, b')" by fastforce
  note b' = refused_round [OF Cons.prems(1) c]
  show ?case
  proof (cases "e = d")
    case True
    with paid [OF Cons.prems(1,2,4)] c have g by simp
    with c show ?thesis by simp
  next
    case False
    with Cons.IH [of b'] Cons.prems b' c show ?thesis by (auto split: bool.splits)
  qed
qed simp

lemma wait_oversized: "ok b \<Longrightarrow> \<not> fits b n \<Longrightarrow> \<not> fst (wait_rounds refill consume n ds b)"
proof (induction ds arbitrary: b)
  case (Cons e ds)
  obtain g b' where c: "consume n (refill e b) = (g, b')" by fastforce
  with oversized [OF refill_ok [OF Cons.prems(1)], of e n] Cons.prems(2) have "\<not> g"
    by (simp add: refill_fits)
  with Cons.IH [of b'] Cons.prems refused_round [OF Cons.prems(1) c] c show ?case by simp
qed simp

end

text \<open>
  A limiter that also accrues: while an amount is refused, its level grows by at least \<open>gain\<close> with
  the time that passes, however that time is split into rounds, and stays below the amount's
  \<open>need\<close>. So the time a client waits is bounded.
\<close>

locale accruing_limiter = rate_limiter ok refill consume fits pays
  for ok :: "'b \<Rightarrow> bool" and refill consume fits and pays :: "'b \<Rightarrow> duration \<Rightarrow> u64 \<Rightarrow> bool" +
  fixes level :: "'b \<Rightarrow> real" and gain :: "'b \<Rightarrow> duration \<Rightarrow> real" and need :: "u64 \<Rightarrow> real"
  assumes refill_gain: "gain (refill d b) e = gain b e"
    and consume_gain: "gain (snd (consume n b)) e = gain b e"
    and gain_0: "gain b 0 = 0"
    and gain_add: "gain b (d + e) = gain b d + gain b e"
    and level_nonneg: "ok b \<Longrightarrow> 0 \<le> level b"
    and refused_accrues: "ok b \<Longrightarrow> fits b n \<Longrightarrow> consume n (refill d b) = (False, b') \<Longrightarrow>
      level b + gain b d \<le> level b' \<and> level b' < need n"
begin

lemma wait_accrues:
  "ok b \<Longrightarrow> fits b n \<Longrightarrow> wait_rounds refill consume n ds b = (False, b') \<Longrightarrow> ds \<noteq> [] \<Longrightarrow>
     level b + gain b (sum_list ds) \<le> level b' \<and> level b' < need n"
proof (induction ds arbitrary: b)
  case (Cons d ds)
  obtain g b1 where c: "consume n (refill d b) = (g, b1)" by fastforce
  with Cons.prems(3) have "\<not> g" by (auto split: bool.splits)
  with c have c: "consume n (refill d b) = (False, b1)" by simp
  note step = refused_accrues [OF Cons.prems(1,2) c] refused_round [OF Cons.prems(1) c]
  have g1: "gain b1 e = gain b e" for e
    using consume_gain [of n "refill d b" e] c by (simp add: refill_gain)
  show ?case
  proof (cases "ds = []")
    case True
    with Cons.prems(3) c step show ?thesis by simp
  next
    case False
    with Cons.IH [of b1] Cons.prems c step g1 show ?thesis by (auto simp: gain_add)
  qed
qed simp

lemma wait_bounded:
  assumes "ok b" "fits b n" "wait_rounds refill consume n ds b = (False, b')" "ds \<noteq> []"
  shows "gain b (sum_list ds) < need n"
  using wait_accrues [OF assms] level_nonneg [OF assms(1)] by linarith

end

definition tb_fits :: "token_bucket \<Rightarrow> u64 \<Rightarrow> bool" where
  "tb_fits b n \<longleftrightarrow> f64_of_u64 n \<le> tb_capacity b"

definition tb_pays :: "token_bucket \<Rightarrow> duration \<Rightarrow> u64 \<Rightarrow> bool" where
  "tb_pays b d n \<longleftrightarrow> f64_of_u64 n \<le> f64_mul (as_secs_f64 d) (tb_rate b)"

interpretation bucket: rate_limiter bucket_ok tb_refill tb_try_consume tb_fits tb_pays
proof unfold_locales
  fix b d n
  assume ok: "bucket_ok b"
  show "bucket_ok (tb_refill d b)" by (rule bucket_ok_refill [OF ok])
  show "bucket_ok (snd (tb_try_consume n b))" by (rule bucket_ok_consume [OF ok])
  show "fst (tb_try_consume n (tb_refill d b))" if "tb_fits b n" "tb_pays b d n"
  proof -
    have "f64_of_u64 n \<le> tb_tokens b + f64_mul (as_secs_f64 d) (tb_rate b)"
      using that(2) ok by (simp add: tb_pays_def bucket_ok_def)
    then have "f64_of_u64 n \<le> f64_add (tb_tokens b) (f64_mul (as_secs_f64 d) (tb_rate b))"
      unfolding f64_add_def f64_of_u64_def by (intro f64.rnd_ge_rnd of_nat_0_le_iff) simp
    with that(1) show ?thesis by (simp add: tb_try_consume_def tb_refill_def tb_fits_def)
  qed
  show "\<not> fst (tb_try_consume n b)" if "\<not> tb_fits b n"
    using that ok by (auto simp: tb_fits_def bucket_ok_def tb_try_consume_def Let_def)
qed (simp_all add: tb_fits_def tb_pays_def bucket_simps)

text \<open>
  The bucket accrues as long as its capacity is at most $2^{20}$ tokens: then the rounding of one
  refill loses at most an eighth of what a nanosecond earns at the slowest rate.
\<close>

definition tb_small :: "token_bucket \<Rightarrow> bool" where
  "tb_small b \<longleftrightarrow> bucket_ok b \<and> tb_capacity b \<le> 2 ^ 20"

definition tb_gain :: "token_bucket \<Rightarrow> duration \<Rightarrow> real" where
  "tb_gain b d = 4 / 5 * tb_rate b * secs d"

abbreviation rnd_lo :: real where
  "rnd_lo \<equiv> 1 - f64_eps"

lemma as_secs_f64_ge: "secs d * rnd_lo ^ 2 \<le> as_secs_f64 d"
proof -
  let ?s = "real (d div NANOS_PER_SEC)" and ?n = "real (d mod NANOS_PER_SEC) / real NANOS_PER_SEC"
  have "?s + ?n = secs d" by (rule secs_split)
  moreover have "?s * rnd_lo \<le> f64_round ?s" "?n * rnd_lo \<le> f64_round ?n" by (rule f64.rnd_ge; simp)+
  ultimately have "secs d * rnd_lo \<le> f64_round ?s + f64_round ?n" by (metis add_mono distrib_right)
  then have "secs d * rnd_lo * rnd_lo \<le> (f64_round ?s + f64_round ?n) * rnd_lo"
    by (intro mult_right_mono) (simp_all add: f64_eps_def)
  moreover have "(f64_round ?s + f64_round ?n) * rnd_lo \<le> as_secs_f64 d"
    unfolding as_secs_f64_def f64_add_def f64_div_def by (intro f64.rnd_ge add_nonneg_nonneg f64.rnd_nonneg) auto
  ultimately show ?thesis by (simp add: power2_eq_square mult.assoc)
qed

lemma refill_tokens_ge:
  assumes "tb_small b"
  shows "tb_tokens (tb_refill d b) = tb_capacity b \<or> tb_tokens b + tb_gain b d \<le> tb_tokens (tb_refill d b)"
proof (cases "d = 0")
  case True
  with assms show ?thesis
    by (simp add: tb_small_def bucket_ok_def tb_refill_def tb_gain_def secs_def as_secs_f64_def
        f64_add_def f64_mul_def f64_div_def f64.rnd_0)
next
  case False
  let ?e = "tb_rate b * secs d" and ?i = "f64_round (as_secs_f64 d * tb_rate b)"
  from assms have b: "0 \<le> tb_tokens b" "1 \<le> tb_rate b" "tb_capacity b \<le> 2 ^ 20"
    "f64_round (tb_capacity b) = tb_capacity b" "0 \<le> tb_capacity b" by (auto simp: tb_small_def bucket_ok_def)
  have "1 / 10 ^ 9 \<le> secs d" using False by (simp add: secs_def NANOS_PER_SEC_def field_simps)
  with mult_mono [of 1 "tb_rate b" "1 / 10 ^ 9" "secs d"] b(2) have e: "1 / 10 ^ 9 \<le> ?e" by simp
  have "secs d * rnd_lo ^ 2 * tb_rate b * rnd_lo \<le> as_secs_f64 d * tb_rate b * rnd_lo"
    using as_secs_f64_ge b(2) by (intro mult_right_mono) (simp_all add: f64_eps_def)
  also have "\<dots> \<le> ?i" using b(2) by (intro f64.rnd_ge) simp
  finally have "?e * rnd_lo ^ 3 \<le> ?i" by (simp add: power3_eq_cube power2_eq_square mult_ac)
  moreover have "?e * (99 / 100) \<le> ?e * rnd_lo ^ 3" using e by (intro mult_left_mono) (simp_all add: f64_eps_def power3_eq_cube)
  ultimately have i: "99 / 100 * ?e \<le> ?i" by linarith
  show ?thesis
  proof (cases "tb_capacity b \<le> tb_tokens b + ?i")
    case True
    then have "tb_capacity b \<le> f64_round (tb_tokens b + ?i)" using f64.rnd_mono [OF b(5) True] b(4) by simp
    then show ?thesis by (simp add: tb_refill_def f64_add_def f64_mul_def)
  next
    case False
    have "(tb_tokens b + ?i) * rnd_lo \<le> f64_round (tb_tokens b + ?i)" using b(1) i e by (intro f64.rnd_ge) simp
    moreover have "(tb_tokens b + ?i) * f64_eps \<le> 2 ^ 20 * f64_eps"
      using False b(3) by (intro mult_right_mono) (simp_all add: f64_eps_def)
    ultimately have "tb_tokens b + ?i - 2 ^ 20 * f64_eps \<le> f64_round (tb_tokens b + ?i)"
      by (simp add: algebra_simps)
    moreover have "2 ^ 20 * f64_eps \<le> 19 / 100 * ?e" using e by (simp add: f64_eps_def)
    ultimately show ?thesis using i
      by (auto simp: tb_refill_def f64_add_def f64_mul_def tb_gain_def min_def)
  qed
qed

interpretation paced: accruing_limiter tb_small tb_refill tb_try_consume tb_fits tb_pays tb_tokens tb_gain f64_of_u64
proof unfold_locales
  fix b d n b'
  assume "tb_small b"
  then have ok: "bucket_ok b" and small: "tb_capacity b \<le> 2 ^ 20" by (simp_all add: tb_small_def)
  show "tb_small (tb_refill d b)" "tb_small (snd (tb_try_consume n b))"
    using ok small bucket_ok_consume by (simp_all add: tb_small_def bucket_simps bucket_ok_refill)
  show "0 \<le> tb_tokens b" using ok by (simp add: bucket_ok_def)
  show "fst (tb_try_consume n (tb_refill d b))" if "tb_fits b n" "tb_pays b d n"
    using that ok by (intro bucket.paid)
  show "\<not> fst (tb_try_consume n b)" if "\<not> tb_fits b n" using that ok by (intro bucket.oversized)
  assume fits: "tb_fits b n" and c: "tb_try_consume n (tb_refill d b) = (False, b')"
  then have "b' = tb_refill d b" "tb_tokens b' < f64_of_u64 n"
    by (auto simp: tb_try_consume_def Let_def split: if_splits)
  with refill_tokens_ge [OF \<open>tb_small b\<close>, of d] fits
  show "tb_tokens b + tb_gain b d \<le> tb_tokens b' \<and> tb_tokens b' < f64_of_u64 n"
    by (auto simp: tb_fits_def)
qed (simp_all add: tb_fits_def tb_pays_def tb_gain_def secs_add bucket_simps distrib_left, simp add: secs_def)

subsection \<open>The wait a bucket asks for\<close>

lemma from_secs_f64_in_range:
  assumes "0 \<le> x" and "x \<le> c" and "c \<le> 2 ^ 63"
  shows "\<exists>d. from_secs_f64 x = Some d \<and> real d \<le> c * real NANOS_PER_SEC + 1 / 2"
proof -
  let ?r = "round_even (x * real NANOS_PER_SEC)"
  have "0 \<le> \<lfloor>x * real NANOS_PER_SEC\<rfloor>" using assms(1) by simp
  then have r0: "0 \<le> ?r" using round_even_floor(1) [of "x * real NANOS_PER_SEC"] by linarith
  have "x * real NANOS_PER_SEC \<le> c * real NANOS_PER_SEC" using assms(2) by (rule mult_right_mono) simp
  then have r1: "real_of_int ?r \<le> c * real NANOS_PER_SEC + 1 / 2"
    using round_even_bounds(1) [of "x * real NANOS_PER_SEC"] by linarith
  also have "\<dots> < real_of_int (2 ^ 64 * int NANOS_PER_SEC)"
    using assms(3) by (simp add: NANOS_PER_SEC_def)
  finally have "?r < 2 ^ 64 * int NANOS_PER_SEC" by (simp only: of_int_less_iff)
  with r0 r1 assms(1) show ?thesis by (auto simp: from_secs_f64_def)
qed

lemma time_until_in_range:
  assumes ok: "bucket_ok b" and c: "tb_capacity b \<le> 2 ^ 63"
  shows "\<exists>d. tb_time_until b n = Some d \<and> real d \<le> tb_capacity b * real NANOS_PER_SEC + 1 / 2 \<and>
    (min (f64_of_u64 n) (tb_capacity b) \<le> tb_tokens b \<longrightarrow> d = 0)"
proof (cases "min (f64_of_u64 n) (tb_capacity b) \<le> tb_tokens b")
  case True
  with ok show ?thesis by (simp add: tb_time_until_def bucket_ok_def)
next
  case False
  let ?m = "min (f64_of_u64 n) (tb_capacity b)" and ?cap = "tb_capacity b"
  let ?w = "f64_round (?m - tb_tokens b)"
  from ok have b: "0 \<le> tb_tokens b" "1 \<le> tb_rate b" "f64_round ?cap = ?cap" by (auto simp: bucket_ok_def)
  have m: "0 \<le> ?m - tb_tokens b" "?m - tb_tokens b \<le> ?cap" using False b(1) by linarith+
  have w: "0 \<le> ?w" "?w \<le> ?cap"
    using f64.rnd_nonneg [OF m(1)] f64.rnd_mono [OF m] b(3) by simp_all
  have wr: "0 \<le> ?w / tb_rate b" "?w / tb_rate b \<le> ?w"
    using w(1) b(2) mult_left_mono [OF b(2) w(1)] by (simp_all add: divide_le_eq)
  with w(2) f64.rnd_mono [OF wr(1), of ?cap] b(3) have "f64_round (?w / tb_rate b) \<le> ?cap" by simp
  with from_secs_f64_in_range [OF f64.rnd_nonneg [OF wr(1)] this c] False show ?thesis
    by (simp add: tb_time_until_def Let_def f64_div_def f64_sub_def)
qed

text \<open>
  The wait for an amount that fits: what is missing over the rate, up to the rounding of a subtraction
  and a division and of the result to nanoseconds.
\<close>

lemma time_until_le:
  assumes ok: "bucket_ok b" and fits: "tb_fits b n" and short: "tb_tokens b < f64_of_u64 n"
    and w: "tb_time_until b n = Some w"
  shows "real w \<le> 5 / 4 * ((f64_of_u64 n - tb_tokens b) / tb_rate b) * real NANOS_PER_SEC + 1 / 2"
proof -
  let ?m = "f64_of_u64 n - tb_tokens b" and ?x = "f64_round (f64_round (f64_of_u64 n - tb_tokens b) / tb_rate b)"
  have m: "0 \<le> ?m" and rate: "1 \<le> tb_rate b" using short ok by (auto simp: bucket_ok_def)
  have "from_secs_f64 ?x = Some w" 
    using w fits short by (simp add: tb_time_until_def tb_fits_def min_def f64_div_def f64_sub_def)
  then have "\<not> ?x < 0" "w = nat (round_even (?x * real NANOS_PER_SEC))" by (auto simp: from_secs_f64_def split: if_splits)
  moreover from \<open>\<not> ?x < 0\<close> have "0 \<le> \<lfloor>?x * real NANOS_PER_SEC\<rfloor>" by simp
  with round_even_floor(1) [of "?x * real NANOS_PER_SEC"] have "0 \<le> round_even (?x * real NANOS_PER_SEC)" by linarith
  ultimately have "real w \<le> ?x * real NANOS_PER_SEC + 1 / 2"
    using round_even_bounds(1) [of "?x * real NANOS_PER_SEC"] by simp
  moreover have "?x \<le> 5 / 4 * (?m / tb_rate b)"
  proof -
    have "?x \<le> f64_round ?m / tb_rate b * rnd_hi" using f64.rnd_nonneg [OF m] rate by (intro f64.rnd_le) simp
    also have "\<dots> \<le> ?m * rnd_hi / tb_rate b * rnd_hi"
      using f64.rnd_le [OF m] rate by (intro mult_right_mono divide_right_mono) (simp_all add: f64_eps_def)
    also have "\<dots> = rnd_hi ^ 2 * (?m / tb_rate b)" by (simp add: power2_eq_square)
    also have "\<dots> \<le> 5 / 4 * (?m / tb_rate b)" using m rate by (intro mult_right_mono) (simp_all add: f64_eps_def power2_eq_square)
    finally show ?thesis .
  qed
  then have "?x * real NANOS_PER_SEC \<le> 5 / 4 * (?m / tb_rate b) * real NANOS_PER_SEC" by (rule mult_right_mono) simp
  ultimately show ?thesis by linarith
qed

lemma capacity_bound:
  assumes "burst < 2 ^ 62"
  shows "f64_of_u64 (max burst 1) \<le> 2 ^ 63"
proof -
  have "unat (max burst 1) \<le> 2 ^ 62"
    using assms by (cases "burst \<le> 1") (auto simp: max_def word_less_nat_alt)
  then have "f64_round (real (unat (max burst 1))) \<le> f64_round (real (2 ^ 62))"
    by (intro f64.rnd_mono of_nat_0_le_iff) (simp only: of_nat_le_iff)
  moreover have "f64_round (real (2 ^ 62)) = 2 ^ 62"
    using f64.rnd_exact [of 1 62] by (simp add: powr_numeral)
  ultimately show ?thesis by (simp add: f64_of_u64_def del: of_nat_unat)
qed

subsection \<open>Properties\<close>

text \<open>
  C35 (invariant). Whatever the sequence of refills and consumptions, in double-precision arithmetic
  with its rounding, the bucket's level never goes below zero and never above its capacity.
\<close>

theorem bucket_level_in_range:
  "let b = snd (bucket_run ops (tb_new rate burst))
   in 0 \<le> tb_tokens b \<and> tb_tokens b \<le> f64_of_u64 (max burst 1)"
  using bucket_run_ok [OF bucket_ok_new, of ops rate burst] bucket_run_capacity [of ops "tb_new rate burst"]
  by (simp add: bucket_ok_def tb_new_def Let_def)

text \<open>
  The bandwidth cap of a bucket: over any run of refills and consumptions, the bytes granted are at
  most the burst plus the rate times the elapsed time, up to the rounding of the arithmetic, a
  factor of $1 + 2^{-53}$ for each of at most four rounded operations of a step. (Amounts up to
  $2^{53}$ bytes are exact in double precision.)
\<close>

lemma bucket_rate_cap:
  assumes "amounts_exact ops"
  shows "real (fst (bucket_run ops (tb_new rate burst))) \<le>
    (f64_of_u64 (max burst 1) + f64_of_u64 (max rate 1) * (real (elapsed ops) / real NANOS_PER_SEC))
      * (1 + 1 / 2 ^ 53) ^ (4 * length ops)"
proof -
  let ?b = "tb_new rate burst"
  obtain g b' where run: "bucket_run ops ?b = (g, b')" by (cases "bucket_run ops ?b")
  have "0 \<le> tb_tokens b'" using bucket_run_ok [OF bucket_ok_new, of ops rate burst] run by (simp add: bucket_ok_def)
  with bucket_run_bound [OF bucket_ok_new assms run] run show ?thesis
    by (simp add: tb_new_def Let_def secs_def f64_eps_def)
qed

text \<open>
  The wait a bucket asks for is always a valid duration: for a bucket whose burst is
  below $2^{62}$, \<open>time_until\<close> never panics, its result is at most the time the slowest refill needs
  for the whole capacity (capacity seconds, rounded to a nanosecond), and it is zero when the amount,
  capped at the capacity, is available.
\<close>

lemma time_until_valid:
  assumes "burst < 2 ^ 62"
  shows "let b = snd (bucket_run ops (tb_new rate burst))
    in \<exists>d. tb_time_until b n = Some d \<and> real d \<le> tb_capacity b * real NANOS_PER_SEC + 1 / 2 \<and>
         (min (f64_of_u64 n) (tb_capacity b) \<le> tb_tokens b \<longrightarrow> d = 0)"
proof -
  have "tb_capacity (snd (bucket_run ops (tb_new rate burst))) \<le> 2 ^ 63"
    using capacity_bound [OF assms] by (simp add: bucket_run_capacity tb_new_def Let_def)
  from time_until_in_range [OF bucket_run_ok [OF bucket_ok_new] this] show ?thesis by (simp add: Let_def)
qed

end
