(* ===== verification/Gateway_Ownership.thy ===== *)
theory Gateway_Ownership
  imports Gateway_Prelude
begin

text \<open>
  Who keeps a session alive. A \<open>Session\<close> (\<open>gw-core/src/lib.rs\<close>) owns the sender half of the SSH
  actor's input queue and is dropped with its last \<open>Arc\<close>; handles are held by the registry, by
  each connection that serves the session, and by the ingest task spawned with it. The SSH
  actor (\<open>gw-ssh/src/lib.rs\<close>) owns the sender half of the output queue, which ends the ingest
  task when it is dropped; the actor ends when the target ends the session or when its input queue is
  closed, that is, when the \<open>Session\<close> has been dropped.

  The state is who holds a handle and which of the two tasks runs; each rule is one of the events
  that change it.
\<close>

record ownership =
  registered :: bool
  clients :: nat
  ingest_task :: bool
  ssh_actor :: bool

definition session_alive :: "ownership \<Rightarrow> bool" where
  "session_alive w \<longleftrightarrow> registered w \<or> 0 < clients w \<or> ingest_task w"

text \<open>\<open>manager.create(ssh.spawn())\<close>: both tasks are spawned, and the handler holds the session.\<close>

definition own_init :: "ownership \<Rightarrow> bool" where
  "own_init w \<longleftrightarrow> w = \<lparr>registered = True, clients = 1, ingest_task = True, ssh_actor = True\<rparr>"

datatype own_event = Resume | Disconnect | Unregister | Target_ends | Input_closed | Output_closed

inductive own_step :: "own_event \<Rightarrow> ownership \<Rightarrow> ownership \<Rightarrow> bool" where
  own_resume: "registered w \<Longrightarrow> own_step Resume w (w\<lparr>clients := Suc (clients w)\<rparr>)"
| own_disconnect: "0 < clients w \<Longrightarrow> own_step Disconnect w (w\<lparr>clients := clients w - 1\<rparr>)"
| own_unregister: "registered w \<Longrightarrow> own_step Unregister w (w\<lparr>registered := False\<rparr>)"
| own_target_ends: "ssh_actor w \<Longrightarrow> own_step Target_ends w (w\<lparr>ssh_actor := False\<rparr>)"
| own_input_closed: "ssh_actor w \<Longrightarrow> \<not> session_alive w \<Longrightarrow> own_step Input_closed w (w\<lparr>ssh_actor := False\<rparr>)"
| own_output_closed: "ingest_task w \<Longrightarrow> \<not> ssh_actor w \<Longrightarrow> own_step Output_closed w (w\<lparr>ingest_task := False\<rparr>)"

inductive_cases own_stepE: "own_step e w w'"

definition own_any :: "ownership \<Rightarrow> ownership \<Rightarrow> bool" where
  "own_any w w' \<longleftrightarrow> (\<exists>e. own_step e w w')"

text \<open>Every step except those the target takes.\<close>

definition own_gateway :: "ownership \<Rightarrow> ownership \<Rightarrow> bool" where
  "own_gateway w w' \<longleftrightarrow> (\<exists>e. e \<noteq> Target_ends \<and> own_step e w w')"

lemma own_inv_step: "ssh_actor w \<longrightarrow> ingest_task w \<Longrightarrow> own_any w w' \<Longrightarrow> ssh_actor w' \<longrightarrow> ingest_task w'"
  by (auto simp: own_any_def elim!: own_stepE)

interpretation own: invariant_system own_init own_any "\<lambda>w. ssh_actor w \<longrightarrow> ingest_task w"
  by unfold_locales (simp add: own_init_def, rule own_inv_step)

interpretation leak: invariant_system own_init own_gateway "\<lambda>w. ssh_actor w \<and> ingest_task w"
  by unfold_locales (auto simp: own_init_def own_gateway_def session_alive_def elim!: own_stepE)

subsection \<open>Properties\<close>

text \<open>
  While the SSH actor of a session runs, the session object is alive, whatever
  clients come and go and whether or not it is registered: a detached session keeps its connection to
  the target, and input of a reattached client always finds an open queue.
\<close>

lemma running_actor_keeps_session:
  assumes "reachable own_init own_any w" and "ssh_actor w"
  shows "session_alive w"
  using own.reachable_inv [OF assms(1)] assms(2) by (simp add: session_alive_def)

text \<open>
  C36 (error). The other side of it: the ingest task itself keeps the session object alive, so the
  input queue never closes under a running actor. Nothing the gateway does (clients leaving, the
  session being closed and unregistered) ends the SSH connection: as long as the target does not end the
  session, both tasks and the SSH connection stay, even when nobody can reach the session any more.
\<close>

theorem closed_session_keeps_ssh_connection:
  assumes "reachable own_init own_gateway w"
  shows "ssh_actor w \<and> ingest_task w \<and> (\<forall>w'. \<not> own_step Input_closed w w')"
  using leak.reachable_inv [OF assms] by (auto simp: session_alive_def elim!: own_stepE)

theorem closed_session_keeps_ssh_connection_witness:
  "\<exists>w. reachable own_init own_gateway w \<and> \<not> registered w \<and> clients w = 0 \<and> ssh_actor w"
proof -
  let ?w0 = "\<lparr>registered = True, clients = 1, ingest_task = True, ssh_actor = True\<rparr>"
  let ?w1 = "\<lparr>registered = False, clients = 1, ingest_task = True, ssh_actor = True\<rparr>"
  let ?w2 = "\<lparr>registered = False, clients = 0, ingest_task = True, ssh_actor = True\<rparr>"
  have "own_gateway ?w0 ?w1" "own_gateway ?w1 ?w2"
    using own_unregister [of ?w0] own_disconnect [of ?w1] by (auto simp: own_gateway_def)
  then have "reachable own_init own_gateway ?w2"
    by (meson own_init_def reachable_init reachable_step)
  with closed_session_keeps_ssh_connection [OF this] show ?thesis by (intro exI [of _ ?w2]) simp
qed

end
