(* ===== verification/Ssh_Client.thy ===== *)
theory Ssh_Client
  imports Text_Model
begin

text \<open>
  The SSH client, \<open>gw-ssh/src/lib.rs\<close>: connecting and authenticating to the target with a
  password, a private key or by delegated signing, opening the shell, and the actor that drives
  the open channel.

  The SSH protocol library (russh) is a parameter, a record of the calls the source makes. Two of
  them call back. \<open>client::connect\<close> hands the target's key to the handler, which keeps its state in
  a cell, so the call takes the handler function and the cell. \<open>authenticate_publickey_with\<close> asks the
  given signer for signatures: it is a finite dialogue, \<open>auth_run\<close>, whose nodes are the challenges.
  The state of the library is part of the caller's state, reached through \<open>get\<close> and \<open>put\<close>.

  The properties: no shell is ever requested without a successful authentication; delegated
  challenges and signatures pass unchanged; the actor applies the client's input in order, one
  call sequence per input, and forwards the target's output in order.
\<close>

subsection \<open>Targets, credentials and errors\<close>

record ssh_target =
  st_host :: string
  st_port :: u16
  st_user :: string

datatype auth = Auth_Password string | Auth_PrivateKey string "string option"

datatype ssh_input = In_Data bytes | In_Resize u32 u32

datatype remote_signer_error = RemoteSignerError string

primrec remote_signer_display :: "remote_signer_error \<Rightarrow> string" where
  "remote_signer_display (RemoteSignerError m) = ''remote signer: '' @ m"

datatype signer_error = Signer_Send | Signer_Key string | Signer_Remote remote_signer_error

primrec signer_display :: "signer_error \<Rightarrow> string" where
  "signer_display Signer_Send = ''ssh send error''"
| "signer_display (Signer_Key m) = ''public key: '' @ m"
| "signer_display (Signer_Remote e) = remote_signer_display e"

datatype hash_alg = Sha256 | Sha512 | OtherHash

fun hash_alg_name :: "hash_alg \<Rightarrow> string" where
  "hash_alg_name Sha256 = ''rsa-sha2-256''"
| "hash_alg_name Sha512 = ''rsa-sha2-512''"
| "hash_alg_name _ = ''rsa-sha2-512''"

subsection \<open>The protocol library\<close>

datatype ('k, 's) auth_run =
  Finish "('s, signer_error, bool) io"
| Challenge 'k "hash_alg option" bytes "signer_error + bytes \<Rightarrow> ('k, 's) auth_run"

type_synonym ('k, 'e) key_check = "'k \<Rightarrow> string option \<Rightarrow> ('e + bool) \<times> string option"

record ('s, 'h, 'c, 'k, 'sk) russh =
  client_connect :: "string \<Rightarrow> u16 \<Rightarrow> ('k, ext_error) key_check \<Rightarrow> string option \<Rightarrow>
    ('s, ext_error, 'h \<times> string option) io"
  key_fingerprint :: "'k \<Rightarrow> string"
  to_openssh :: "'k \<Rightarrow> ext_error + string"
  from_openssh :: "string \<Rightarrow> ext_error + 'k"
  decode_secret_key :: "string \<Rightarrow> string option \<Rightarrow> ext_error + 'sk"
  authenticate_password :: "'h \<Rightarrow> string \<Rightarrow> string \<Rightarrow> ('s, ext_error, bool) io"
  authenticate_publickey :: "'h \<Rightarrow> string \<Rightarrow> 'sk \<Rightarrow> ('s, ext_error, bool) io"
  authenticate_publickey_with :: "'h \<Rightarrow> string \<Rightarrow> 'k \<Rightarrow> hash_alg option \<Rightarrow> 's \<Rightarrow> ('k, 's) auth_run"
  channel_open_session :: "'h \<Rightarrow> ('s, ext_error, 'c) io"
  request_pty :: "'c \<Rightarrow> bool \<Rightarrow> string \<Rightarrow> u32 \<Rightarrow> u32 \<Rightarrow> u32 \<Rightarrow> u32 \<Rightarrow> (byte \<times> u32) list \<Rightarrow>
    ('s, ext_error, unit) io"
  request_shell :: "'c \<Rightarrow> bool \<Rightarrow> ('s, ext_error, unit) io"

definition with_context :: "string \<Rightarrow> ('s, ext_error, 'a) io \<Rightarrow> ('s, anyhow, 'a) io" where
  "with_context m = io_map_err (\<lambda>e. Ctx m (Msg e))"

definition io_within :: "('t \<Rightarrow> 's) \<Rightarrow> ('s \<Rightarrow> 't \<Rightarrow> 't) \<Rightarrow> ('s, 'e, 'a) io \<Rightarrow> ('t, 'e, 'a) io" where
  "io_within get put m t = (case m (get t) of (r, s) \<Rightarrow> (r, put s t))"

subsection \<open>Connecting\<close>

definition check_server_key :: "('k \<Rightarrow> string) \<Rightarrow> ('k, ext_error) key_check" where
  "check_server_key fingerprint server_public_key cell =
     (let fp = fingerprint server_public_key in (Inr True, Some fp))"

definition connect :: "('s, 'h, 'c, 'k, 'sk) russh \<Rightarrow> ssh_target \<Rightarrow> ('s, anyhow, 'h \<times> string option) io" where
  "connect R target =
     io_bind
       (with_context (''ssh connect '' @ st_host target @ '':'' @ word_display (st_port target))
          (client_connect R (st_host target) (st_port target) (check_server_key (key_fingerprint R)) None))
       (\<lambda>(handle, fp). io_return (handle, fp))"

record ('h, 'c) ssh_session =
  ss_channel :: 'c
  ss_handle :: 'h
  ss_fingerprint :: "string option"

definition finish_open ::
  "('s, 'h, 'c, 'k, 'sk) russh \<Rightarrow> 'h \<Rightarrow> string option \<Rightarrow> u32 \<Rightarrow> u32 \<Rightarrow> ('s, anyhow, ('h, 'c) ssh_session) io" where
  "finish_open R handle fp cols rows =
     io_bind (with_context ''open session'' (channel_open_session R handle)) (\<lambda>channel.
     io_bind (with_context ''request pty'' (request_pty R channel False ''xterm-256color'' cols rows 0 0 [])) (\<lambda>_.
     io_bind (with_context ''request shell'' (request_shell R channel False)) (\<lambda>_.
     io_return \<lparr>ss_channel = channel, ss_handle = handle, ss_fingerprint = fp\<rparr>)))"

subsection \<open>Opening with a credential the gateway holds\<close>

definition ssh_authenticate ::
  "('s, 'h, 'c, 'k, 'sk) russh \<Rightarrow> 'h \<Rightarrow> ssh_target \<Rightarrow> auth \<Rightarrow> ('s, anyhow, bool) io" where
  "ssh_authenticate R handle target auth =
     (case auth of
        Auth_Password password \<Rightarrow>
          with_context ''password auth'' (authenticate_password R handle (st_user target) password)
      | Auth_PrivateKey pem passphrase \<Rightarrow>
          io_bind (with_context ''decode private key'' (io_pure (decode_secret_key R pem passphrase))) (\<lambda>key.
            with_context ''publickey auth'' (authenticate_publickey R handle (st_user target) key)))"

definition ssh_open ::
  "('s, 'h, 'c, 'k, 'sk) russh \<Rightarrow> ssh_target \<Rightarrow> auth \<Rightarrow> u32 \<Rightarrow> u32 \<Rightarrow> ('s, anyhow, ('h, 'c) ssh_session) io" where
  "ssh_open R target auth cols rows =
     io_bind (connect R target) (\<lambda>(handle, fp).
     io_bind (ssh_authenticate R handle target auth) (\<lambda>ok.
       if \<not> ok then io_fail (Msg (''authentication failed for '' @ st_user target))
       else finish_open R handle fp cols rows))"

subsection \<open>Opening by delegated signing\<close>

type_synonym 't remote_signer = "string \<Rightarrow> string option \<Rightarrow> bytes \<Rightarrow> ('t, remote_signer_error, bytes) io"

definition auth_publickey_sign ::
  "('k \<Rightarrow> ext_error + string) \<Rightarrow> 't remote_signer \<Rightarrow> 'k \<Rightarrow> hash_alg option \<Rightarrow> bytes \<Rightarrow> ('t, signer_error, bytes) io" where
  "auth_publickey_sign openssh_of sign key hash_alg to_sign =
     io_bind (io_map_err Signer_Key (io_pure (openssh_of key))) (\<lambda>openssh.
       let algorithm = map_option hash_alg_name hash_alg
       in io_map_err Signer_Remote (sign openssh algorithm to_sign))"

text \<open>The dialogue of the library with the signer.\<close>

primrec run_auth ::
  "('t \<Rightarrow> 's) \<Rightarrow> ('s \<Rightarrow> 't \<Rightarrow> 't) \<Rightarrow> ('k \<Rightarrow> hash_alg option \<Rightarrow> bytes \<Rightarrow> ('t, signer_error, bytes) io) \<Rightarrow>
   ('k, 's) auth_run \<Rightarrow> ('t, signer_error, bool) io" where
  "run_auth get put signer (Finish m) = io_within get put m"
| "run_auth get put signer (Challenge key alg to_sign continue) =
     io_case (signer key alg to_sign) (\<lambda>r. run_auth get put signer (continue r))"

definition ssh_open_delegated ::
  "('t \<Rightarrow> 's) \<Rightarrow> ('s \<Rightarrow> 't \<Rightarrow> 't) \<Rightarrow> ('s, 'h, 'c, 'k, 'sk) russh \<Rightarrow> ssh_target \<Rightarrow> string \<Rightarrow> 't remote_signer \<Rightarrow>
   u32 \<Rightarrow> u32 \<Rightarrow> ('t, anyhow, ('h, 'c) ssh_session) io" where
  "ssh_open_delegated get put R target public_key_openssh sign cols rows =
     io_bind (io_within get put (connect R target)) (\<lambda>(handle, fp).
     io_bind (with_context ''parse delegated public key'' (io_pure (from_openssh R public_key_openssh))) (\<lambda>public_key.
     io_bind
       (io_map_err (\<lambda>e. Msg (''delegated auth: '' @ signer_display e))
         (\<lambda>t. run_auth get put (auth_publickey_sign (to_openssh R) sign)
            (authenticate_publickey_with R handle (st_user target) public_key None (get t)) t)) (\<lambda>ok.
       if \<not> ok then io_fail (Msg (''delegated authentication failed for '' @ st_user target))
       else io_within get put (finish_open R handle fp cols rows))))"

subsection \<open>The session actor\<close>

text \<open>
  One turn of the loop: the pending resize is applied, then \<open>select!\<close> yields a message of the
  channel or a command from the input queue. An event carries what was received and whether the
  call that handles it (\<open>output_tx.send\<close>, \<open>write_all\<close>) succeeds. \<open>calls\<close> and \<open>emitted\<close> record the
  calls made on the channel and the chunks put on the output queue.
\<close>

datatype channel_msg = CM_Data bytes | CM_ExtendedData u32 bytes | CM_Eof | CM_Close | CM_Other

datatype actor_event = From_channel "channel_msg option" bool | From_input "ssh_input option" bool

datatype channel_call = Window_change u32 u32 u32 u32 | Write_all bytes | Flush

record actor =
  pending_resize :: "(u32 \<times> u32) option"
  calls :: "channel_call list"
  emitted :: "bytes list"
  running :: bool

definition actor_new :: actor where
  "actor_new = \<lparr>pending_resize = None, calls = [], emitted = [], running = True\<rparr>"

definition apply_resize :: "actor \<Rightarrow> actor" where
  "apply_resize a =
     (case pending_resize a of
        None \<Rightarrow> a
      | Some (cols, rows) \<Rightarrow> a\<lparr>pending_resize := None, calls := calls a @ [Window_change cols rows 0 0]\<rparr>)"

definition emit :: "bytes \<Rightarrow> bool \<Rightarrow> actor \<Rightarrow> actor" where
  "emit data sent a = (if sent then a\<lparr>emitted := emitted a @ [data]\<rparr> else a\<lparr>running := False\<rparr>)"

fun actor_select :: "actor_event \<Rightarrow> actor \<Rightarrow> actor" where
  "actor_select (From_channel (Some (CM_Data data)) sent) a = emit data sent a"
| "actor_select (From_channel (Some (CM_ExtendedData _ data)) sent) a = emit data sent a"
| "actor_select (From_channel (Some CM_Eof) _) a = a\<lparr>running := False\<rparr>"
| "actor_select (From_channel (Some CM_Close) _) a = a\<lparr>running := False\<rparr>"
| "actor_select (From_channel None _) a = a\<lparr>running := False\<rparr>"
| "actor_select (From_channel (Some CM_Other) _) a = a"
| "actor_select (From_input (Some (In_Data bs)) written) a =
     (if \<not> written then a\<lparr>calls := calls a @ [Write_all bs], running := False\<rparr>
      else a\<lparr>calls := calls a @ [Write_all bs, Flush]\<rparr>)"
| "actor_select (From_input (Some (In_Resize cols rows)) _) a = a\<lparr>pending_resize := Some (cols, rows)\<rparr>"
| "actor_select (From_input None _) a = a\<lparr>running := False\<rparr>"

fun actor_run :: "actor_event list \<Rightarrow> actor \<Rightarrow> actor" where
  "actor_run [] a = a"
| "actor_run (e # es) a = (if running a then actor_run es (actor_select e (apply_resize a)) else a)"

text \<open>What the actor is to do with an input, an output and an end, one event at a time.\<close>

fun event_calls :: "actor_event \<Rightarrow> channel_call list" where
  "event_calls (From_input (Some (In_Data bs)) written) = (if written then [Write_all bs, Flush] else [Write_all bs])"
| "event_calls (From_input (Some (In_Resize cols rows)) _) = [Window_change cols rows 0 0]"
| "event_calls _ = []"

fun event_output :: "actor_event \<Rightarrow> bytes list" where
  "event_output (From_channel (Some (CM_Data data)) sent) = (if sent then [data] else [])"
| "event_output (From_channel (Some (CM_ExtendedData _ data)) sent) = (if sent then [data] else [])"
| "event_output _ = []"

fun ends_session :: "actor_event \<Rightarrow> bool" where
  "ends_session (From_channel m sent) =
     (case m of Some (CM_Data _) \<Rightarrow> \<not> sent | Some (CM_ExtendedData _ _) \<Rightarrow> \<not> sent | Some CM_Other \<Rightarrow> False | _ \<Rightarrow> True)"
| "ends_session (From_input c written) =
     (case c of Some (In_Data _) \<Rightarrow> \<not> written | Some (In_Resize _ _) \<Rightarrow> False | None \<Rightarrow> True)"

text \<open>The events the actor handles: up to the first that ends the session, included.\<close>

fun handled :: "actor_event list \<Rightarrow> actor_event list" where
  "handled [] = []"
| "handled (e # es) = e # (if ends_session e then [] else handled es)"

definition unapplied :: "actor \<Rightarrow> channel_call list" where
  "unapplied a = (case pending_resize a of None \<Rightarrow> [] | Some (cols, rows) \<Rightarrow> [Window_change cols rows 0 0])"

lemma apply_resize_fields [simp]:
  "calls (apply_resize a) = calls a @ unapplied a" "pending_resize (apply_resize a) = None"
  "emitted (apply_resize a) = emitted a" "running (apply_resize a) = running a"
  by (auto simp: apply_resize_def unapplied_def split: option.splits)

lemma actor_select_fields:
  assumes "pending_resize a = None" and "running a"
  shows "calls (actor_select e a) @ unapplied (actor_select e a) = calls a @ event_calls e"
    and "emitted (actor_select e a) = emitted a @ event_output e"
    and "running (actor_select e a) \<longleftrightarrow> \<not> ends_session e"
    and "pending_resize (actor_select e a) \<noteq> None \<longleftrightarrow> (\<exists>c r w. e = From_input (Some (In_Resize c r)) w)"
  using assms by (cases "(e, a)" rule: actor_select.cases; simp add: emit_def unapplied_def)+

lemma actor_run_handled:
  "running a \<Longrightarrow>
     calls (actor_run es a) @ unapplied (actor_run es a) = calls a @ unapplied a @ concat (map event_calls (handled es)) \<and>
     emitted (actor_run es a) = emitted a @ concat (map event_output (handled es)) \<and>
     (running (actor_run es a) \<longleftrightarrow> \<not> list_ex ends_session es)"
proof (induction es arbitrary: a)
  case (Cons e es)
  let ?a = "actor_select e (apply_resize a)"
  from Cons.prems have step: "calls ?a @ unapplied ?a = calls a @ unapplied a @ event_calls e"
      "emitted ?a = emitted a @ event_output e" "running ?a \<longleftrightarrow> \<not> ends_session e"
    using actor_select_fields [of "apply_resize a" e] by simp_all
  show ?case
  proof (cases "ends_session e")
    case True
    with step have "actor_run es ?a = ?a" by (cases es) simp_all
    with True step Cons.prems show ?thesis by simp
  next
    case False
    with Cons.IH [of ?a] step Cons.prems show ?thesis by (simp flip: append_assoc)
  qed
qed simp

subsection \<open>Authentication comes before the shell\<close>

definition same_but_channel :: "('s, 'h, 'c, 'k, 'sk) russh \<Rightarrow> ('s, 'h, 'c, 'k, 'sk) russh \<Rightarrow> bool" where
  "same_but_channel R Q \<longleftrightarrow>
     client_connect R = client_connect Q \<and> key_fingerprint R = key_fingerprint Q \<and>
     to_openssh R = to_openssh Q \<and> from_openssh R = from_openssh Q \<and>
     decode_secret_key R = decode_secret_key Q \<and> authenticate_password R = authenticate_password Q \<and>
     authenticate_publickey R = authenticate_publickey Q \<and>
     authenticate_publickey_with R = authenticate_publickey_with Q"

primrec never_accepts :: "('k, 's) auth_run \<Rightarrow> bool" where
  "never_accepts (Finish m) \<longleftrightarrow> (\<forall>s. fst (m s) \<noteq> Inr True)"
| "never_accepts (Challenge key alg to_sign continue) \<longleftrightarrow> (\<forall>r. never_accepts (continue r))"

definition refuses_all :: "('s, 'h, 'c, 'k, 'sk) russh \<Rightarrow> bool" where
  "refuses_all R \<longleftrightarrow>
     (\<forall>h u p s. fst (authenticate_password R h u p s) \<noteq> Inr True) \<and>
     (\<forall>h u k s. fst (authenticate_publickey R h u k s) \<noteq> Inr True) \<and>
     (\<forall>h u k a s. never_accepts (authenticate_publickey_with R h u k a s))"

lemma connect_same: "same_but_channel R Q \<Longrightarrow> connect R = connect Q"
  unfolding connect_def same_but_channel_def by (rule ext) simp

lemma ssh_authenticate_same: "same_but_channel R Q \<Longrightarrow> ssh_authenticate R h t a = ssh_authenticate Q h t a"
  by (cases a) (auto simp: ssh_authenticate_def same_but_channel_def)

lemma ssh_authenticate_refused: "refuses_all R \<Longrightarrow> ssh_authenticate R h target a s \<noteq> (Inr True, s')"
  by (cases a) (auto simp: ssh_authenticate_def refuses_all_def with_context_def io_map_err_Inr io_bind_apply
      split: sum.splits prod.splits dest: arg_cong [of _ _ fst])

lemma run_auth_refused: "never_accepts r \<Longrightarrow> run_auth get put signer r t \<noteq> (Inr True, t')"
proof (induction r arbitrary: t)
  case (Finish m)
  then show ?case by (auto simp: io_within_def dest: arg_cong [of _ _ fst] split: prod.splits)
next
  case (Challenge key alg to_sign continue)
  then show ?case by (simp add: io_case_apply split: prod.splits)
qed

lemma delegated_refused:
  "refuses_all R \<Longrightarrow>
     io_map_err f (\<lambda>t. run_auth get put signer (authenticate_publickey_with R h u k None (get t)) t) t = (Inr ok, t') \<Longrightarrow>
     \<not> ok"
  by (auto simp: io_map_err_Inr run_auth_refused refuses_all_def)

subsection \<open>Properties\<close>

text \<open>
  C24 (safety). No shell without authentication: against a target that accepts no credential, neither
  way of opening a session succeeds, and nothing of the channel calls (open a session channel,
  request a terminal, request a shell) is used, for a library that does anything else there gives the
  same result and the same state.
\<close>

theorem no_shell_unauthenticated:
  assumes "refuses_all R" and "same_but_channel R Q"
  shows "isl (fst (ssh_open R target auth cols rows s)) \<and>
    ssh_open Q target auth cols rows s = ssh_open R target auth cols rows s \<and>
    isl (fst (ssh_open_delegated get put R target pk sign cols rows t)) \<and>
    ssh_open_delegated get put Q target pk sign cols rows t = ssh_open_delegated get put R target pk sign cols rows t"
proof (intro conjI)
  note same = connect_same [OF assms(2), symmetric] ssh_authenticate_same [OF assms(2), symmetric]
  show "isl (fst (ssh_open R target auth cols rows s))"
    unfolding ssh_open_def using ssh_authenticate_refused [OF assms(1)]
    by (auto intro!: io_bind_islI split: prod.splits)
  show "ssh_open Q target auth cols rows s = ssh_open R target auth cols rows s"
    unfolding ssh_open_def same using ssh_authenticate_refused [OF assms(1)]
    by (auto intro!: io_bind_eqI split: prod.splits)
  show "isl (fst (ssh_open_delegated get put R target pk sign cols rows t))"
    unfolding ssh_open_delegated_def
    by (auto intro!: io_bind_islI dest!: delegated_refused [OF assms(1)] split: prod.splits)
  have "to_openssh Q = to_openssh R" "from_openssh Q = from_openssh R"
    "authenticate_publickey_with Q = authenticate_publickey_with R"
    using assms(2) by (simp_all add: same_but_channel_def)
  then show "ssh_open_delegated get put Q target pk sign cols rows t =
      ssh_open_delegated get put R target pk sign cols rows t"
    unfolding ssh_open_delegated_def same
    by (auto intro!: io_bind_eqI dest!: delegated_refused [OF assms(1)] split: prod.splits)
qed

definition demo_russh :: "('s, nat, nat, string, string) russh" where
  "demo_russh =
     \<lparr>client_connect = (\<lambda>host port check cell s. (Inr (7, snd (check ''K'' cell)), s)),
      key_fingerprint = (\<lambda>k. ''SHA256:'' @ k), to_openssh = Inr, from_openssh = Inr,
      decode_secret_key = (\<lambda>pem pass. Inr pem),
      authenticate_password = (\<lambda>h u pw s. (Inr (pw = ''open''), s)),
      authenticate_publickey = (\<lambda>h u k s. (Inr False, s)),
      authenticate_publickey_with =
        (\<lambda>h u k alg s. Challenge k alg [1, 2] (\<lambda>r. Finish (\<lambda>s. (map_sum id (\<lambda>sig. sig = [9]) r, s)))),
      channel_open_session = (\<lambda>h s. (Inr 3, s)),
      request_pty = (\<lambda>c w term cols rows x y modes s. (Inr (), s)),
      request_shell = (\<lambda>c w s. (Inr (), s))\<rparr>"

definition closed_russh :: "('s, nat, nat, string, string) russh" where
  "closed_russh = demo_russh\<lparr>authenticate_password := (\<lambda>h u pw s. (Inr False, s)),
     authenticate_publickey_with := (\<lambda>h u k alg s. Finish (\<lambda>s. (Inr False, s)))\<rparr>"

theorem no_shell_unauthenticated_witness:
  "isl (fst (ssh_open closed_russh \<lparr>st_host = ''h'', st_port = 22, st_user = ''u''\<rparr> (Auth_Password ''open'') 80 24 (0 :: nat))) \<and>
   \<not> isl (fst (ssh_open demo_russh \<lparr>st_host = ''h'', st_port = 22, st_user = ''u''\<rparr> (Auth_Password ''open'') 80 24 (0 :: nat)))"
proof -
  have r: "refuses_all closed_russh" by (simp add: refuses_all_def closed_russh_def demo_russh_def)
  have c: "same_but_channel closed_russh closed_russh" by (simp add: same_but_channel_def)
  have "\<not> isl (fst (ssh_open demo_russh \<lparr>st_host = ''h'', st_port = 22, st_user = ''u''\<rparr> (Auth_Password ''open'') 80 24 (0 :: nat)))"
    by (simp add: ssh_open_def connect_def ssh_authenticate_def finish_open_def with_context_def io_apply demo_russh_def)
  then show ?thesis by (intro conjI no_shell_unauthenticated [OF r c, THEN conjunct1])
qed

text \<open>
  The actor applies the client's input in the order it was queued: the calls it has
  made on the channel, followed by the resize it still has to apply at the top of its next turn, are
  the concatenation of one call sequence per handled input (write and flush for data, one window
  change for a resize). No input is dropped, duplicated or reordered before the session ends, and at
  most the very last input is not applied yet.
\<close>

lemma actor_applies_input_in_order:
  "calls (actor_run es actor_new) @ unapplied (actor_run es actor_new) =
     concat (map event_calls (handled es))"
  using actor_run_handled [of actor_new es] by (simp add: actor_new_def unapplied_def)

text \<open>
  The actor forwards the target's output (standard output and extended data alike)
  to the output queue in order and completely until the session ends, and it runs until the first
  event that ends the session: end of file or close from the target, a closed queue on either side,
  or a failed write.
\<close>

lemma actor_forwards_output:
  "emitted (actor_run es actor_new) = concat (map event_output (handled es)) \<and>
   (running (actor_run es actor_new) \<longleftrightarrow> \<not> list_ex ends_session es)"
  using actor_run_handled [of actor_new es] by (simp add: actor_new_def)

end
