(* ===== verification/Gateway_Pipeline.thy ===== *)
theory Gateway_Pipeline
  imports Core_Session Ssh_Client
begin

text \<open>
  One session end to end: the SSH actor (\<open>SshSession::spawn\<close>, \<open>gw-ssh/src/lib.rs\<close>), its two bounded
  queues, the ingest task and the readers of the attached clients (\<open>gw-core/src/lib.rs\<close>), running
  concurrently. A step is one action of one task; the tasks' own operations are those of \<open>Ssh_Client\<close>
  and \<open>Core_Session\<close>. A full output queue holds the actor back: it waits in \<open>output_tx.send\<close> with the
  chunk in its hand (\<open>pp_held\<close>) and takes neither messages nor input meanwhile.

  The queues are tokio's \<open>mpsc\<close> channels, so their operations are parameters; \<open>mpsc_ok\<close> states the
  documented behaviour used: first in, first out, a send waits exactly while the channel is full, a
  receive exactly while it is empty. What the target sends is a label of the steps, in the order in
  which the SSH library's \<open>wait\<close> returns it. The input queue is never seen closed here: its sender
  belongs to the session, which the ingest task holds (\<open>Gateway_Ownership\<close>); and the ingest task holds
  the output queue's receiver until the actor is gone, so a send on it does not fail.

  The properties: whatever the interleaving, the concurrent tasks compute what the sequential models
  compute; every client receives the output in order and all of its last \<open>max_bytes\<close> bytes; input reaches
  the target in order; and when the outside is silent the tasks come to rest after a bounded number of
  steps, in a state where nothing is left on the way.
\<close>

subsection \<open>Bounded channels\<close>

record ('q, 'a) mpsc =
  ch_new :: "nat \<Rightarrow> 'q"
  ch_send :: "'a \<Rightarrow> 'q \<Rightarrow> 'q option"       \<comment> \<open>\<open>None\<close>: full, the sender waits\<close>
  ch_recv :: "'q \<Rightarrow> ('a \<times> 'q) option"       \<comment> \<open>\<open>None\<close>: empty, the receiver waits\<close>

record ('q, 'a) mpsc_view =
  ch_cap :: "'q \<Rightarrow> nat"
  ch_queue :: "'q \<Rightarrow> 'a list"

definition mpsc_ok :: "('q, 'a) mpsc \<Rightarrow> ('q, 'a) mpsc_view \<Rightarrow> bool" where
  "mpsc_ok C V \<longleftrightarrow>
     (\<forall>n. ch_cap V (ch_new C n) = n \<and> ch_queue V (ch_new C n) = []) \<and>
     (\<forall>x q. case ch_send C x q of
        None \<Rightarrow> ch_cap V q \<le> length (ch_queue V q)
      | Some q' \<Rightarrow> length (ch_queue V q) < ch_cap V q \<and> ch_queue V q' = ch_queue V q @ [x] \<and> ch_cap V q' = ch_cap V q) \<and>
     (\<forall>q. case ch_recv C q of
        None \<Rightarrow> ch_queue V q = []
      | Some (x, q') \<Rightarrow> ch_queue V q = x # ch_queue V q' \<and> ch_cap V q' = ch_cap V q)"

lemma mpsc_okD:
  assumes "mpsc_ok C V"
  shows "ch_cap V (ch_new C n) = n" "ch_queue V (ch_new C n) = []"
    and "ch_send C x q = Some q' \<Longrightarrow>
      length (ch_queue V q) < ch_cap V q \<and> ch_queue V q' = ch_queue V q @ [x] \<and> ch_cap V q' = ch_cap V q"
    and "ch_send C x q = None \<Longrightarrow> ch_cap V q \<le> length (ch_queue V q)"
    and "ch_recv C q = Some (x, q') \<Longrightarrow> ch_queue V q = x # ch_queue V q' \<and> ch_cap V q' = ch_cap V q"
    and "ch_recv C q = None \<Longrightarrow> ch_queue V q = []"
proof -
  note ok = assms [unfolded mpsc_ok_def]
  show "ch_cap V (ch_new C n) = n" "ch_queue V (ch_new C n) = []" using ok by blast+
  from ok have "case ch_send C x q of None \<Rightarrow> ch_cap V q \<le> length (ch_queue V q)
      | Some q' \<Rightarrow> length (ch_queue V q) < ch_cap V q \<and> ch_queue V q' = ch_queue V q @ [x] \<and> ch_cap V q' = ch_cap V q"
    by blast
  then show "ch_send C x q = Some q' \<Longrightarrow>
      length (ch_queue V q) < ch_cap V q \<and> ch_queue V q' = ch_queue V q @ [x] \<and> ch_cap V q' = ch_cap V q"
    and "ch_send C x q = None \<Longrightarrow> ch_cap V q \<le> length (ch_queue V q)" by auto
  from ok have "case ch_recv C q of None \<Rightarrow> ch_queue V q = []
      | Some (x, q') \<Rightarrow> ch_queue V q = x # ch_queue V q' \<and> ch_cap V q' = ch_cap V q" by blast
  then show "ch_recv C q = Some (x, q') \<Longrightarrow> ch_queue V q = x # ch_queue V q' \<and> ch_cap V q' = ch_cap V q"
    and "ch_recv C q = None \<Longrightarrow> ch_queue V q = []" by auto
qed

subsection \<open>Spawning\<close>

definition INPUT_QUEUE :: nat where
  "INPUT_QUEUE = 64"

definition OUTPUT_QUEUE :: nat where
  "OUTPUT_QUEUE = 256"

record ('i, 'o) ssh_handle =
  sh_input :: 'i
  sh_output :: 'o
  sh_fingerprint :: "string option"

definition ssh_spawn ::
  "('i, ssh_input) mpsc \<Rightarrow> ('o, bytes) mpsc \<Rightarrow> ('h, 'c) ssh_session \<Rightarrow> actor \<times> ('i, 'o) ssh_handle" where
  "ssh_spawn C D ssh =
     (actor_new, \<lparr>sh_input = ch_new C INPUT_QUEUE, sh_output = ch_new D OUTPUT_QUEUE, sh_fingerprint = ss_fingerprint ssh\<rparr>)"

record session_view =
  sv_cursor :: cursor
  sv_chunks :: "bytes list"      \<comment> \<open>what \<open>next\<close> has returned so far\<close>
  sv_ended :: bool               \<comment> \<open>\<open>next\<close> has returned \<open>None\<close>\<close>

record ('i, 'o) pipe =
  pp_actor :: actor
  pp_held :: "bytes option"
  pp_input :: 'i
  pp_output :: 'o
  pp_inner :: session_inner
  pp_views :: "session_view list"

definition pipe_new ::
  "('i, ssh_input) mpsc \<Rightarrow> ('o, bytes) mpsc \<Rightarrow> ('h, 'c) ssh_session \<Rightarrow> session_id \<Rightarrow> bytes \<Rightarrow> nat \<Rightarrow> ('i, 'o) pipe" where
  "pipe_new C D ssh sid token maxb =
     (case ssh_spawn C D ssh of
        (a, h) \<Rightarrow> \<lparr>pp_actor = a, pp_held = None, pp_input = sh_input h, pp_output = sh_output h,
           pp_inner = sess_inner (session_spawn sid token (sh_fingerprint h) maxb), pp_views = []\<rparr>)"

subsection \<open>Steps\<close>

text \<open>
  \<open>Actor_message\<close>, \<open>Actor_sends\<close> and \<open>Actor_input\<close> are the actor's: \<open>wait\<close> returned a message; the chunk in
  hand enters the output queue; an input was received (and written or not). \<open>Ingest_turn\<close> is the ingest
  task's. \<open>Attach\<close> is \<open>Session::reader\<close> of a client, \<open>Next i\<close> a completed \<open>next\<close> of the i-th one (a call that
  waits is no step), \<open>Client_input\<close> a \<open>send_input\<close>.
\<close>

datatype pipe_event =
  Actor_message "channel_msg option"
| Actor_sends
| Actor_input ssh_input bool
| Ingest_turn
| Attach
| Next nat
| Client_input ssh_input

fun message_data :: "channel_msg option \<Rightarrow> bytes option" where
  "message_data (Some (CM_Data data)) = Some data"
| "message_data (Some (CM_ExtendedData _ data)) = Some data"
| "message_data _ = None"

definition actor_message :: "channel_msg option \<Rightarrow> ('i, 'o) pipe \<Rightarrow> ('i, 'o) pipe" where
  "actor_message m s =
     (let a = apply_resize (pp_actor s)
      in case message_data m of
           Some data \<Rightarrow> s\<lparr>pp_actor := a, pp_held := Some data\<rparr>
         | None \<Rightarrow> s\<lparr>pp_actor := actor_select (From_channel m True) a\<rparr>)"

definition actor_sends :: "('o, bytes) mpsc \<Rightarrow> ('i, 'o) pipe \<Rightarrow> ('i, 'o) pipe option" where
  "actor_sends D s =
     (case pp_held s of
        None \<Rightarrow> None
      | Some data \<Rightarrow>
          (case ch_send D data (pp_output s) of
             None \<Rightarrow> None
           | Some q \<Rightarrow> Some (s\<lparr>pp_actor := emit data True (pp_actor s), pp_held := None, pp_output := q\<rparr>)))"

definition actor_input :: "('i, ssh_input) mpsc \<Rightarrow> ssh_input \<Rightarrow> bool \<Rightarrow> ('i, 'o) pipe \<Rightarrow> ('i, 'o) pipe option" where
  "actor_input C inp written s =
     (case ch_recv C (pp_input s) of
        None \<Rightarrow> None
      | Some (x, q) \<Rightarrow>
          if x = inp
          then Some (s\<lparr>pp_actor := actor_select (From_input (Some inp) written) (apply_resize (pp_actor s)), pp_input := q\<rparr>)
          else None)"

text \<open>
  One turn of the ingest task: a chunk is appended; an empty queue whose sender is gone (the actor has
  ended) ends the task, which marks the session closed.
\<close>

definition ingest_turn :: "('o, bytes) mpsc \<Rightarrow> ('i, 'o) pipe \<Rightarrow> ('i, 'o) pipe option" where
  "ingest_turn D s =
     (case ch_recv D (pp_output s) of
        Some (data, q) \<Rightarrow> Some (s\<lparr>pp_inner := session_append (pp_inner s) data, pp_output := q\<rparr>)
      | None \<Rightarrow>
          if running (pp_actor s) \<or> closed (pp_inner s) then None
          else Some (s\<lparr>pp_inner := (pp_inner s)\<lparr>closed := True\<rparr>\<rparr>))"

definition view_next :: "session_inner \<Rightarrow> session_view \<Rightarrow> session_view option" where
  "view_next inner v =
     (if sv_ended v then None
      else case reader_poll inner (sv_cursor v) of
             (Chunk b, c) \<Rightarrow> Some (v\<lparr>sv_cursor := c, sv_chunks := sv_chunks v @ [b]\<rparr>)
           | (Ended, c) \<Rightarrow> Some (v\<lparr>sv_cursor := c, sv_ended := True\<rparr>)
           | (_, c) \<Rightarrow> None)"

definition client_input :: "('i, ssh_input) mpsc \<Rightarrow> ssh_input \<Rightarrow> ('i, 'o) pipe \<Rightarrow> ('i, 'o) pipe option" where
  "client_input C inp s =
     (if \<not> running (pp_actor s) then Some s
      else case ch_send C inp (pp_input s) of None \<Rightarrow> None | Some q \<Rightarrow> Some (s\<lparr>pp_input := q\<rparr>))"

fun pipe_step ::
  "('i, ssh_input) mpsc \<Rightarrow> ('o, bytes) mpsc \<Rightarrow> pipe_event \<Rightarrow> ('i, 'o) pipe \<Rightarrow> ('i, 'o) pipe option" where
  "pipe_step C D (Actor_message m) s =
     (if running (pp_actor s) \<and> pp_held s = None then Some (actor_message m s) else None)"
| "pipe_step C D Actor_sends s = actor_sends D s"
| "pipe_step C D (Actor_input inp written) s =
     (if running (pp_actor s) \<and> pp_held s = None then actor_input C inp written s else None)"
| "pipe_step C D Ingest_turn s = ingest_turn D s"
| "pipe_step C D Attach s = Some (s\<lparr>pp_views := pp_views s @ [\<lparr>sv_cursor = 0, sv_chunks = [], sv_ended = False\<rparr>]\<rparr>)"
| "pipe_step C D (Next i) s =
     (if i < length (pp_views s)
      then map_option (\<lambda>v. s\<lparr>pp_views := (pp_views s)[i := v]\<rparr>) (view_next (pp_inner s) (pp_views s ! i))
      else None)"
| "pipe_step C D (Client_input inp) s = client_input C inp s"

fun pipe_run ::
  "('i, ssh_input) mpsc \<Rightarrow> ('o, bytes) mpsc \<Rightarrow> pipe_event list \<Rightarrow> ('i, 'o) pipe \<Rightarrow> ('i, 'o) pipe option" where
  "pipe_run C D [] s = Some s"
| "pipe_run C D (e # es) s = (case pipe_step C D e s of None \<Rightarrow> None | Some t \<Rightarrow> pipe_run C D es t)"

lemma pipe_run_append:
  "pipe_run C D (es @ fs) s = (case pipe_run C D es s of None \<Rightarrow> None | Some t \<Rightarrow> pipe_run C D fs t)"
  by (induction es arbitrary: s) (auto split: option.splits)

lemma pipe_run_snoc:
  "pipe_run C D (es @ [e]) s = Some u \<longleftrightarrow> (\<exists>t. pipe_run C D es s = Some t \<and> pipe_step C D e t = Some u)"
  by (auto simp: pipe_run_append split: option.splits)

text \<open>An invariant of the steps holds along every run.\<close>

lemma pipe_run_invariant:
  assumes "pipe_run C D es s = Some t" and "P [] s"
    and "\<And>es s e t. P es s \<Longrightarrow> pipe_step C D e s = Some t \<Longrightarrow> P (es @ [e]) t"
  shows "P es t"
  using assms(1)
proof (induction es arbitrary: t rule: rev_induct)
  case (snoc e es)
  then show ?case using assms(3) by (auto simp: pipe_run_snoc)
qed (simp add: assms(2))

text \<open>The cases of a step, by what it changes.\<close>

lemma pipe_step_cases:
  assumes "pipe_step C D e s = Some t"
  obtains (message) m where "e = Actor_message m" "running (pp_actor s)" "pp_held s = None" "t = actor_message m s"
  | (sends) data q where "e = Actor_sends" "pp_held s = Some data" "ch_send D data (pp_output s) = Some q"
      "t = s\<lparr>pp_actor := emit data True (pp_actor s), pp_held := None, pp_output := q\<rparr>"
  | (input) inp w q where "e = Actor_input inp w" "running (pp_actor s)" "pp_held s = None"
      "ch_recv C (pp_input s) = Some (inp, q)"
      "t = s\<lparr>pp_actor := actor_select (From_input (Some inp) w) (apply_resize (pp_actor s)), pp_input := q\<rparr>"
  | (ingest) data q where "e = Ingest_turn" "ch_recv D (pp_output s) = Some (data, q)"
      "t = s\<lparr>pp_inner := session_append (pp_inner s) data, pp_output := q\<rparr>"
  | (close) "e = Ingest_turn" "ch_recv D (pp_output s) = None" "\<not> running (pp_actor s)" "\<not> closed (pp_inner s)"
      "t = s\<lparr>pp_inner := (pp_inner s)\<lparr>closed := True\<rparr>\<rparr>"
  | (attach) "e = Attach" "t = s\<lparr>pp_views := pp_views s @ [\<lparr>sv_cursor = 0, sv_chunks = [], sv_ended = False\<rparr>]\<rparr>"
  | (view) i v where "e = Next i" "i < length (pp_views s)" "view_next (pp_inner s) (pp_views s ! i) = Some v"
      "t = s\<lparr>pp_views := (pp_views s)[i := v]\<rparr>"
  | (refused) inp where "e = Client_input inp" "\<not> running (pp_actor s)" "t = s"
  | (queued) inp q where "e = Client_input inp" "running (pp_actor s)" "ch_send C inp (pp_input s) = Some q"
      "t = s\<lparr>pp_input := q\<rparr>"
proof (cases e)
  case Ingest_turn
  with assms show thesis
    by (auto simp: ingest_turn_def split: option.splits if_splits intro: ingest close)
next
  case (Client_input inp)
  with assms show thesis
    by (auto simp: client_input_def split: option.splits if_splits intro: refused queued)
qed (use assms in \<open>auto simp: actor_sends_def actor_input_def split: option.splits if_splits
      intro: message sends input attach view\<close>)

subsection \<open>The actor in the pipeline\<close>

text \<open>
  What the steps of the actor amount to as events of the sequential model of it, and its state when a
  chunk in hand is counted as sent.
\<close>

fun actor_trace :: "pipe_event list \<Rightarrow> actor_event list" where
  "actor_trace [] = []"
| "actor_trace (Actor_message m # es) = From_channel m True # actor_trace es"
| "actor_trace (Actor_input inp w # es) = From_input (Some inp) w # actor_trace es"
| "actor_trace (_ # es) = actor_trace es"

lemma actor_trace_append [simp]: "actor_trace (es @ fs) = actor_trace es @ actor_trace fs"
  by (induction es rule: actor_trace.induct) simp_all

definition settled :: "('i, 'o) pipe \<Rightarrow> actor" where
  "settled s = (case pp_held s of None \<Rightarrow> pp_actor s | Some data \<Rightarrow> emit data True (pp_actor s))"

lemma actor_run_append [simp]: "actor_run (es @ fs) a = actor_run fs (actor_run es a)"
proof (induction es arbitrary: a)
  case (Cons e es)
  have "\<not> running b \<Longrightarrow> actor_run fs b = b" for b by (cases fs) simp_all
  with Cons show ?case by simp
qed simp

lemma emit_fields [simp]:
  "running (emit d True a) = running a" "emitted (emit d True a) = emitted a @ [d]" "calls (emit d True a) = calls a"
  "pending_resize (emit d True a) = pending_resize a"
  by (simp_all add: emit_def)

lemma actor_select_data: "message_data m = Some d \<Longrightarrow> actor_select (From_channel m True) a = emit d True a"
  by (cases m rule: message_data.cases) simp_all

lemma actor_select_other:
  "message_data m = None \<Longrightarrow> emitted (actor_select (From_channel m True) a) = emitted a"
  by (cases m rule: message_data.cases) simp_all

lemma actor_select_input: "emitted (actor_select (From_input inp w) a) = emitted a"
  by (cases "(From_input inp w, a)" rule: actor_select.cases) simp_all

definition actor_follows :: "pipe_event list \<Rightarrow> ('i, 'o) pipe \<Rightarrow> bool" where
  "actor_follows es s \<longleftrightarrow>
     settled s = actor_run (actor_trace es) actor_new \<and> (pp_held s \<noteq> None \<longrightarrow> running (pp_actor s))"

lemma actor_follows_step:
  assumes "actor_follows es s" and "pipe_step C D e s = Some t"
  shows "actor_follows (es @ [e]) t"
  using assms(2)
proof (cases rule: pipe_step_cases)
  case (message m)
  with assms(1) show ?thesis
    by (auto simp: actor_follows_def settled_def actor_message_def Let_def actor_select_data split: option.splits)
qed (use assms(1) in \<open>auto simp: actor_follows_def settled_def split: option.splits\<close>)

lemma actor_follows_run:
  "pipe_run C D es (pipe_new C D ssh sid token m) = Some t \<Longrightarrow> actor_follows es t"
proof (erule pipe_run_invariant [of C D es _ t actor_follows])
  show "actor_follows [] (pipe_new C D ssh sid token m)"
    by (simp add: actor_follows_def settled_def pipe_new_def ssh_spawn_def)
qed (rule actor_follows_step)

subsection \<open>The flow of output\<close>

text \<open>
  The chunks the actor has sent are those ingested, then those in the queue; the buffer is the
  sequential result of the ingested ones; and the session is closed only when nothing can follow.
\<close>

definition output_flow :: "('o, bytes) mpsc_view \<Rightarrow> session_inner \<Rightarrow> ('i, 'o) pipe \<Rightarrow> bytes list \<Rightarrow> bool" where
  "output_flow W i0 s ing \<longleftrightarrow>
     emitted (pp_actor s) = ing @ ch_queue W (pp_output s) \<and>
     pp_inner s = (foldl session_append i0 ing)\<lparr>closed := closed (pp_inner s)\<rparr> \<and>
     (closed (pp_inner s) \<longrightarrow> ch_queue W (pp_output s) = [] \<and> \<not> running (pp_actor s) \<and> pp_held s = None)"

lemma session_append_close: "session_append (s\<lparr>closed := b\<rparr>) d = (session_append s d)\<lparr>closed := b\<rparr>"
  by (simp add: session_append_def Let_def)

lemma ingest_foldl: "ingest s bs = (foldl session_append s bs)\<lparr>closed := True\<rparr>"
  by (induction bs arbitrary: s) simp_all

definition chunk_ingested :: "pipe_event \<Rightarrow> ('o, bytes) mpsc_view \<Rightarrow> ('i, 'o) pipe \<Rightarrow> bytes list" where
  "chunk_ingested e W s = (if e = Ingest_turn then take 1 (ch_queue W (pp_output s)) else [])"

lemma output_flow_step:
  assumes "mpsc_ok D W" and "output_flow W i0 s ing" and "pipe_step C D e s = Some t"
    and "pp_held s \<noteq> None \<longrightarrow> running (pp_actor s)"
  shows "output_flow W i0 t (ing @ chunk_ingested e W s)"
  using assms(3)
proof (cases rule: pipe_step_cases)
  case (message m)
  with assms(2) show ?thesis
    by (auto simp: output_flow_def chunk_ingested_def actor_message_def Let_def actor_select_other split: option.splits)
next
  case (sends data q)
  with mpsc_okD(3) [OF assms(1) sends(3)] assms(2,4) show ?thesis
    by (auto simp: output_flow_def chunk_ingested_def)
next
  case (input inp w q)
  with assms(2) show ?thesis by (auto simp: output_flow_def chunk_ingested_def actor_select_input)
next
  case (ingest data q)
  with mpsc_okD(5) [OF assms(1) ingest(2)] assms(2) show ?thesis
    by (auto simp: output_flow_def chunk_ingested_def session_append_close session_append_fields)
next
  case close
  with mpsc_okD(6) [OF assms(1) close(2)] assms(2,4) show ?thesis
    by (auto simp: output_flow_def chunk_ingested_def)
qed (use assms(2) in \<open>auto simp: output_flow_def chunk_ingested_def\<close>)

subsection \<open>What the clients have read\<close>

text \<open>
  A view against the ingested output \<open>hist\<close>: what it returned is in order and nothing twice, and it
  ends with the part of the last \<open>m\<close> bytes of \<open>hist\<close> that the cursor has passed; a view that has ended has
  passed all of it.
\<close>

definition view_ok :: "bytes \<Rightarrow> nat \<Rightarrow> bool \<Rightarrow> session_view \<Rightarrow> bool" where
  "view_ok hist m over v \<longleftrightarrow>
     unat (sv_cursor v) \<le> length hist \<and>
     subseq (concat (sv_chunks v)) (take (unat (sv_cursor v)) hist) \<and>
     suffix (drop (length hist - m) (take (unat (sv_cursor v)) hist)) (concat (sv_chunks v)) \<and>
     (sv_ended v \<longrightarrow> over \<and> unat (sv_cursor v) = length hist)"

lemma view_ok_new: "view_ok hist m over \<lparr>sv_cursor = 0, sv_chunks = [], sv_ended = False\<rparr>"
  by (simp add: view_ok_def)

lemma view_ok_over: "view_ok hist m over v \<Longrightarrow> view_ok hist m True v"
  by (simp add: view_ok_def)

lemma view_ok_append:
  assumes "view_ok hist m False v"
  shows "view_ok (hist @ d) m over v"
proof -
  let ?c = "unat (sv_cursor v)"
  from assms have c: "?c \<le> length hist" and suf: "suffix (drop (length hist - m) (take ?c hist)) (concat (sv_chunks v))"
    by (simp_all add: view_ok_def)
  have "suffix (drop (length (hist @ d) - m) (take ?c hist)) (drop (length hist - m) (take ?c hist))"
    by (metis diff_le_mono drop_drop le_add1 le_add_diff_inverse2 length_append suffix_drop)
  with suf have "suffix (drop (length (hist @ d) - m) (take ?c hist)) (concat (sv_chunks v))"
    by (rule suffix_order.trans [rotated])
  with assms c show ?thesis by (simp add: view_ok_def)
qed

text \<open>One \<open>next\<close> returns what is unread of the last bytes, or the end.\<close>

lemma view_ok_read:
  fixes hist :: bytes
  assumes "c \<le> length hist" and "subseq xs (take c hist)" and "suffix (drop (length hist - m) (take c hist)) xs"
  shows "subseq (xs @ drop (max c (length hist - m)) hist) hist"
    and "suffix (drop (length hist - m) hist) (xs @ drop (max c (length hist - m)) hist)"
proof -
  let ?p = "max c (length hist - m)"
  have "suffix (drop ?p hist) (drop c hist)" by (metis drop_drop le_add_diff_inverse2 max.cobounded1 suffix_drop)
  then have "subseq (drop ?p hist) (drop c hist)" by (rule suffix_imp_subseq)
  with assms(2) show "subseq (xs @ drop ?p hist) hist"
    by (metis append_take_drop_id list_emb_append_mono)
  have "drop (length hist - m) hist = drop (length hist - m) (take c hist) @ drop ?p hist"
  proof (cases "c \<le> length hist - m")
    case True
    with assms(1) show ?thesis by (simp add: max_absorb2)
  next
    case False
    then have "drop (length hist - m) (take c hist @ drop c hist) = drop (length hist - m) (take c hist) @ drop c hist"
      using assms(1) by (subst drop_append) simp
    with False show ?thesis by (simp add: max_absorb1)
  qed
  with assms(3) show "suffix (drop (length hist - m) hist) (xs @ drop ?p hist)" by simp
qed

lemma view_ok_next:
  assumes "scroll_rep inner hist" and "view_ok hist (max_bytes inner) over v" and "view_next inner v = Some v'"
  shows "view_ok hist (max_bytes inner) (closed inner) v'"
proof -
  let ?c = "unat (sv_cursor v)" and ?m = "max_bytes inner"
  let ?p = "max ?c (length hist - ?m)"
  from assms(2) have v: "?c \<le> length hist" "subseq (concat (sv_chunks v)) (take ?c hist)"
    "suffix (drop (length hist - ?m) (take ?c hist)) (concat (sv_chunks v))" by (simp_all add: view_ok_def)
  note poll = reader_poll_rep [OF assms(1) v(1)]
  from assms(1) have e: "unat (end_offset inner) = length hist" "unat (start_offset inner) = length hist - ?m"
    by (auto simp: scroll_rep_def)
  show ?thesis
  proof (cases "?p < length hist")
    case True
    with assms(3) poll have "v' = v\<lparr>sv_cursor := end_offset inner, sv_chunks := sv_chunks v @ [drop ?p hist]\<rparr>" "\<not> sv_ended v"
      by (auto simp: view_next_def split: if_splits)
    with view_ok_read [OF v] e(1) show ?thesis by (simp add: view_ok_def)
  next
    case False
    let ?c' = "if sv_cursor v < start_offset inner then start_offset inner else sv_cursor v"
    have c': "unat ?c' = length hist" using False v(1) e(2) by (auto simp: word_less_nat_alt)
    from False assms(3) poll have "v' = v\<lparr>sv_cursor := ?c', sv_ended := True\<rparr>" "closed inner"
      by (auto simp: view_next_def split: if_splits)
    with view_ok_read [OF v] c' False show ?thesis by (simp add: view_ok_def)
  qed
qed

subsection \<open>The invariant of a session\<close>

definition pipe_inv ::
  "('i, ssh_input) mpsc_view \<Rightarrow> ('o, bytes) mpsc_view \<Rightarrow> session_inner \<Rightarrow> ('i, 'o) pipe \<Rightarrow> bytes list \<Rightarrow> bool" where
  "pipe_inv V W i0 s ing \<longleftrightarrow>
     output_flow W i0 s ing \<and> (pp_held s \<noteq> None \<longrightarrow> running (pp_actor s)) \<and>
     ch_cap V (pp_input s) = INPUT_QUEUE \<and> length (ch_queue V (pp_input s)) \<le> INPUT_QUEUE \<and>
     ch_cap W (pp_output s) = OUTPUT_QUEUE \<and> length (ch_queue W (pp_output s)) \<le> OUTPUT_QUEUE \<and>
     (length (concat ing) < 2 ^ 64 \<longrightarrow>
        (\<forall>v \<in> set (pp_views s). view_ok (concat ing) (max_bytes i0) (closed (pp_inner s)) v))"

lemma scroll_rep_foldl:
  assumes "scroll_rep i0 []" and "length (concat ing) < 2 ^ 64"
  shows "scroll_rep ((foldl session_append i0 ing)\<lparr>closed := b\<rparr>) (concat ing)"
  using ingest_rep [OF assms(1), of ing] assms(2) by (simp add: ingest_foldl)

lemma foldl_append_max [session_simps]: "max_bytes (foldl session_append s ing) = max_bytes s"
  by (induction ing arbitrary: s) (simp_all add: session_simps)

lemma output_flow_rep:
  assumes "output_flow W i0 s ing" and "scroll_rep i0 []" and "length (concat ing) < 2 ^ 64"
  shows "scroll_rep (pp_inner s) (concat ing)" and "max_bytes (pp_inner s) = max_bytes i0"
proof -
  from assms(1) have inner: "pp_inner s = (foldl session_append i0 ing)\<lparr>closed := closed (pp_inner s)\<rparr>"
    by (simp add: output_flow_def)
  show "scroll_rep (pp_inner s) (concat ing)" by (subst inner) (rule scroll_rep_foldl [OF assms(2,3)])
  show "max_bytes (pp_inner s) = max_bytes i0" by (subst inner) (simp add: session_simps)
qed

lemma pipe_caps_step:
  assumes "mpsc_ok C V" and "mpsc_ok D W" and "pipe_inv V W i0 s ing" and "pipe_step C D e s = Some t"
  shows "ch_cap V (pp_input t) = INPUT_QUEUE \<and> length (ch_queue V (pp_input t)) \<le> INPUT_QUEUE"
    and "ch_cap W (pp_output t) = OUTPUT_QUEUE \<and> length (ch_queue W (pp_output t)) \<le> OUTPUT_QUEUE"
  using assms(4)
  by (cases rule: pipe_step_cases;
      use assms(3) in \<open>auto simp: pipe_inv_def actor_message_def Let_def
        dest!: mpsc_okD(3,5) [OF assms(1)] mpsc_okD(3,5) [OF assms(2)] split: option.splits\<close>)+

lemma pipe_views_step:
  assumes "mpsc_ok D W" and "scroll_rep i0 []" and "pipe_inv V W i0 s ing" and "pipe_step C D e s = Some t"
    and "length (concat (ing @ chunk_ingested e W s)) < 2 ^ 64" and "v \<in> set (pp_views t)"
  shows "view_ok (concat (ing @ chunk_ingested e W s)) (max_bytes i0) (closed (pp_inner t)) v"
proof -
  have flow: "output_flow W i0 s ing"
    and old: "\<forall>v \<in> set (pp_views s). view_ok (concat ing) (max_bytes i0) (closed (pp_inner s)) v"
    using assms(3,5) by (simp_all add: pipe_inv_def)
  from assms(4) show ?thesis
  proof (cases rule: pipe_step_cases)
    case (message m)
    with old assms(6) show ?thesis by (auto simp: chunk_ingested_def actor_message_def Let_def split: option.splits)
  next
    case (ingest data q)
    have "ch_queue W (pp_output s) = data # ch_queue W q" using mpsc_okD(5) [OF assms(1) ingest(2)] by simp
    moreover from this flow have "\<not> closed (pp_inner s)" by (auto simp: output_flow_def)
    ultimately show ?thesis
      using old assms(6) ingest(1,3) by (simp add: chunk_ingested_def view_ok_append session_append_fields)
  next
    case close
    have "ch_queue W (pp_output s) = []" using mpsc_okD(6) [OF assms(1) close(2)] .
    with old assms(6) close show ?thesis by (auto simp: chunk_ingested_def intro: view_ok_over)
  next
    case attach
    with old assms(6) show ?thesis by (auto simp: chunk_ingested_def view_ok_new)
  next
    case (view i v')
    have "length (concat ing) < 2 ^ 64" using assms(5) by simp
    note rep = output_flow_rep [OF flow assms(2) this]
    from old view(2) have "view_ok (concat ing) (max_bytes i0) (closed (pp_inner s)) (pp_views s ! i)" by simp
    with view_ok_next [OF rep(1) _ view(3)] rep(2) have "view_ok (concat ing) (max_bytes i0) (closed (pp_inner s)) v'" by metis
    moreover have "v \<in> insert v' (set (pp_views s))" using assms(6) view(4) set_update_subset_insert by fastforce
    ultimately show ?thesis using old view(1,4) by (auto simp: chunk_ingested_def)
  qed (use old assms(6) in \<open>auto simp: chunk_ingested_def\<close>)
qed

lemma pipe_inv_step:
  assumes "mpsc_ok C V" and "mpsc_ok D W" and "scroll_rep i0 []" and "pipe_inv V W i0 s ing"
    and "pipe_step C D e s = Some t"
  shows "pipe_inv V W i0 t (ing @ chunk_ingested e W s)"
proof -
  have flow: "output_flow W i0 s ing" "pp_held s \<noteq> None \<longrightarrow> running (pp_actor s)"
    using assms(4) by (simp_all add: pipe_inv_def)
  have "pp_held t \<noteq> None \<longrightarrow> running (pp_actor t)"
    using assms(5) flow(2) by (cases rule: pipe_step_cases) (auto simp: actor_message_def Let_def split: option.splits)
  with output_flow_step [OF assms(2) flow(1) assms(5) flow(2)] pipe_caps_step [OF assms(1,2,4,5)]
    pipe_views_step [OF assms(2-5)]
  show ?thesis by (simp add: pipe_inv_def)
qed

text \<open>The scrollback a session starts with.\<close>

abbreviation fresh_inner :: "nat \<Rightarrow> session_inner" where
  "fresh_inner m \<equiv> \<lparr>buf = [], start_offset = 0, end_offset = 0, closed = False, max_bytes = m\<rparr>"

lemma scroll_rep_fresh: "scroll_rep (fresh_inner m) []"
  by (simp add: scroll_rep_def)

lemma pipe_inv_new:
  assumes "mpsc_ok C V" and "mpsc_ok D W"
  shows "pipe_inv V W (fresh_inner m) (pipe_new C D ssh sid token m) []"
  using mpsc_okD(1,2) [OF assms(1)] mpsc_okD(1,2) [OF assms(2)]
  by (simp add: pipe_inv_def output_flow_def pipe_new_def ssh_spawn_def session_spawn_def actor_new_def)

lemma pipe_inv_run:
  assumes "mpsc_ok C V" and "mpsc_ok D W"
    and "pipe_run C D es (pipe_new C D ssh sid token m) = Some t"
  obtains ing where "pipe_inv V W (fresh_inner m) t ing"
proof -
  have "\<exists>ing. pipe_inv V W (fresh_inner m) t ing"
    by (rule pipe_run_invariant [OF assms(3), of "\<lambda>_ t. \<exists>ing. pipe_inv V W (fresh_inner m) t ing"])
       (blast intro: pipe_inv_new [OF assms(1,2)] pipe_inv_step [OF assms(1,2) scroll_rep_fresh])+
  with that show thesis by blast
qed

subsection \<open>Coming to rest\<close>

text \<open>
  The steps the tasks take by themselves, when neither the target nor a client does anything new, and
  a weight that each of them decreases: a chunk is worth less at each stage, by more than what its
  arrival in the buffer can wake among the views.
\<close>

fun internal :: "pipe_event \<Rightarrow> bool" where
  "internal Actor_sends = True"
| "internal (Actor_input _ _) = True"
| "internal Ingest_turn = True"
| "internal (Next _) = True"
| "internal _ = False"

definition view_weight :: "session_inner \<Rightarrow> session_view \<Rightarrow> nat" where
  "view_weight inner v =
     (if sv_ended v then 0 else case fst (reader_poll inner (sv_cursor v)) of Chunk _ \<Rightarrow> 2 | Ended \<Rightarrow> 1 | _ \<Rightarrow> 0)"

definition pipe_weight :: "('i, ssh_input) mpsc_view \<Rightarrow> ('o, bytes) mpsc_view \<Rightarrow> ('i, 'o) pipe \<Rightarrow> nat" where
  "pipe_weight V W s =
     (let n = 2 * length (pp_views s)
      in length (ch_queue V (pp_input s)) + (if pp_held s = None then 0 else n + 2) +
         (n + 1) * length (ch_queue W (pp_output s)) + (if closed (pp_inner s) then 0 else n + 1) +
         sum_list (map (view_weight (pp_inner s)) (pp_views s)))"

lemma view_weight_le: "view_weight inner v \<le> 2"
  by (simp add: view_weight_def split: poll.splits)

lemma view_weights_le: "sum_list (map (view_weight inner) vs) \<le> 2 * length vs"
  using view_weight_le by (induction vs) (auto intro: add_mono order_trans)

lemma poll_after_chunk:
  "reader_poll inner c = (Chunk b, c') \<Longrightarrow> fst (reader_poll inner c') \<noteq> Chunk b'"
  by (auto simp: reader_poll_def Let_def split: if_splits)

lemma view_weight_next: "view_next inner v = Some v' \<Longrightarrow> view_weight inner v' < view_weight inner v"
  using poll_after_chunk [of inner "sv_cursor v"]
  by (auto simp: view_next_def view_weight_def split: if_splits poll.splits prod.splits)

lemma sum_list_update_less:
  fixes f :: "'a \<Rightarrow> nat"
  assumes "i < length xs" and "f y < f (xs ! i)"
  shows "sum_list (map f (xs[i := y])) < sum_list (map f xs)"
  using assms by (induction xs arbitrary: i) (auto split: nat.splits)

lemma internal_step_decreases:
  assumes "mpsc_ok C V" and "mpsc_ok D W" and "internal e" and "pipe_step C D e s = Some t"
  shows "pipe_weight V W t < pipe_weight V W s"
  using assms(4)
proof (cases rule: pipe_step_cases)
  case (sends data q)
  with mpsc_okD(3) [OF assms(2) sends(3)] show ?thesis by (simp add: pipe_weight_def Let_def)
next
  case (input inp w q)
  with mpsc_okD(5) [OF assms(1) input(4)] show ?thesis by (simp add: pipe_weight_def Let_def)
next
  case (ingest data q)
  let ?inner = "session_append (pp_inner s) data"
  have "sum_list (map (view_weight ?inner) (pp_views s)) \<le> 2 * length (pp_views s)" by (rule view_weights_le)
  with ingest mpsc_okD(5) [OF assms(2) ingest(2)] show ?thesis
    by (simp add: pipe_weight_def Let_def session_append_fields)
next
  case close
  let ?inner = "(pp_inner s)\<lparr>closed := True\<rparr>"
  have "sum_list (map (view_weight ?inner) (pp_views s)) \<le> 2 * length (pp_views s)" by (rule view_weights_le)
  with close show ?thesis by (simp add: pipe_weight_def Let_def)
next
  case (view i v)
  with sum_list_update_less [OF view(2) view_weight_next [OF view(3)]] show ?thesis
    by (simp add: pipe_weight_def Let_def)
qed (use assms(3) in simp_all)

lemma internal_run_bound:
  assumes "mpsc_ok C V" and "mpsc_ok D W"
  shows "list_all internal es \<Longrightarrow> pipe_run C D es s = Some t \<Longrightarrow> length es + pipe_weight V W t \<le> pipe_weight V W s"
proof (induction es arbitrary: s)
  case (Cons e es)
  then obtain u where u: "pipe_step C D e s = Some u" "pipe_run C D es u = Some t" by (auto split: option.splits)
  with Cons.IH [OF _ u(2)] internal_step_decreases [OF assms _ u(1)] Cons.prems(1) show ?case by simp
qed simp

definition quiet :: "('i, ssh_input) mpsc \<Rightarrow> ('o, bytes) mpsc \<Rightarrow> ('i, 'o) pipe \<Rightarrow> bool" where
  "quiet C D s \<longleftrightarrow> (\<forall>e. internal e \<longrightarrow> pipe_step C D e s = None)"

lemma quietD: "quiet C D s \<Longrightarrow> internal e \<Longrightarrow> pipe_step C D e s = None"
  by (simp only: quiet_def)

lemma internal_run_to_quiet:
  assumes "mpsc_ok C V" and "mpsc_ok D W"
  shows "\<exists>es t. list_all internal es \<and> pipe_run C D es s = Some t \<and> quiet C D t"
proof (induction "pipe_weight V W s" arbitrary: s rule: less_induct)
  case less
  show ?case
  proof (cases "quiet C D s")
    case True
    then show ?thesis by (intro exI [of _ "[]"] exI [of _ s]) simp
  next
    case False
    then obtain e u where e: "internal e" "pipe_step C D e s = Some u" by (auto simp: quiet_def)
    from less [OF internal_step_decreases [OF assms e]] obtain es t where
      "list_all internal es" "pipe_run C D es u = Some t" "quiet C D t" by blast
    with e show ?thesis by (intro exI [of _ "e # es"] exI [of _ t]) simp
  qed
qed

text \<open>What rest means: nothing in hand or queued, and every view has caught up, or has ended.\<close>

lemma quiet_drained:
  assumes "mpsc_ok C V" and "mpsc_ok D W" and "pipe_inv V W i0 s ing" and "quiet C D s"
  shows "pp_held s = None" and "ch_queue W (pp_output s) = []" and "closed (pp_inner s) \<longleftrightarrow> \<not> running (pp_actor s)"
    and "running (pp_actor s) \<Longrightarrow> ch_queue V (pp_input s) = []"
proof -
  have steps: "pipe_step C D Actor_sends s = None" "pipe_step C D Ingest_turn s = None" "\<And>x w. pipe_step C D (Actor_input x w) s = None"
    by (rule quietD [OF assms(4)]; simp only: internal.simps)+
  from steps(2) have none: "ch_recv D (pp_output s) = None" "running (pp_actor s) \<or> closed (pp_inner s)"
    by (auto simp: ingest_turn_def split: option.splits if_splits)
  from mpsc_okD(6) [OF assms(2) none(1)] show out: "ch_queue W (pp_output s) = []" .
  show held: "pp_held s = None"
  proof (rule ccontr)
    assume "pp_held s \<noteq> None"
    with steps(1) obtain data where "ch_send D data (pp_output s) = None"
      by (auto simp: actor_sends_def split: option.splits)
    from mpsc_okD(4) [OF assms(2) this] out assms(3) show False by (simp add: pipe_inv_def OUTPUT_QUEUE_def)
  qed
  show "closed (pp_inner s) \<longleftrightarrow> \<not> running (pp_actor s)"
    using none(2) assms(3) by (auto simp: pipe_inv_def output_flow_def)
  show "ch_queue V (pp_input s) = []" if "running (pp_actor s)"
  proof (rule mpsc_okD(6) [OF assms(1)], rule ccontr)
    assume "ch_recv C (pp_input s) \<noteq> None"
    then obtain x q where "ch_recv C (pp_input s) = Some (x, q)" by auto
    with steps(3) [of x True] that held show False by (simp add: actor_input_def)
  qed
qed

lemma quiet_view:
  assumes "mpsc_ok D W" and "scroll_rep i0 []" and "pipe_inv V W i0 s ing" and "quiet C D s"
    and "length (concat ing) < 2 ^ 64" and "v \<in> set (pp_views s)"
  shows "sv_ended v \<longleftrightarrow> closed (pp_inner s)"
    and "suffix (drop (length (concat ing) - max_bytes i0) (concat ing)) (concat (sv_chunks v))"
proof -
  let ?hist = "concat ing" and ?c = "unat (sv_cursor v)"
  from assms(6) obtain i where i: "i < length (pp_views s)" "pp_views s ! i = v" by (auto simp: in_set_conv_nth)
  have "pipe_step C D (Next i) s = None" by (rule quietD [OF assms(4)]) simp
  with i have stuck: "view_next (pp_inner s) v = None" by simp
  have flow: "output_flow W i0 s ing" and ok: "view_ok ?hist (max_bytes i0) (closed (pp_inner s)) v"
    using assms(3,5,6) by (simp_all add: pipe_inv_def)
  note rep = output_flow_rep [OF flow assms(2,5)]
  have c: "?c \<le> length ?hist" using ok by (simp add: view_ok_def)
  from reader_poll_rep [OF rep(1) c] stuck rep(2)
  have "sv_ended v \<or> length ?hist \<le> max ?c (length ?hist - max_bytes i0) \<and> \<not> closed (pp_inner s)"
    by (auto simp: view_next_def split: if_splits)
  with ok show "sv_ended v \<longleftrightarrow> closed (pp_inner s)" by (auto simp: view_ok_def)
  have "?c = length ?hist \<or> length ?hist - max_bytes i0 = length ?hist"
    using \<open>sv_ended v \<or> _\<close> c ok by (auto simp: view_ok_def max_def split: if_splits)
  with ok show "suffix (drop (length ?hist - max_bytes i0) ?hist) (concat (sv_chunks v))"
    by (auto simp: view_ok_def)
qed

subsection \<open>What the target sent, what the clients typed\<close>

fun target_chunks :: "pipe_event list \<Rightarrow> bytes list" where
  "target_chunks [] = []"
| "target_chunks (Actor_message m # es) = (case message_data m of Some d \<Rightarrow> d # target_chunks es | None \<Rightarrow> target_chunks es)"
| "target_chunks (_ # es) = target_chunks es"

fun client_inputs :: "pipe_event list \<Rightarrow> ssh_input list" where
  "client_inputs [] = []"
| "client_inputs (Client_input x # es) = x # client_inputs es"
| "client_inputs (_ # es) = client_inputs es"

fun input_call :: "ssh_input \<Rightarrow> channel_call" where
  "input_call (In_Data bs) = Write_all bs"
| "input_call (In_Resize cols rows) = Window_change cols rows 0 0"

lemma target_chunks_append [simp]: "target_chunks (es @ fs) = target_chunks es @ target_chunks fs"
  by (induction es rule: target_chunks.induct) (simp_all split: option.splits)

lemma client_inputs_append [simp]: "client_inputs (es @ fs) = client_inputs es @ client_inputs fs"
  by (induction es rule: client_inputs.induct) simp_all

lemma target_chunks_step:
  assumes "emitted (settled s) = target_chunks es" and "pipe_step C D e s = Some t"
  shows "emitted (settled t) = target_chunks (es @ [e])"
  using assms(2)
proof (cases rule: pipe_step_cases)
  case (message m)
  with assms(1) show ?thesis
    by (auto simp: settled_def actor_message_def Let_def actor_select_other split: option.splits)
qed (use assms(1) in \<open>auto simp: settled_def actor_select_input split: option.splits\<close>)

lemma target_chunks_run:
  assumes "pipe_run C D es (pipe_new C D ssh sid token m) = Some t"
  shows "target_chunks es = emitted (pp_actor t) @ (case pp_held t of None \<Rightarrow> [] | Some d \<Rightarrow> [d])"
proof -
  have "emitted (settled t) = target_chunks es"
  proof (rule pipe_run_invariant [OF assms, of "\<lambda>es t. emitted (settled t) = target_chunks es"])
    show "emitted (settled (pipe_new C D ssh sid token m)) = target_chunks []"
      by (simp add: settled_def pipe_new_def ssh_spawn_def actor_new_def)
  qed (rule target_chunks_step)
  then show ?thesis by (auto simp: settled_def split: option.splits)
qed

text \<open>The inputs the actor has taken, followed by those queued, are those the clients sent.\<close>

definition input_flow :: "('i, ssh_input) mpsc_view \<Rightarrow> pipe_event list \<Rightarrow> ('i, 'o) pipe \<Rightarrow> ssh_input list \<Rightarrow> bool" where
  "input_flow V es s taken \<longleftrightarrow>
     filter (\<lambda>c. c \<noteq> Flush) (calls (pp_actor s) @ unapplied (pp_actor s)) = map input_call taken \<and>
     prefix (taken @ ch_queue V (pp_input s)) (client_inputs es) \<and>
     (running (pp_actor s) \<longrightarrow> taken @ ch_queue V (pp_input s) = client_inputs es)"

lemma event_calls_input: "filter (\<lambda>c. c \<noteq> Flush) (event_calls (From_input (Some x) w)) = [input_call x]"
  by (cases x) simp_all

lemma input_flow_step:
  assumes "mpsc_ok C V" and "input_flow V es s taken" and "pipe_step C D e s = Some t"
  shows "\<exists>taken'. input_flow V (es @ [e]) t taken'"
  using assms(3)
proof (cases rule: pipe_step_cases)
  case (message m)
  let ?a = "apply_resize (pp_actor s)"
  have "calls (actor_select (From_channel m True) ?a) @ unapplied (actor_select (From_channel m True) ?a) =
      calls (pp_actor s) @ unapplied (pp_actor s)"
    using actor_select_fields(1) [of ?a "From_channel m True"] message(2) by simp
  moreover have "unapplied ?a = []" by (simp add: unapplied_def)
  ultimately show ?thesis
    using message assms(2) by (intro exI [of _ taken])
      (auto simp: input_flow_def actor_message_def Let_def simp del: filter_append split: option.splits)
next
  case (input inp w q)
  let ?a = "apply_resize (pp_actor s)"
  have acts: "calls (pp_actor t) @ unapplied (pp_actor t) =
      (calls (pp_actor s) @ unapplied (pp_actor s)) @ event_calls (From_input (Some inp) w)"
    using actor_select_fields(1) [of ?a "From_input (Some inp) w"] input(2,5) by simp
  have "filter (\<lambda>c. c \<noteq> Flush) (calls (pp_actor t) @ unapplied (pp_actor t)) =
      filter (\<lambda>c. c \<noteq> Flush) (calls (pp_actor s) @ unapplied (pp_actor s)) @ [input_call inp]"
    by (simp only: acts filter_append [of _ "calls (pp_actor s) @ unapplied (pp_actor s)"] event_calls_input)
  then have "filter (\<lambda>c. c \<noteq> Flush) (calls (pp_actor t) @ unapplied (pp_actor t)) = map input_call (taken @ [inp])"
    using assms(2) by (simp add: input_flow_def del: filter_append)
  with mpsc_okD(5) [OF assms(1) input(4)] input assms(2) show ?thesis
    by (intro exI [of _ "taken @ [inp]"]) (simp add: input_flow_def del: filter_append)
next
  case (queued inp q)
  with mpsc_okD(3) [OF assms(1) queued(3)] assms(2) show ?thesis
    by (intro exI [of _ taken]) (auto simp: input_flow_def)
next
  case (sends data q)
  with assms(2) show ?thesis
    by (intro exI [of _ taken]) (simp add: input_flow_def unapplied_def)
qed (use assms(2) in \<open>auto simp: input_flow_def intro!: exI [of _ taken]\<close>)

lemma input_flow_run:
  assumes "mpsc_ok C V" and "pipe_run C D es (pipe_new C D ssh sid token m) = Some t"
  obtains taken where "input_flow V es t taken"
proof -
  have "\<exists>taken. input_flow V es t taken"
  proof (rule pipe_run_invariant [OF assms(2), of "\<lambda>es t. \<exists>taken. input_flow V es t taken"])
    show "\<exists>taken. input_flow V [] (pipe_new C D ssh sid token m) taken"
      using mpsc_okD(2) [OF assms(1)]
      by (intro exI [of _ "[]"]) (simp add: input_flow_def pipe_new_def ssh_spawn_def actor_new_def unapplied_def)
  qed (blast intro: input_flow_step [OF assms(1)])
  with that show thesis by blast
qed

lemma input_calls_prefix:
  assumes "mpsc_ok C V" and "pipe_run C D es (pipe_new C D ssh sid token m) = Some t"
  shows "prefix (filter (\<lambda>c. c \<noteq> Flush) (calls (pp_actor t))) (map input_call (client_inputs es))"
proof -
  from input_flow_run [OF assms] obtain taken where flow: "input_flow V es t taken" .
  then have "prefix (filter (\<lambda>c. c \<noteq> Flush) (calls (pp_actor t))) (map input_call taken)"
    by (metis (no_types, lifting) filter_append input_flow_def prefixI)
  moreover from flow have "prefix taken (client_inputs es)"
    by (auto simp: input_flow_def dest: append_prefixD)
  ultimately show ?thesis by (blast intro: prefix_order.trans map_mono_prefix)
qed

subsection \<open>A concrete session\<close>

text \<open>Channels over lists, and a session used to exhibit concrete instances of the properties below.\<close>

definition list_chan :: "('a list \<times> nat, 'a) mpsc" where
  "list_chan =
     \<lparr>ch_new = (\<lambda>n. ([], n)), ch_send = (\<lambda>x (q, n). if length q < n then Some (q @ [x], n) else None),
      ch_recv = (\<lambda>(q, n). case q of [] \<Rightarrow> None | x # xs \<Rightarrow> Some (x, (xs, n)))\<rparr>"

definition list_view :: "('a list \<times> nat, 'a) mpsc_view" where
  "list_view = \<lparr>ch_cap = snd, ch_queue = fst\<rparr>"

lemma list_chan_ok: "mpsc_ok list_chan list_view"
  by (auto simp: mpsc_ok_def list_chan_def list_view_def split: list.splits)

abbreviation demo_pipe :: "(ssh_input list \<times> nat, bytes list \<times> nat) pipe" where
  "demo_pipe \<equiv> pipe_new list_chan list_chan \<lparr>ss_channel = (), ss_handle = (), ss_fingerprint = None\<rparr> 7 [] 3"

definition demo_events :: "pipe_event list" where
  "demo_events =
     [Attach, Actor_message (Some (CM_Data [1, 2])), Actor_sends, Client_input (In_Data [9]), Ingest_turn, Next 0,
      Actor_message (Some (CM_Data [3, 4])), Actor_sends, Ingest_turn, Next 0, Actor_input (In_Data [9]) True,
      Actor_message (Some CM_Eof), Ingest_turn, Next 0]"

abbreviation demo_view :: session_view where
  "demo_view \<equiv> \<lparr>sv_cursor = 4, sv_chunks = [[1, 2], [3, 4]], sv_ended = True\<rparr>"

abbreviation demo_rest :: "(ssh_input list \<times> nat, bytes list \<times> nat) pipe" where
  "demo_rest \<equiv>
     \<lparr>pp_actor = \<lparr>pending_resize = None, calls = [Write_all [9], Flush], emitted = [[1, 2], [3, 4]], running = False\<rparr>,
      pp_held = None, pp_input = ([], 64), pp_output = ([], 256),
      pp_inner = \<lparr>buf = [2, 3, 4], start_offset = 1, end_offset = 4, closed = True, max_bytes = 3\<rparr>,
      pp_views = [demo_view]\<rparr>"

lemma demo_pipe_run: "pipe_run list_chan list_chan demo_events demo_pipe = Some demo_rest"
  by (simp add: demo_events_def pipe_new_def ssh_spawn_def session_spawn_def actor_new_def INPUT_QUEUE_def OUTPUT_QUEUE_def
      list_chan_def actor_message_def actor_sends_def actor_input_def ingest_turn_def view_next_def client_input_def
      apply_resize_def emit_def session_append_def reader_poll_def Let_def)

lemma demo_rest_quiet: "quiet list_chan list_chan demo_rest"
  unfolding quiet_def
proof (intro allI impI)
  fix e assume "internal e"
  then show "pipe_step list_chan list_chan e demo_rest = None"
    by (cases e rule: internal.cases) (simp_all add: actor_sends_def ingest_turn_def list_chan_def view_next_def)
qed

subsection \<open>Properties\<close>

text \<open>
  C9 (safety). Output in flight is conserved and bounded, and clients see it in order. At every moment
  of every interleaving, the target's output is what was ingested, then what is in the output queue, then
  the chunk the actor holds; the queues hold no more than 256 chunks and 64 inputs; and what each attached
  client has read, whenever it attached, is a subsequence of the target's output that ends with the
  ingested part of the last \<open>max_bytes\<close> bytes up to its cursor.
\<close>

theorem pipeline_in_order:
  assumes "mpsc_ok C V" and "mpsc_ok D W" and "length (concat (target_chunks es)) < 2 ^ 64"
    and "pipe_run C D es (pipe_new C D ssh sid token m) = Some t"
  shows "length (ch_queue W (pp_output t)) \<le> 256 \<and> length (ch_queue V (pp_input t)) \<le> 64 \<and>
    (\<exists>ing. target_chunks es = ing @ ch_queue W (pp_output t) @ (case pp_held t of None \<Rightarrow> [] | Some d \<Rightarrow> [d]) \<and>
       scroll_rep (pp_inner t) (concat ing) \<and>
       (\<forall>v \<in> set (pp_views t).
          subseq (concat (sv_chunks v)) (concat (target_chunks es)) \<and>
          suffix (drop (length (concat ing) - m) (take (unat (sv_cursor v)) (concat ing))) (concat (sv_chunks v))))"
proof -
  from pipe_inv_run [OF assms(1,2,4)] obtain ing where inv: "pipe_inv V W (fresh_inner m) t ing" .
  then have flow: "output_flow W (fresh_inner m) t ing" by (simp add: pipe_inv_def)
  let ?held = "case pp_held t of None \<Rightarrow> [] | Some d \<Rightarrow> [d]"
  have all: "target_chunks es = ing @ ch_queue W (pp_output t) @ ?held"
    using target_chunks_run [OF assms(4)] flow by (simp add: output_flow_def)
  with assms(3) have len: "length (concat ing) < 2 ^ 64" by simp
  have "subseq (concat (sv_chunks v)) (concat (target_chunks es))" if "view_ok (concat ing) m b v" for b v
  proof -
    have "prefix (take (unat (sv_cursor v)) (concat ing)) (concat (target_chunks es))"
      unfolding all by (simp add: prefix_order.trans [OF take_is_prefix])
    with that show ?thesis
      unfolding view_ok_def by (blast intro: subseq_order.trans dest: prefix_imp_subseq)
  qed
  with inv len all output_flow_rep(1) [OF flow scroll_rep_fresh len] show ?thesis
    by (intro conjI exI [of _ ing]) (auto simp: pipe_inv_def INPUT_QUEUE_def OUTPUT_QUEUE_def view_ok_def)
qed

theorem pipeline_in_order_witness:
  "subseq (concat (sv_chunks demo_view)) (concat (target_chunks demo_events)) \<and> concat (sv_chunks demo_view) = [1, 2, 3, 4]"
proof -
  have "length (concat (target_chunks demo_events)) < 2 ^ 64" by (simp add: demo_events_def)
  from pipeline_in_order [OF list_chan_ok list_chan_ok this demo_pipe_run] show ?thesis by auto
qed

text \<open>
  C8 (termination). The tasks come to rest: from any reachable state, when the target sends nothing
  and no client does anything new, the tasks of the session take at most \<open>pipe_weight\<close> more steps in any
  order, and there is an order in which they reach a state where none of them can go on.
\<close>

theorem pipeline_drains:
  assumes "mpsc_ok C V" and "mpsc_ok D W"
    and "pipe_run C D es (pipe_new C D ssh sid token m) = Some s"
  shows "(\<forall>fs t. list_all internal fs \<and> pipe_run C D fs s = Some t \<longrightarrow> length fs \<le> pipe_weight V W s) \<and>
    (\<exists>fs t. list_all internal fs \<and> pipe_run C D (es @ fs) (pipe_new C D ssh sid token m) = Some t \<and> quiet C D t)"
proof (intro conjI allI impI)
  fix fs t assume "list_all internal fs \<and> pipe_run C D fs s = Some t"
  with internal_run_bound [OF assms(1,2), of fs s t] show "length fs \<le> pipe_weight V W s" by simp
next
  from internal_run_to_quiet [OF assms(1,2), of s] assms(3)
  show "\<exists>fs t. list_all internal fs \<and> pipe_run C D (es @ fs) (pipe_new C D ssh sid token m) = Some t \<and> quiet C D t"
    by (auto simp: pipe_run_append)
qed

theorem pipeline_drains_witness:
  "\<exists>s. pipe_run list_chan list_chan (take 8 demo_events) demo_pipe = Some s \<and>
     pipe_weight list_view list_view s = 7 \<and>
     (\<exists>fs t. list_all internal fs \<and> pipe_run list_chan list_chan (take 8 demo_events @ fs) demo_pipe = Some t \<and>
        quiet list_chan list_chan t)"
proof -
  obtain s where s: "pipe_run list_chan list_chan (take 8 demo_events) demo_pipe = Some s" "pipe_weight list_view list_view s = 7"
    by (simp add: demo_events_def pipe_new_def ssh_spawn_def session_spawn_def actor_new_def INPUT_QUEUE_def OUTPUT_QUEUE_def
      list_chan_def list_view_def actor_message_def actor_sends_def actor_input_def ingest_turn_def view_next_def client_input_def
      apply_resize_def emit_def session_append_def reader_poll_def pipe_weight_def view_weight_def Let_def)
  from pipeline_drains [OF list_chan_ok list_chan_ok s(1)] s show ?thesis by blast
qed

text \<open>
  C7 (equivalence). At rest nothing is on the way, and the concurrent tasks have computed exactly
  what the sequential models compute: the actor is in the state of \<open>actor_run\<close> on its own events; no
  chunk is held or queued; when the actor has ended, the session is closed and its state is that of \<open>ingest\<close> on the target's chunks; each
  client has ended exactly if the session has, and has read at least the last \<open>max_bytes\<close> bytes of the
  output, contiguous and last.
\<close>

theorem pipeline_at_rest:
  assumes "mpsc_ok C V" and "mpsc_ok D W" and "length (concat (target_chunks es)) < 2 ^ 64"
    and "pipe_run C D es (pipe_new C D ssh sid token m) = Some t" and "quiet C D t"
  shows "let out = target_chunks es; inner = sess_inner (session_spawn sid token (ss_fingerprint ssh) m)
    in pp_held t = None \<and> ch_queue W (pp_output t) = [] \<and> pp_actor t = actor_run (actor_trace es) actor_new \<and>
       (running (pp_actor t) \<longrightarrow> pp_inner t = foldl session_append inner out \<and> ch_queue V (pp_input t) = []) \<and>
       (\<not> running (pp_actor t) \<longrightarrow> pp_inner t = ingest inner out) \<and>
       (\<forall>v \<in> set (pp_views t). (sv_ended v \<longleftrightarrow> \<not> running (pp_actor t)) \<and>
          suffix (drop (length (concat out) - m) (concat out)) (concat (sv_chunks v)))"
proof -
  from pipe_inv_run [OF assms(1,2,4)] obtain ing where inv: "pipe_inv V W (fresh_inner m) t ing" .
  then have flow: "output_flow W (fresh_inner m) t ing" by (simp add: pipe_inv_def)
  note rest = quiet_drained [OF assms(1,2) inv assms(5)]
  have actor: "pp_actor t = actor_run (actor_trace es) actor_new"
    using actor_follows_run [OF assms(4)] rest(1) by (simp add: actor_follows_def settled_def)
  have ing: "target_chunks es = ing"
    using target_chunks_run [OF assms(4)] flow rest(1,2) by (simp add: output_flow_def)
  have spawn: "sess_inner (session_spawn sid token (ss_fingerprint ssh) m) = fresh_inner m"
    by (simp add: session_spawn_def)
  have inner: "pp_inner t = (foldl session_append (fresh_inner m) ing)\<lparr>closed := closed (pp_inner t)\<rparr>"
    using flow by (simp add: output_flow_def)
  have open0: "closed (foldl session_append s ing) = closed s" for s
    by (induction ing arbitrary: s) (simp_all add: session_append_fields)
  have "pp_inner t = (if running (pp_actor t) then foldl session_append (fresh_inner m) ing else ingest (fresh_inner m) ing)"
    using inner rest(3) open0 [of "fresh_inner m"] by (simp add: ingest_foldl)
  with rest actor quiet_view [OF assms(2) scroll_rep_fresh inv assms(5)] assms(3) show ?thesis
    unfolding Let_def ing spawn by auto
qed

theorem pipeline_at_rest_witness:
  "suffix [2, 3, 4] (concat (sv_chunks demo_view)) \<and> closed (pp_inner demo_rest) \<and>
   pp_inner demo_rest = ingest (sess_inner (session_spawn 7 [] None 3)) (target_chunks demo_events)"
proof -
  have "length (concat (target_chunks demo_events)) < 2 ^ 64" by (simp add: demo_events_def)
  from pipeline_at_rest [OF list_chan_ok list_chan_ok this demo_pipe_run demo_rest_quiet] show ?thesis
    by (auto simp: Let_def demo_events_def)
qed

text \<open>
  C21 (safety). Input reaches the target in order: leaving out flushes, the calls the actor has made on
  the channel are those of an initial part of the inputs that the clients sent, one call each; and when
  the tasks are at rest and the session has not ended, every input has been applied, except perhaps a
  last resize, which the actor has taken and applies at the top of its next turn.
\<close>

theorem pipeline_input_in_order:
  assumes "mpsc_ok C V" and "mpsc_ok D W" and "pipe_run C D es (pipe_new C D ssh sid token m) = Some t"
  shows "prefix (filter (\<lambda>c. c \<noteq> Flush) (calls (pp_actor t))) (map input_call (client_inputs es)) \<and>
    (quiet C D t \<and> running (pp_actor t) \<longrightarrow>
       filter (\<lambda>c. c \<noteq> Flush) (calls (pp_actor t) @ unapplied (pp_actor t)) = map input_call (client_inputs es))"
proof -
  from input_flow_run [OF assms(1,3)] obtain taken where flow: "input_flow V es t taken" .
  from pipe_inv_run [OF assms] obtain ing where inv: "pipe_inv V W (fresh_inner m) t ing" .
  have "filter (\<lambda>c. c \<noteq> Flush) (calls (pp_actor t) @ unapplied (pp_actor t)) = map input_call (client_inputs es)"
    if "quiet C D t" "running (pp_actor t)"
    using quiet_drained(4) [OF assms(1,2) inv that] flow that(2) by (simp add: input_flow_def)
  with input_calls_prefix [OF assms(1,3)] show ?thesis by blast
qed

theorem pipeline_input_in_order_witness:
  "prefix (filter (\<lambda>c. c \<noteq> Flush) (calls (pp_actor demo_rest))) (map input_call (client_inputs demo_events)) \<and>
   filter (\<lambda>c. c \<noteq> Flush) (calls (pp_actor demo_rest)) = [Write_all [9]]"
  using pipeline_input_in_order [OF list_chan_ok list_chan_ok demo_pipe_run] by simp

end
