(* ===== verification/Transport_Stream.thy ===== *)
theory Transport_Stream
  imports Transport_Framed
begin

text \<open>
  A whole control stream as frames. The handler consumes its stream by one \<open>recv\<close> after the other
  (\<open>gw-transport/src/framed.rs\<close>) until one fails. \<open>parse_stream\<close> is a reference for that: it splits a byte
  sequence at its length prefixes, without a stream, requests or a state. It recurses on the bytes that
  are left, and every frame takes at least its prefix.

  The properties: repeated receives on any stream half that behaves as documented yield exactly the
  reference's frames and then fail for the reference's reason; and the reference inverts the writing of
  frames, whatever follows them.
\<close>

datatype stream_end =
  Cut                       \<comment> \<open>the stream ended before a frame was complete\<close>
| Oversized nat             \<comment> \<open>a prefix declared more than the cap\<close>
| Malformed codec_error     \<comment> \<open>a body that does not decode\<close>

function parse_stream :: "(bytes \<Rightarrow> ext_error + 'f) \<Rightarrow> bytes \<Rightarrow> 'f list \<times> stream_end" where
  "parse_stream de bs =
     (if length bs < LEN_PREFIX then ([], Cut)
      else let n = unat (from_be_bytes (take LEN_PREFIX bs)); rest = drop LEN_PREFIX bs
           in if n > MAX_FRAME_LEN then ([], Oversized n)
              else if length rest < n then ([], Cut)
              else case decode de (take n rest) of
                     Inl e \<Rightarrow> ([], Malformed e)
                   | Inr f \<Rightarrow> (case parse_stream de (drop n rest) of (fs, e) \<Rightarrow> (f # fs, e)))"
  by auto
termination
  by (relation "measure (\<lambda>(de, bs). length bs)") (auto simp: LEN_PREFIX_def)

declare parse_stream.simps [simp del]

fun ends_as :: "stream_end \<Rightarrow> transport_error \<Rightarrow> bool" where
  "ends_as Cut e = (\<exists>m. e = Read m)"
| "ends_as (Oversized n) e = (e = FrameTooLarge n)"
| "ends_as (Malformed c) e = (e = Codec c)"

text \<open>One receive, by what the reference sees at the front of the stream.\<close>

lemma reader_ok_take:
  assumes "reader_ok rd inbox"
  shows "n \<le> length (inbox s) \<Longrightarrow> \<exists>s'. rd n s = (Inr (take n (inbox s)), s') \<and> inbox s' = drop n (inbox s)"
    and "length (inbox s) < n \<Longrightarrow> \<exists>e s'. rd n s = (Inl e, s')"
proof -
  show "\<exists>s'. rd n s = (Inr (take n (inbox s)), s') \<and> inbox s' = drop n (inbox s)" if "n \<le> length (inbox s)"
    using assms that unfolding reader_ok_def by blast
  show "\<exists>e s'. rd n s = (Inl e, s')" if "length (inbox s) < n"
    using assms that unfolding reader_ok_def by (metis isl_def prod.collapse)
qed

lemma framed_recv_parse:
  assumes "reader_ok rd inbox"
  shows "case parse_stream de (inbox s) of
      ([], e) \<Rightarrow> \<exists>err s'. framed_recv rd de s = (Inl err, s') \<and> ends_as e err
    | (f # fs, e) \<Rightarrow> \<exists>s'. framed_recv rd de s = (Inr f, s') \<and> parse_stream de (inbox s') = (fs, e)"
proof (cases "LEN_PREFIX \<le> length (inbox s)")
  case False
  with reader_ok_take(2) [OF assms, of s LEN_PREFIX] show ?thesis
    by (auto simp: parse_stream.simps [of de "inbox s"] framed_recv_def io_apply)
next
  case True
  let ?n = "unat (from_be_bytes (take LEN_PREFIX (inbox s)))" and ?rest = "drop LEN_PREFIX (inbox s)"
  from reader_ok_take(1) [OF assms True] obtain s1 where
    s1: "rd LEN_PREFIX s = (Inr (take LEN_PREFIX (inbox s)), s1)" "inbox s1 = ?rest" by blast
  consider (big) "?n > MAX_FRAME_LEN" | (cut) "?n \<le> MAX_FRAME_LEN" "length ?rest < ?n"
    | (whole) "?n \<le> MAX_FRAME_LEN" "?n \<le> length ?rest" by linarith
  then show ?thesis
  proof cases
    case big
    with True s1 show ?thesis by (simp add: parse_stream.simps [of de "inbox s"] framed_recv_def io_apply Let_def)
  next
    case cut
    with reader_ok_take(2) [OF assms, of s1 ?n] True s1 show ?thesis
      by (auto simp: parse_stream.simps [of de "inbox s"] framed_recv_def io_apply Let_def)
  next
    case whole
    with reader_ok_take(1) [OF assms, of ?n s1] s1(2) obtain s2 where
      s2: "rd ?n s1 = (Inr (take ?n ?rest), s2)" "inbox s2 = drop ?n ?rest" by auto
    with whole True s1 show ?thesis
      by (cases "decode de (take ?n ?rest)")
         (auto simp: parse_stream.simps [of de "inbox s"] framed_recv_def io_apply Let_def split: prod.splits)
  qed
qed

lemma recv_frames_parse:
  assumes "reader_ok rd inbox"
  shows "parse_stream de (inbox s) = (fs, e) \<Longrightarrow>
    \<exists>s' err s''. recv_frames rd de (length fs) s = (Inr fs, s') \<and> framed_recv rd de s' = (Inl err, s'') \<and> ends_as e err"
proof (induction fs arbitrary: s)
  case Nil
  with framed_recv_parse [OF assms, of de s] show ?case by auto
next
  case (Cons f fs)
  with framed_recv_parse [OF assms, of de s] obtain s1 where
    s1: "framed_recv rd de s = (Inr f, s1)" "parse_stream de (inbox s1) = (fs, e)" by auto
  from Cons.IH [OF s1(2)] s1(1) show ?case by (auto simp: io_apply)
qed

lemma parse_framed:
  assumes "postcard_ok ser de" and "encode_framed ser f = Inr bs"
  shows "parse_stream de (bs @ rest) = (case parse_stream de rest of (fs, e) \<Rightarrow> (f # fs, e))"
proof -
  obtain s' where "framed_recv list_rd de (bs @ rest) = (Inr f, s')" "s' = rest"
    using framed_recv_encoded [OF assms(1) list_rd_ok assms(2), of "bs @ rest" rest] by auto
  then show ?thesis
    using framed_recv_parse [OF list_rd_ok, of de "bs @ rest"] by (auto split: prod.splits list.splits)
qed

lemma parse_sent:
  assumes "postcard_ok ser de"
  shows "list_all2 (\<lambda>f bs. encode_framed ser f = Inr bs) fs bss \<Longrightarrow>
    parse_stream de (concat bss @ rest) = (fs @ fst (parse_stream de rest), snd (parse_stream de rest))"
  by (induction fs bss rule: list_all2_induct) (simp_all add: parse_framed [OF assms])

lemma parse_send_frames:
  assumes "postcard_ok ser de" and "writer_ok wr outbox" and "send_frames ser wr fs w = (Inr (), w')" and "outbox w = []"
  shows "parse_stream de (outbox w') = (fs, Cut)"
proof -
  from send_frames_bytes [OF assms(2,3)] assms(4) obtain bss where
    "list_all2 (\<lambda>f bs. encode_framed ser f = Inr bs) fs bss" "outbox w' = concat bss" by auto
  moreover have "parse_stream de [] = ([], Cut)" by (simp add: parse_stream.simps LEN_PREFIX_def)
  ultimately show ?thesis using parse_sent [OF assms(1), of fs bss "[]"] by simp
qed

subsection \<open>Properties\<close>

text \<open>
  C18 (equivalence). Reading a stream frame by frame is parsing it: for every byte sequence the peer
  sends, well-formed or not, as many receives as the reference finds frames return exactly these frames,
  and the next one fails for the reference's reason (the stream is cut, a declared length is too large,
  or a body does not decode).
\<close>

theorem receiving_is_parsing:
  assumes "reader_ok rd inbox"
  shows "case parse_stream de (inbox s) of (fs, e) \<Rightarrow>
    \<exists>s' err s''. recv_frames rd de (length fs) s = (Inr fs, s') \<and> framed_recv rd de s' = (Inl err, s'') \<and> ends_as e err"
proof (cases "parse_stream de (inbox s)")
  case (Pair fs e)
  with recv_frames_parse [OF assms Pair] show ?thesis by simp
qed

theorem receiving_is_parsing_witness:
  "\<exists>s' err s''. recv_frames list_rd demo_de 1 [0, 0, 0, 1, 5, 255, 0, 0, 0, 9] = (Inr [C_Ping], s') \<and>
     framed_recv list_rd demo_de s' = (Inl err, s'') \<and> err = FrameTooLarge 4278190080"
proof -
  have "parse_stream demo_de [0, 0, 0, 1, 5, 255, 0, 0, 0, 9] = ([C_Ping], Oversized 4278190080)"
    by (simp add: parse_stream.simps LEN_PREFIX_def MAX_FRAME_LEN_def from_be_bytes_def Let_def decode_def)
  with receiving_is_parsing [OF list_rd_ok, of demo_de "[0, 0, 0, 1, 5, 255, 0, 0, 0, 9]"] show ?thesis by simp
qed

end
