(* ===== verification/Server_Throttle.thy ===== *)
theory Server_Throttle
  imports Core_Quota Core_Registry
begin

text \<open>
  The bandwidth limiter of the data plane, \<open>throttle\<close> of \<open>gw-server/src/handler.rs\<close>: a loop that
  refills the token bucket with the time since its last reading of the clock, tries to consume the
  chunk, and sleeps for the time the bucket asks for when it is refused.

  The monotonic clock is a number of nanoseconds. A sleep lasts at least as long as it was asked to,
  so each reading of the clock comes some delay (an argument of the model, one per reading) after
  the sleep before it has ended. A loop that has used up its delays is still \<open>Waiting\<close>; \<open>Panicked\<close>
  is the panic of \<open>Duration::from_secs_f64\<close> inside \<open>time_until\<close>.

  The properties: a chunk that fits the burst passes within a bounded time however the clock
  readings fall, and the loop never panics; a larger chunk never passes; every chunk a reader of the
  default session manager yields does fit; and the bytes let through never exceed burst plus rate
  times time.
\<close>

type_synonym instant = nat
type_synonym limiter = "(token_bucket \<times> instant) option"

definition BANDWIDTH_BURST :: u64 where
  "BANDWIDTH_BURST = push_bit 20 1"

definition limiter_new :: "entitlement \<Rightarrow> instant \<Rightarrow> limiter" where
  "limiter_new ent now = map_option (\<lambda>rate. (tb_new rate BANDWIDTH_BURST, now)) (max_bytes_per_sec ent)"

datatype wait = Passed | Waiting | Panicked

fun throttle_loop ::
  "duration list \<Rightarrow> instant \<Rightarrow> u64 \<Rightarrow> token_bucket \<times> instant \<Rightarrow> wait \<times> (token_bucket \<times> instant) \<times> instant" where
  "throttle_loop [] now amount l = (Waiting, l, now)"
| "throttle_loop (delay # delays) now amount (b, prev) =
     (let t = now + delay
      in case tb_try_consume amount (tb_refill (t - prev) b) of
           (True, b') \<Rightarrow> (Passed, (b', t), t)
         | (False, b') \<Rightarrow>
             (case tb_time_until b' amount of
                None \<Rightarrow> (Panicked, (b', t), t)
              | Some d \<Rightarrow> throttle_loop delays (t + d) amount (b', t)))"

definition throttle :: "duration list \<Rightarrow> instant \<Rightarrow> u64 \<Rightarrow> limiter \<Rightarrow> wait \<times> limiter \<times> instant" where
  "throttle delays now amount l =
     (case l of
        None \<Rightarrow> (Passed, None, now)
      | Some bl \<Rightarrow> (case throttle_loop delays now amount bl of (r, bl', t) \<Rightarrow> (r, Some bl', t)))"

text \<open>
  A sender's successive calls, each with the delays of its clock readings and its chunk length: the
  bytes let through, and the state after the last call that was made (the sender never gets past a
  call that does not pass).
\<close>

fun throttle_seq :: "(duration list \<times> u64) list \<Rightarrow> instant \<Rightarrow> limiter \<Rightarrow> nat \<times> limiter \<times> instant" where
  "throttle_seq [] now l = (0, l, now)"
| "throttle_seq ((delays, n) # calls) now l =
     (case throttle delays now n l of
        (Passed, l', t) \<Rightarrow> (case throttle_seq calls t l' of (g, r) \<Rightarrow> (unat n + g, r))
      | (_, l', t) \<Rightarrow> (0, l', t))"

subsection \<open>The loop as rounds of the bucket\<close>

definition round_ops :: "u64 \<Rightarrow> duration list \<Rightarrow> bucket_op list" where
  "round_ops n ds = concat (map (\<lambda>d. [Refill d, Consume n]) ds)"

lemma round_ops_simps [simp]:
  "round_ops n [] = []" "round_ops n (d # ds) = Refill d # Consume n # round_ops n ds"
  by (simp_all add: round_ops_def)

lemma round_ops_elapsed [simp]: "elapsed (round_ops n ds) = sum_list ds"
  by (induction ds) simp_all

lemma round_ops_exact: "unat n \<le> 2 ^ 53 \<Longrightarrow> amounts_exact (round_ops n ds)"
  by (induction ds) simp_all

lemma round_ops_length [simp]: "length (round_ops n ds) = 2 * length ds"
  by (induction ds) simp_all

lemma throttle_loop_rounds:
  "prev \<le> now \<Longrightarrow> throttle_loop delays now n (b, prev) = (r, (b', prev'), t) \<Longrightarrow>
     \<exists>ds. wait_rounds tb_refill tb_try_consume n ds b = (r = Passed, b') \<and>
       bucket_run (round_ops n ds) b = (if r = Passed then unat n else 0, b') \<and>
       prev' = prev + sum_list ds \<and> prev' \<le> t \<and> length ds \<le> length delays \<and>
       (delays \<noteq> [] \<longrightarrow> ds \<noteq> [] \<and> now \<le> prev')"
proof (induction delays arbitrary: now b prev)
  case Nil
  then show ?case by (auto intro: exI [of _ "[]"])
next
  case (Cons d delays)
  let ?t = "now + d"
  obtain g b1 where c: "tb_try_consume n (tb_refill (?t - prev) b) = (g, b1)" by fastforce
  show ?case
  proof (cases "g \<or> tb_time_until b1 n = None")
    case True
    with Cons.prems c show ?thesis
      by (intro exI [of _ "[?t - prev]"]) (auto simp: Let_def split: bool.splits option.splits prod.splits)
  next
    case False
    then obtain w where g: "\<not> g" and w: "tb_time_until b1 n = Some w" by auto
    with Cons.prems(2) c have "throttle_loop delays (?t + w) n (b1, ?t) = (r, (b', prev'), t)"
      by (simp add: Let_def)
    from Cons.IH [OF _ this] obtain ds where
      ds: "wait_rounds tb_refill tb_try_consume n ds b1 = (r = Passed, b')"
        "bucket_run (round_ops n ds) b1 = (if r = Passed then unat n else 0, b')"
        "prev' = ?t + sum_list ds" "prev' \<le> t" "length ds \<le> length delays" by auto
    with Cons.prems(1) c g show ?thesis by (intro exI [of _ "(?t - prev) # ds"]) auto
  qed
qed

lemma throttle_loop_no_panic:
  "bucket_ok b \<Longrightarrow> tb_capacity b \<le> 2 ^ 63 \<Longrightarrow> fst (throttle_loop delays now n (b, prev)) \<noteq> Panicked"
proof (induction delays arbitrary: now b prev)
  case (Cons d delays)
  obtain g b1 where c: "tb_try_consume n (tb_refill (now + d - prev) b) = (g, b1)" by fastforce
  from bucket.refused_round(1) [OF Cons.prems(1) c] have ok: "bucket_ok b1" .
  have cap: "tb_capacity b1 \<le> 2 ^ 63"
    using tb_consume_fields(1) [of n "tb_refill (now + d - prev) b"] c Cons.prems(2)
    by (simp add: tb_refill_fields)
  from time_until_in_range [OF ok cap] obtain w where "tb_time_until b1 n = Some w" by blast
  with Cons.IH [OF ok cap] c show ?case by (auto simp: Let_def split: bool.splits)
qed simp

subsection \<open>The pace of the loop\<close>

text \<open>
  \<open>earning_time b x\<close> is the time, in nanoseconds, in which the bucket earns \<open>x\<close> tokens at four fifths of
  its rate. While an amount is refused, the level stands for at least the time waited so far; and the
  sleep asked for is at most the earning time of what is missing. So the loop never sleeps past the earning
  time of the whole amount, and a reading after it lets the amount through.
\<close>

definition earning_time :: "real \<Rightarrow> real \<Rightarrow> real" where
  "earning_time rate x = 5 / 4 * (x / rate) * real NANOS_PER_SEC"

lemma earning_time_diff: "earning_time rate (x - y) = earning_time rate x - earning_time rate y"
  by (simp add: earning_time_def diff_divide_distrib algebra_simps)

lemma earning_time_less: "1 \<le> rate \<Longrightarrow> x < y \<Longrightarrow> earning_time rate x < earning_time rate y"
  by (simp add: earning_time_def divide_strict_right_mono NANOS_PER_SEC_def)

lemma earning_time_gain:
  assumes "1 \<le> tb_rate b" and "x + tb_gain b d \<le> y"
  shows "earning_time (tb_rate b) x + real d \<le> earning_time (tb_rate b) y"
proof -
  let ?k = "5 / 4 / tb_rate b * real NANOS_PER_SEC"
  have "?k * (x + tb_gain b d) \<le> ?k * y" using assms by (intro mult_left_mono) simp_all
  moreover have "?k * tb_gain b d = real d" using assms(1) by (simp add: tb_gain_def secs_def NANOS_PER_SEC_def)
  moreover have "earning_time (tb_rate b) z = ?k * z" for z by (simp add: earning_time_def)
  ultimately show ?thesis by (simp only: distrib_left)
qed

lemma throttle_loop_pace:
  assumes "tb_small b" and "tb_fits b n" and "tb_rate b = rate" and "1 \<le> rate" and "prev \<le> now"
    and "real prev \<le> start + earning_time rate (tb_tokens b)"
    and "real now \<le> start + earning_time rate (f64_of_u64 n) + 1 / 2"
    and "throttle_loop delays now n (b, prev) = (r, (b', prev'), t)"
  shows "now \<le> t"
    and "r = Passed \<Longrightarrow> \<exists>d \<in> set delays. real t \<le> start + earning_time rate (f64_of_u64 n) + 1 / 2 + real d"
    and "r = Waiting \<Longrightarrow> real t \<le> start + earning_time rate (f64_of_u64 n) + 1 / 2"
    and "r = Waiting \<Longrightarrow> delays \<noteq> [] \<Longrightarrow>
      real prev' < start + earning_time rate (f64_of_u64 n) \<and> now + sum_list delays \<le> prev'"
  using assms
proof (atomize (full), induction delays arbitrary: now b prev)
  case (Cons d delays)
  let ?t = "now + d"
  obtain g b1 where c: "tb_try_consume n (tb_refill (?t - prev) b) = (g, b1)" by fastforce
  show ?case
  proof (cases "g \<or> tb_time_until b1 n = None")
    case True
    with Cons.prems c show ?thesis by (auto simp: Let_def split: bool.splits option.splits)
  next
    case False
    then obtain w where g: "\<not> g" and w: "tb_time_until b1 n = Some w" by auto
    from c g have c: "tb_try_consume n (tb_refill (?t - prev) b) = (False, b1)" by simp
    note step = paced.refused_accrues [OF Cons.prems(1,2) c] paced.refused_round [OF Cons.prems(1) c]
    have rate: "tb_rate b1 = rate"
      using tb_consume_fields(2) [of n "tb_refill (?t - prev) b"] c Cons.prems(3) by (simp add: tb_refill_fields)
    have fits: "tb_fits b1 n" using step(3) Cons.prems(2) by simp
    have "real ?t \<le> start + earning_time rate (tb_tokens b1)"
      using earning_time_gain [of b "tb_tokens b" "?t - prev" "tb_tokens b1"] step(1) Cons.prems(3-6) by simp
    moreover have "real w \<le> earning_time rate (f64_of_u64 n - tb_tokens b1) + 1 / 2"
      using time_until_le [OF _ fits _ w] step(1,2) rate by (simp add: earning_time_def tb_small_def)
    moreover have "earning_time rate (tb_tokens b1) < earning_time rate (f64_of_u64 n)"
      using earning_time_less Cons.prems(4) step(1) by simp
    moreover have run: "throttle_loop delays (?t + w) n (b1, ?t) = (r, (b', prev'), t)"
      using Cons.prems(8) c w by (simp add: Let_def)
    ultimately show ?thesis
      using Cons.IH [OF step(2) fits rate Cons.prems(4) _ _ _ run] run
      by (cases "delays = []") (auto simp: earning_time_diff)
  qed
qed simp

subsection \<open>Calls of a sender\<close>

definition limiter_ok :: "u64 \<Rightarrow> limiter \<Rightarrow> instant \<Rightarrow> bool" where
  "limiter_ok rate l now \<longleftrightarrow>
     (\<exists>b prev. l = Some (b, prev) \<and> prev \<le> now \<and> bucket_ok b \<and> tb_capacity b = 2 ^ 20 \<and>
        tb_rate b = f64_of_u64 (max rate 1))"

lemma f64_burst: "f64_of_u64 (max BANDWIDTH_BURST 1) = 2 ^ 20"
proof -
  have "max BANDWIDTH_BURST 1 = 0x100000" 
    by (simp add: BANDWIDTH_BURST_def max_def push_bit_eq_mult word_le_nat_alt)
  moreover have "f64_of_u64 0x100000 = real (unat (0x100000 :: u64))" by (rule f64_of_u64_exact) simp
  ultimately show ?thesis by simp
qed

lemma limiter_ok_new: "max_bytes_per_sec ent = Some rate \<Longrightarrow> limiter_ok rate (limiter_new ent now) now"
  using bucket_ok_new [of rate BANDWIDTH_BURST] f64_burst
  by (simp add: limiter_ok_def limiter_new_def tb_new_def Let_def)

lemma bucket_run_rate: "tb_rate (snd (bucket_run ops b)) = tb_rate b"
proof (induction ops arbitrary: b)
  case (Cons opn ops)
  then show ?case
  proof (cases opn)
    case (Consume n)
    then show ?thesis
      using Cons.IH tb_consume_fields(2) [of n b] by (auto split: bool.splits prod.splits) (metis snd_conv)+
  qed (simp add: bucket_simps)
qed simp

lemma throttle_Some:
  assumes "limiter_ok rate l now" and "throttle delays now n l = (r, l', t)"
  obtains b prev b' prev' ds where "l = Some (b, prev)" "l' = Some (b', prev')" "prev \<le> now"
    "tb_small b" "tb_capacity b = 2 ^ 20" "tb_rate b = f64_of_u64 (max rate 1)" "r \<noteq> Panicked"
    "wait_rounds tb_refill tb_try_consume n ds b = (r = Passed, b')"
    "bucket_run (round_ops n ds) b = (if r = Passed then unat n else 0, b')"
    "prev' = prev + sum_list ds" "prev' \<le> t" "length ds \<le> length delays"
    "delays \<noteq> [] \<longrightarrow> ds \<noteq> [] \<and> now \<le> prev'"
proof -
  from assms(1) obtain b prev where l: "l = Some (b, prev)" "prev \<le> now" "bucket_ok b"
    "tb_capacity b = 2 ^ 20" "tb_rate b = f64_of_u64 (max rate 1)" by (auto simp: limiter_ok_def)
  with assms(2) obtain b' prev' where
    loop: "throttle_loop delays now n (b, prev) = (r, (b', prev'), t)" "l' = Some (b', prev')"
    by (auto simp: throttle_def split: prod.splits)
  have "r \<noteq> Panicked" using throttle_loop_no_panic [of b delays now n prev] l loop(1) by simp
  with throttle_loop_rounds [OF l(2) loop(1)] l loop(2) that show thesis
    by (auto simp: tb_small_def)
qed

lemma limiter_ok_throttle:
  assumes "limiter_ok rate l now" and "throttle delays now n l = (r, l', t)"
  shows "limiter_ok rate l' t"
proof -
  from throttle_Some [OF assms] obtain b prev b' prev' ds where
    s: "l' = Some (b', prev')" "tb_small b" "tb_capacity b = 2 ^ 20" "tb_rate b = f64_of_u64 (max rate 1)"
      "bucket_run (round_ops n ds) b = (if r = Passed then unat n else 0, b')" "prev' \<le> t" by metis
  have "bucket_ok b'" "tb_capacity b' = 2 ^ 20" "tb_rate b' = f64_of_u64 (max rate 1)"
    using bucket_run_ok [of b "round_ops n ds"] bucket_run_capacity [of "round_ops n ds" b]
      bucket_run_rate [of "round_ops n ds" b] s by (simp_all add: tb_small_def)
  with s show ?thesis by (simp add: limiter_ok_def)
qed

lemma limiter_ok_seq:
  "limiter_ok rate l now \<Longrightarrow> throttle_seq calls now l = (g, l', t) \<Longrightarrow> limiter_ok rate l' t"
proof (induction calls now l arbitrary: g rule: throttle_seq.induct)
  case (2 delays n calls now l)
  obtain r l1 t1 where th: "throttle delays now n l = (r, l1, t1)" by (cases "throttle delays now n l") auto
  note ok1 = limiter_ok_throttle [OF 2(2) th]
  with 2(1) [OF th [symmetric] _ refl] 2(3) th show ?case by (auto split: wait.splits prod.splits)
qed simp

text \<open>The bytes let through, as a run of the bucket.\<close>

lemma bucket_run_append:
  "bucket_run (xs @ ys) b =
     (case bucket_run xs b of (g, b') \<Rightarrow> case bucket_run ys b' of (h, b'') \<Rightarrow> (g + h, b''))"
proof (induction xs arbitrary: b)
  case (Cons opn xs)
  then show ?case by (cases opn) (auto split: prod.splits bool.splits)
qed simp

lemma elapsed_append: "elapsed (xs @ ys) = elapsed xs + elapsed ys"
  by (induction xs rule: elapsed.induct) simp_all

lemma amounts_exact_append: "amounts_exact (xs @ ys) \<longleftrightarrow> amounts_exact xs \<and> amounts_exact ys"
  by (induction xs rule: amounts_exact.induct) simp_all

lemma throttle_seq_run:
  "limiter_ok rate (Some (b, prev)) now \<Longrightarrow> \<forall>(delays, n) \<in> set calls. unat n \<le> 2 ^ 53 \<Longrightarrow>
     throttle_seq calls now (Some (b, prev)) = (g, l', t) \<Longrightarrow>
     \<exists>ops b' prev'. l' = Some (b', prev') \<and> bucket_run ops b = (g, b') \<and> prev' = prev + elapsed ops \<and>
       amounts_exact ops \<and> length ops \<le> 2 * length (concat (map fst calls))"
proof (induction calls arbitrary: b prev now g)
  case Nil
  then show ?case by (auto intro: exI [of _ "[]"])
next
  case (Cons call calls)
  obtain delays n where call: "call = (delays, n)" by fastforce
  obtain r l1 t1 where th: "throttle delays now n (Some (b, prev)) = (r, l1, t1)" by (metis prod_cases3)
  note ok1 = limiter_ok_throttle [OF Cons.prems(1) th]
  obtain b1 prev1 ds where
    s: "l1 = Some (b1, prev1)" "bucket_run (round_ops n ds) b = (if r = Passed then unat n else 0, b1)"
      "prev1 = prev + sum_list ds" "length ds \<le> length delays" "r \<noteq> Panicked"
  proof (rule throttle_Some [OF Cons.prems(1) th], goal_cases)
    case (1 b0 prev0 b1 prev1 ds)
    show thesis by (rule 1(1) [of b1 prev1 ds]) (use 1 in simp_all)
  qed
  have ex: "amounts_exact (round_ops n ds)" using Cons.prems(2) call by (intro round_ops_exact) auto
  show ?case
  proof (cases "r = Passed")
    case True
    with Cons.prems(3) th call s(1) obtain h where
      h: "throttle_seq calls t1 (Some (b1, prev1)) = (h, l', t)" "g = unat n + h" by (auto split: prod.splits)
    from Cons.IH [OF _ _ h(1)] ok1 s(1) Cons.prems(2) obtain ops b' prev' where
      IH: "l' = Some (b', prev')" "bucket_run ops b1 = (h, b')" "prev' = prev1 + elapsed ops"
        "amounts_exact ops" "length ops \<le> 2 * length (concat (map fst calls))" by auto
    with s h(2) ex True show ?thesis
      by (intro exI [of _ "round_ops n ds @ ops"])
         (auto simp: bucket_run_append elapsed_append amounts_exact_append call)
  next
    case False
    with s(5) have "r = Waiting" by (cases r) auto
    with Cons.prems(3) th call s ex show ?thesis by (intro exI [of _ "round_ops n ds"]) auto
  qed
qed

text \<open>The length of a chunk is bounded by the scrollback it is cut from.\<close>

lemma foldl_append_bound:
  "max_bytes s = m \<Longrightarrow> length (buf s) \<le> m \<Longrightarrow> length (buf (foldl session_append s chunks)) \<le> m"
proof (induction chunks arbitrary: s)
  case (Cons b bs)
  from Cons.IH [of "session_append s b"] Cons.prems show ?case
    using session_append_bound [of s b] by (simp add: session_simps)
qed simp

lemma reader_poll_chunk_length: "reader_poll s c = (Chunk bs, c') \<Longrightarrow> length bs \<le> length (buf s)"
  by (auto simp: reader_poll_def Let_def split: if_splits)

lemma created_session_inner:
  assumes "mgr_create sid token fp (gateway_new mgr_new) = (a, g)"
  shows "sess_inner (session_at g a) = sess_inner (session_spawn sid token fp DEFAULT_SCROLLBACK_BYTES)"
  using assms by (auto simp: mgr_create_def session_at_def gateway_new_def mgr_new_def with_scrollback_def Let_def)

subsection \<open>Properties\<close>

text \<open>
  C25 (liveness). Output is never stuck behind the limiter: once a rate-limited sender has sent any
  chunks, a chunk of at most the burst (1 MiB) passes in time. Let the bound be $5/4$ of the chunk's length
  over the rate. The loop never panics; every sleep it asks for ends within the bound after the call, to
  half a nanosecond; it passes at a reading of the clock that comes within the bound after the call plus
  the delay of a reading; a reading that refuses comes before the bound; and it has passed as soon as the
  delays of its readings add up to the bound, however the time was split into sleeps.
\<close>

theorem throttle_wait_bounded:
  assumes "max_bytes_per_sec ent = Some rate" and "n \<le> BANDWIDTH_BURST"
    and "throttle_seq calls t0 (limiter_new ent t0) = (g, l, now)"
    and "throttle delays now n l = (r, l', t)"
  shows "let bound = 5 / 4 * (real (unat n) / f64_of_u64 (max rate 1)) * real NANOS_PER_SEC
    in r \<noteq> Panicked \<and> now \<le> t \<and>
       (r = Passed \<longrightarrow> (\<exists>d \<in> set delays. real (t - now) \<le> bound + 1 / 2 + real d)) \<and>
       (r = Waiting \<longrightarrow> real (t - now) \<le> bound + 1 / 2) \<and>
       (r = Waiting \<and> delays \<noteq> [] \<longrightarrow> (\<exists>b prev. l' = Some (b, prev) \<and> now \<le> prev \<and> real (prev - now) < bound)) \<and>
       (delays \<noteq> [] \<and> bound \<le> real (sum_list delays) \<longrightarrow> r = Passed)"
proof -
  let ?rate = "f64_of_u64 (max rate 1)"
  note ok = limiter_ok_seq [OF limiter_ok_new [OF assms(1)] assms(3)]
  then obtain b prev where l: "l = Some (b, prev)" "prev \<le> now" "bucket_ok b" "tb_capacity b = 2 ^ 20" "tb_rate b = ?rate"
    by (auto simp: limiter_ok_def)
  then obtain b' prev' where loop: "throttle_loop delays now n (b, prev) = (r, (b', prev'), t)" and l': "l' = Some (b', prev')"
    using assms(4) by (auto simp: throttle_def split: prod.splits)
  have n: "unat n \<le> 2 ^ 20" using assms(2) by (simp add: word_le_nat_alt BANDWIDTH_BURST_def push_bit_eq_mult)
  then have f: "f64_of_u64 n = real (unat n)" by (intro f64_of_u64_exact) simp
  have "real (unat n) \<le> real (2 ^ 20)" using n by (simp only: of_nat_le_iff)
  then have fits: "tb_fits b n" by (simp add: tb_fits_def f l(4) del: of_nat_unat)
  have small: "tb_small b" and rate: "1 \<le> ?rate" using l(3-5) by (auto simp: tb_small_def bucket_ok_def)
  have level: "0 \<le> earning_time ?rate (tb_tokens b)" and need: "0 \<le> earning_time ?rate (f64_of_u64 n)"
    using l(3) rate by (simp_all add: earning_time_def bucket_ok_def)
  have no_panic: "r \<noteq> Panicked" using throttle_loop_no_panic [of b delays now n prev] l loop by simp
  let ?B = "earning_time ?rate (f64_of_u64 n)"
  have B: "5 / 4 * (real (unat n) / ?rate) * real NANOS_PER_SEC = ?B" by (simp only: earning_time_def f)
  have start: "real prev \<le> real now + earning_time ?rate (tb_tokens b)" "real now \<le> real now + ?B + 1 / 2"
    using l(2) level need by linarith+
  note pace = throttle_loop_pace [OF small fits l(5) rate l(2) start loop]
  have elapsed_real: "real (t - now) = real t - real now" using pace(1) by (simp add: of_nat_diff)
  have passed: "\<exists>d \<in> set delays. real (t - now) \<le> ?B + 1 / 2 + real d" if "r = Passed"
    unfolding elapsed_real using pace(2) [OF that] by (simp add: algebra_simps)
  have waiting: "real (t - now) \<le> ?B + 1 / 2" if "r = Waiting"
    unfolding elapsed_real using pace(3) [OF that] by simp
  have refused: "now \<le> prev'" "real (prev' - now) < ?B" "real (sum_list delays) < ?B" if "r = Waiting" "delays \<noteq> []"
    using pace(4) [OF that] by (linarith, simp add: of_nat_diff, linarith)
  have "r = Passed" if "delays \<noteq> []" "?B \<le> real (sum_list delays)"
    using refused(3) that no_panic by (cases r) auto
  with no_panic pace(1) passed waiting refused(1,2) l' show ?thesis unfolding B Let_def by blast
qed

theorem throttle_wait_bounded_witness:
  "fst (throttle [5, 125000000] 3 100 (limiter_new \<lparr>max_bytes_per_sec = Some 1000, max_sessions = None\<rparr> 3)) = Passed"
proof -
  let ?ent = "\<lparr>max_bytes_per_sec = Some 1000, max_sessions = None\<rparr>"
  obtain r l' t where th: "throttle [5, 125000000] 3 100 (limiter_new ?ent 3) = (r, l', t)" by (metis prod_cases3)
  have "(100 :: u64) \<le> BANDWIDTH_BURST" by (simp add: BANDWIDTH_BURST_def push_bit_eq_mult word_le_nat_alt)
  moreover have "f64_of_u64 (max 1000 1) = 1000" by (simp add: max_def word_le_nat_alt f64_of_u64_exact)
  ultimately show ?thesis
    using throttle_wait_bounded [OF _ _ _ th, of ?ent 1000 "[]" 3 0] th by (simp add: Let_def NANOS_PER_SEC_def)
qed

text \<open>
  A chunk longer than the burst never passes a rate limit, however long the sender
  waits for it.
\<close>

lemma throttle_oversized_never_passes:
  assumes "max_bytes_per_sec ent = Some rate" and "BANDWIDTH_BURST < n"
    and "throttle_seq calls t0 (limiter_new ent t0) = (g, l, now)"
  shows "fst (throttle delays now n l) = Waiting"
proof -
  have n: "2 ^ 20 + 1 \<le> unat n" using assms(2) by (simp add: word_less_nat_alt BANDWIDTH_BURST_def push_bit_eq_mult)
  have "real (2 ^ 20 + 1) \<le> f64_of_u64 n"
    unfolding f64_of_u64_def using n by (intro f64.rnd_ge_nat) (simp_all only: of_nat_le_iff, simp)
  then have big: "\<not> tb_fits b n" if "tb_capacity b = 2 ^ 20" for b using that by (simp add: tb_fits_def)
  obtain r l' t where th: "throttle delays now n l = (r, l', t)" by (metis prod_cases3)
  from throttle_Some [OF limiter_ok_seq [OF limiter_ok_new [OF assms(1)] assms(3)] th]
  obtain b b' ds where b: "tb_small b" "tb_capacity b = 2 ^ 20" "r \<noteq> Panicked"
    "wait_rounds tb_refill tb_try_consume n ds b = (r = Passed, b')" by metis
  with paced.wait_oversized [OF b(1) big [OF b(2)], of ds] have "r \<noteq> Passed" by simp
  with b(3) th show ?thesis by (cases r) auto
qed

text \<open>
  C26 (bounds). The bandwidth cap of an entitlement: from the start of a rate-limited sender up to its
  last clock reading, the bytes it lets through are at most the burst plus the rate times the time
  passed, up to the rounding of eight double-precision operations per clock reading.
\<close>

theorem throttle_rate_cap:
  assumes "max_bytes_per_sec ent = Some rate" and "\<forall>(delays, n) \<in> set calls. unat n \<le> 2 ^ 53"
    and "throttle_seq calls t0 (limiter_new ent t0) = (g, l, now)"
  shows "\<exists>b prev. l = Some (b, prev) \<and> t0 \<le> prev \<and> prev \<le> now \<and>
    real g \<le> (2 ^ 20 + f64_of_u64 (max rate 1) * (real (prev - t0) / real NANOS_PER_SEC))
      * (1 + 1 / 2 ^ 53) ^ (8 * length (concat (map fst calls)))"
proof -
  let ?b = "tb_new rate BANDWIDTH_BURST" and ?k = "length (concat (map fst calls))"
  have new: "limiter_new ent t0 = Some (?b, t0)" using assms(1) by (simp add: limiter_new_def)
  note ok = limiter_ok_new [OF assms(1), of t0]
  from throttle_seq_run [of rate ?b t0 t0 calls] ok assms(2,3) obtain ops b' prev' where
    run: "l = Some (b', prev')" "bucket_run ops ?b = (g, b')" "prev' = t0 + elapsed ops"
      "amounts_exact ops" "length ops \<le> 2 * ?k" unfolding new by blast
  have b': "0 \<le> tb_tokens b'" "prev' \<le> now"
    using limiter_ok_seq [OF ok assms(3)] run(1) by (auto simp: limiter_ok_def bucket_ok_def)
  let ?x = "2 ^ 20 + f64_of_u64 (max rate 1) * secs (elapsed ops)"
  have "real g \<le> ?x * rnd_hi ^ (4 * length ops)"
    using bucket_run_bound [OF bucket_ok_new run(4,2)] b'(1) f64_burst by (simp add: tb_new_def Let_def)
  also have "\<dots> \<le> ?x * rnd_hi ^ (8 * ?k)"
    using run(5) q_gt1 by (intro mult_left_mono power_increasing add_nonneg_nonneg mult_nonneg_nonneg) auto
  finally show ?thesis using run(1,3) b'(2) by (simp add: secs_def f64_eps_def)
qed

theorem throttle_rate_cap_witness:
  "case throttle_seq [([5], 100), ([7, 9], 200)] 3
        (limiter_new \<lparr>max_bytes_per_sec = Some 1000, max_sessions = None\<rparr> 3) of
     (g, l, now) \<Rightarrow> \<exists>b prev. l = Some (b, prev) \<and> 3 \<le> prev \<and> prev \<le> now \<and>
       real g \<le> (2 ^ 20 + f64_of_u64 (max 1000 1) * (real (prev - 3) / real NANOS_PER_SEC)) * (1 + 1 / 2 ^ 53) ^ 24"
proof -
  let ?ent = "\<lparr>max_bytes_per_sec = Some 1000, max_sessions = None\<rparr>" and ?c = "[([5], 100), ([7, 9], 200)]"
  obtain g l now where seq: "throttle_seq ?c 3 (limiter_new ?ent 3) = (g, l, now)" by (metis prod_cases3)
  from throttle_rate_cap [OF _ _ this, of 1000] seq show ?thesis by (simp del: throttle_seq.simps)
qed

text \<open>
  Every chunk that a reader of a session of the default manager yields fits the burst of
  the limiter, whatever output the session has had: no such chunk is the one that never passes.
\<close>

lemma default_chunk_within_burst:
  assumes "mgr_create sid token fp (gateway_new mgr_new) = (a, g)"
    and "reader_poll (foldl session_append (sess_inner (session_at g a)) chunks) c = (Chunk bs, c')"
  shows "of_nat (length bs) \<le> BANDWIDTH_BURST"
proof -
  note new = created_session_inner [OF assms(1)]
  have "length (buf (foldl session_append (sess_inner (session_at g a)) chunks)) \<le> DEFAULT_SCROLLBACK_BYTES"
    unfolding new by (rule foldl_append_bound) (simp_all add: session_simps)
  with reader_poll_chunk_length [OF assms(2)] have "length bs \<le> 262144"
    by (simp add: DEFAULT_SCROLLBACK_BYTES_def)
  then show ?thesis
    by (simp add: word_le_nat_alt BANDWIDTH_BURST_def push_bit_eq_mult unat_of_nat_small)
qed

end
