(* ===== verification/Server_Http_Hook.thy ===== *)
theory Server_Http_Hook
  imports Core_Quota Text_Model
begin

text \<open>
  The HTTP control-plane hook, \<open>gw-server/src/http_hook.rs\<close>: an \<open>AuthHook\<close> that posts to the
  control plane to authorize a client, to open and close sessions, and to report usage.

  The HTTP client and its JSON decoding (reqwest, serde) are parameters: \<open>rq_send\<close> sends a request
  and yields a response or an error, \<open>rq_json_authorize\<close> and \<open>rq_json_session_open\<close> read a response
  body. A request is its URL, its headers and the value serialized as its body.

  The properties: the base URL normalisation; authorization and session opening fail closed (only a
  successful status with a parsed \<open>allowed: true\<close> admits anyone); which requests are sent, with the
  shared secret on each of them; and that reporting never fails the caller.
\<close>

record authorize_request =
  ar_client_name :: string
  ar_account_token :: "string option"

record session_open_request =
  so_account_token :: string
  so_session_id :: string
  so_client_name :: string

record session_close_request =
  sc_account_token :: string
  sc_session_id :: string

record usage_report =
  ur_account_token :: string
  ur_session_id :: string
  ur_bytes_in :: u64
  ur_bytes_out :: u64

record entitlement_dto =
  dto_max_bytes_per_sec :: "u64 option"
  dto_max_sessions :: "u32 option"

record authorize_response =
  rsp_allowed :: bool
  rsp_reason :: "string option"
  rsp_entitlement :: entitlement_dto

record session_open_response =
  sor_allowed :: bool
  sor_reason :: "string option"

datatype request_body =
  B_Authorize authorize_request
| B_Open session_open_request
| B_Close session_close_request
| B_Usage usage_report

record http_request =
  rq_url :: string
  rq_headers :: "(string \<times> string) list"
  rq_body :: "request_body option"

record ('s, 'r) reqwest =
  rq_send :: "http_request \<Rightarrow> ('s, ext_error, 'r) io"
  rq_is_success :: "'r \<Rightarrow> bool"
  rq_status_display :: "'r \<Rightarrow> string"
  rq_json_authorize :: "'r \<Rightarrow> ('s, ext_error, authorize_response) io"
  rq_json_session_open :: "'r \<Rightarrow> ('s, ext_error, session_open_response) io"

record http_auth_hook =
  hk_base :: string
  hk_key :: "string option"

subsection \<open>Construction\<close>

function pop_slashes :: "string \<Rightarrow> string" where
  "pop_slashes base = (if ends_with base (CHR ''/'') then pop_slashes (butlast base) else base)"
  by auto
termination by (relation "measure length") (auto simp: ends_with_def)

declare pop_slashes.simps [simp del]

definition http_new :: "string \<Rightarrow> string option \<Rightarrow> http_auth_hook" where
  "http_new base key =
     (let base1 = (case strip_suffix base ''/v1/authorize'' of Some stripped \<Rightarrow> stripped | None \<Rightarrow> base)
      in \<lparr>hk_base = pop_slashes base1, hk_key = key\<rparr>)"

subsection \<open>Requests\<close>

definition http_post :: "http_auth_hook \<Rightarrow> string \<Rightarrow> http_request" where
  "http_post h path =
     \<lparr>rq_url = hk_base h @ path,
      rq_headers = (case hk_key h of Some key \<Rightarrow> [(''x-gateway-key'', key)] | None \<Rightarrow> []),
      rq_body = None\<rparr>"

definition with_json :: "request_body \<Rightarrow> http_request \<Rightarrow> http_request" where
  "with_json body req = req\<lparr>rq_body := Some body\<rparr>"

definition token_string :: "bytes option \<Rightarrow> string" where
  "token_string account_token = (case map_option from_utf8_lossy account_token of Some s \<Rightarrow> s | None \<Rightarrow> [])"

subsection \<open>The hook's methods\<close>

definition http_authorize ::
  "('s, 'r) reqwest \<Rightarrow> http_auth_hook \<Rightarrow> string \<Rightarrow> bytes option \<Rightarrow> ('s, denied, entitlement) io" where
  "http_authorize H h client_name account_token =
     (let body = \<lparr>ar_client_name = client_name, ar_account_token = map_option from_utf8_lossy account_token\<rparr>
      in io_bind
           (io_map_err (\<lambda>e. Denied (''control plane unreachable: '' @ e))
             (rq_send H (with_json (B_Authorize body) (http_post h ''/v1/authorize'')))) (\<lambda>response.
         if \<not> rq_is_success H response
         then io_fail (Denied (''control plane returned '' @ rq_status_display H response))
         else io_bind
                (io_map_err (\<lambda>e. Denied (''bad control-plane response: '' @ e)) (rq_json_authorize H response)) (\<lambda>parsed.
              if \<not> rsp_allowed parsed
              then io_fail (Denied (case rsp_reason parsed of Some r \<Rightarrow> r | None \<Rightarrow> ''authorization denied''))
              else io_return \<lparr>max_bytes_per_sec = dto_max_bytes_per_sec (rsp_entitlement parsed),
                              max_sessions = dto_max_sessions (rsp_entitlement parsed)\<rparr>)))"

definition http_session_open ::
  "('s, 'r) reqwest \<Rightarrow> http_auth_hook \<Rightarrow> bytes option \<Rightarrow> string \<Rightarrow> string \<Rightarrow> ('s, denied, unit) io" where
  "http_session_open H h account_token session_id client_name =
     (let body = \<lparr>so_account_token = token_string account_token, so_session_id = session_id,
                  so_client_name = client_name\<rparr>
      in io_bind
           (io_map_err (\<lambda>e. Denied (''control plane unreachable: '' @ e))
             (rq_send H (with_json (B_Open body) (http_post h ''/v1/sessions/open'')))) (\<lambda>response.
         if \<not> rq_is_success H response
         then io_fail (Denied (''control plane returned '' @ rq_status_display H response))
         else io_bind
                (io_map_err (\<lambda>e. Denied (''bad control-plane response: '' @ e)) (rq_json_session_open H response)) (\<lambda>parsed.
              if sor_allowed parsed then io_return ()
              else io_fail (Denied (case sor_reason parsed of Some r \<Rightarrow> r | None \<Rightarrow> ''session refused'')))))"

text \<open>The two reports only log a failed request.\<close>

definition http_session_close ::
  "('s, 'r) reqwest \<Rightarrow> http_auth_hook \<Rightarrow> bytes option \<Rightarrow> string \<Rightarrow> 's \<Rightarrow> 's" where
  "http_session_close H h account_token session_id s =
     (let body = \<lparr>sc_account_token = token_string account_token, sc_session_id = session_id\<rparr>
      in snd (rq_send H (with_json (B_Close body) (http_post h ''/v1/sessions/close'')) s))"

definition http_report_usage ::
  "('s, 'r) reqwest \<Rightarrow> http_auth_hook \<Rightarrow> bytes option \<Rightarrow> string \<Rightarrow> u64 \<Rightarrow> u64 \<Rightarrow> 's \<Rightarrow> 's" where
  "http_report_usage H h account_token session_id n_in n_out s =
     (if n_in = 0 \<and> n_out = 0 then s
      else let body = \<lparr>ur_account_token = token_string account_token, ur_session_id = session_id,
                       ur_bytes_in = n_in, ur_bytes_out = n_out\<rparr>
           in snd (rq_send H (with_json (B_Usage body) (http_post h ''/v1/usage'')) s))"

definition http_hook :: "('s, 'r) reqwest \<Rightarrow> http_auth_hook \<Rightarrow> 's auth_hook" where
  "http_hook H h =
     \<lparr>hook_authorize = http_authorize H h, hook_session_open = http_session_open H h,
      hook_session_close = http_session_close H h, hook_report_usage = http_report_usage H h\<rparr>"

subsection \<open>The base URL\<close>

lemma pop_slashes_ends: "\<not> ends_with (pop_slashes b) (CHR ''/'')"
  by (induction b rule: pop_slashes.induct) (subst pop_slashes.simps, simp)

lemma pop_slashes_id: "\<not> ends_with b (CHR ''/'') \<Longrightarrow> pop_slashes b = b"
  by (subst pop_slashes.simps) simp

lemma pop_slashes_snoc: "pop_slashes (b @ ''/'') = pop_slashes b"
  by (subst pop_slashes.simps) (simp add: ends_with_def)

lemma pop_slashes_append: "\<exists>n. b = pop_slashes b @ replicate n (CHR ''/'')"
proof (induction b rule: pop_slashes.induct)
  case (1 base)
  show ?case
  proof (cases "ends_with base (CHR ''/'')")
    case True
    with 1 obtain n where "butlast base = pop_slashes (butlast base) @ replicate n (CHR ''/'')" by blast
    moreover from True have "base = butlast base @ ''/''" by (metis append_butlast_last_id ends_with_def)
    ultimately have "base = pop_slashes (butlast base) @ replicate (Suc n) (CHR ''/'')"
      by (metis append.assoc replicate_append_same replicate_Suc)
    with True have "base = pop_slashes base @ replicate (Suc n) (CHR ''/'')"
      by (simp only: pop_slashes.simps [of base] if_True)
    then show ?thesis ..
  qed (auto simp: pop_slashes_id intro: exI [of _ 0])
qed

lemma strip_suffix_None: "strip_suffix s suf = None \<longleftrightarrow> (\<forall>p. s \<noteq> p @ suf)"
  using strip_suffix_Some [of s suf] by (metis not_None_eq)

lemma strip_suffix_other_end: "suf \<noteq> [] \<Longrightarrow> last s \<noteq> last suf \<Longrightarrow> strip_suffix s suf = None"
  unfolding strip_suffix_None by auto

subsection \<open>The requests of a hook\<close>

text \<open>
  \<open>sends_logged H reqs\<close>: sending a request adds it to the log of requests, reading a response body
  does not.
\<close>

definition sends_logged :: "('s, 'r) reqwest \<Rightarrow> ('s \<Rightarrow> http_request list) \<Rightarrow> bool" where
  "sends_logged H reqs \<longleftrightarrow>
     (\<forall>req s. reqs (snd (rq_send H req s)) = reqs s @ [req]) \<and>
     (\<forall>r s. reqs (snd (rq_json_authorize H r s)) = reqs s) \<and>
     (\<forall>r s. reqs (snd (rq_json_session_open H r s)) = reqs s)"

lemma sends_loggedD:
  assumes "sends_logged H reqs"
  shows "rq_send H req s = (r, s') \<Longrightarrow> reqs s' = reqs s @ [req]"
    and "rq_json_authorize H rsp s = (a, s') \<Longrightarrow> reqs s' = reqs s"
    and "rq_json_session_open H rsp s = (b, s') \<Longrightarrow> reqs s' = reqs s"
  using assms unfolding sends_logged_def by (metis snd_conv)+

subsection \<open>Properties\<close>

text \<open>
  C32 (safety). The hook fails closed. A client is admitted exactly when the control plane was
  reached, answered the one request with a success status, and the body parsed and says \<open>allowed\<close>;
  the entitlement is then the one of the body. The same holds for opening a session. Unreachable
  servers, error statuses, malformed bodies and refusals all deny.
\<close>

theorem http_hook_fails_closed:
  "(http_authorize H h client tok s = (Inr ent, s') \<longleftrightarrow>
      (\<exists>rsp s1 p. rq_send H (with_json (B_Authorize \<lparr>ar_client_name = client,
           ar_account_token = map_option from_utf8_lossy tok\<rparr>) (http_post h ''/v1/authorize'')) s = (Inr rsp, s1) \<and>
         rq_is_success H rsp \<and> rq_json_authorize H rsp s1 = (Inr p, s') \<and> rsp_allowed p \<and>
         max_bytes_per_sec ent = dto_max_bytes_per_sec (rsp_entitlement p) \<and>
         max_sessions ent = dto_max_sessions (rsp_entitlement p))) \<and>
   (http_session_open H h tok sid client s = (Inr (), s') \<longleftrightarrow>
      (\<exists>rsp s1 p. rq_send H (with_json (B_Open \<lparr>so_account_token = token_string tok, so_session_id = sid,
           so_client_name = client\<rparr>) (http_post h ''/v1/sessions/open'')) s = (Inr rsp, s1) \<and>
         rq_is_success H rsp \<and> rq_json_session_open H rsp s1 = (Inr p, s') \<and> sor_allowed p))"
  by (auto simp: http_authorize_def http_session_open_def Let_def io_apply
      split: prod.splits sum.splits if_splits)

text \<open>
  C33 (functional). What the hook sends, whatever the account token (also none, also one that is not
  UTF-8) and whatever the answer: each method sends exactly one request, to its own path under the base
  URL and with the shared secret as \<open>x-gateway-key\<close> if there is one; a usage report with nothing to report
  sends none. A missing token is sent as \<open>null\<close> by \<open>authorize\<close> and as the empty string by the others; a
  token that is valid UTF-8 is sent unchanged, another one with replacement characters.
\<close>

theorem http_hook_requests:
  assumes "sends_logged H reqs"
  shows "let hdr = (case hk_key h of Some k \<Rightarrow> [(''x-gateway-key'', k)] | None \<Rightarrow> []);
             hook = http_hook H h; text = map_option from_utf8_lossy tok; token = (case text of Some t \<Rightarrow> t | None \<Rightarrow> [])
    in reqs (snd (hook_authorize hook client tok s)) = reqs s @ [\<lparr>rq_url = hk_base h @ ''/v1/authorize'', rq_headers = hdr,
         rq_body = Some (B_Authorize \<lparr>ar_client_name = client, ar_account_token = text\<rparr>)\<rparr>] \<and>
       reqs (snd (hook_session_open hook tok sid client s)) = reqs s @ [\<lparr>rq_url = hk_base h @ ''/v1/sessions/open'', rq_headers = hdr,
         rq_body = Some (B_Open \<lparr>so_account_token = token, so_session_id = sid, so_client_name = client\<rparr>)\<rparr>] \<and>
       reqs (hook_session_close hook tok sid s) = reqs s @ [\<lparr>rq_url = hk_base h @ ''/v1/sessions/close'', rq_headers = hdr,
         rq_body = Some (B_Close \<lparr>sc_account_token = token, sc_session_id = sid\<rparr>)\<rparr>] \<and>
       reqs (hook_report_usage hook tok sid n m s) = reqs s @ (if n = 0 \<and> m = 0 then [] else
         [\<lparr>rq_url = hk_base h @ ''/v1/usage'', rq_headers = hdr,
           rq_body = Some (B_Usage \<lparr>ur_account_token = token, ur_session_id = sid, ur_bytes_in = n, ur_bytes_out = m\<rparr>)\<rparr>]) \<and>
       (\<forall>t. tok = Some t \<and> utf8_valid t \<longrightarrow> text = Some (bytes_str t) \<and> token = bytes_str t)"
proof -
  have tok: "from_utf8_lossy t = bytes_str t" if "utf8_valid t" for t
    using that by (simp add: from_utf8_lossy_def utf8_lossy_id)
  note logs = sends_loggedD [OF assms]
  note sent = spec [OF spec [OF conjunct1 [OF assms [unfolded sends_logged_def]]]]
  show ?thesis
    by (auto simp: http_hook_def http_authorize_def http_session_open_def http_session_close_def
        http_report_usage_def Let_def io_apply with_json_def http_post_def token_string_def tok sent
        dest!: logs split: prod.splits sum.splits)
qed

definition demo_reqwest :: "bool \<Rightarrow> (http_request list, bool) reqwest" where
  "demo_reqwest allow =
     \<lparr>rq_send = (\<lambda>req s. (Inr allow, s @ [req])), rq_is_success = (\<lambda>r. True), rq_status_display = (\<lambda>r. ''200 OK''),
      rq_json_authorize = (\<lambda>r s. (Inr \<lparr>rsp_allowed = r, rsp_reason = None,
         rsp_entitlement = \<lparr>dto_max_bytes_per_sec = Some 1000, dto_max_sessions = Some 5\<rparr>\<rparr>, s)),
      rq_json_session_open = (\<lambda>r s. (Inr \<lparr>sor_allowed = r, sor_reason = None\<rparr>, s))\<rparr>"

theorem http_hook_requests_witness:
  "snd (hook_authorize (http_hook (demo_reqwest True) (http_new ''http://cp'' (Some ''k''))) ''ipad'' None []) =
     [\<lparr>rq_url = ''http://cp'' @ ''/v1/authorize'', rq_headers = [(''x-gateway-key'', ''k'')],
       rq_body = Some (B_Authorize \<lparr>ar_client_name = ''ipad'', ar_account_token = None\<rparr>)\<rparr>] \<and>
   snd (hook_session_open (http_hook (demo_reqwest True) (http_new ''http://cp'' (Some ''k''))) (Some [0x74]) ''7'' ''ipad'' []) =
     [\<lparr>rq_url = ''http://cp'' @ ''/v1/sessions/open'', rq_headers = [(''x-gateway-key'', ''k'')],
       rq_body = Some (B_Open \<lparr>so_account_token = bytes_str [0x74], so_session_id = ''7'', so_client_name = ''ipad''\<rparr>)\<rparr>]"
proof -
  let ?h = "http_new ''http://cp'' (Some ''k'')"
  have logged: "sends_logged (demo_reqwest True) id" by (simp add: sends_logged_def demo_reqwest_def)
  have valid: "utf8_valid [0x74]" by (simp add: utf8_scan_def utf8_width_def)
  have h: "hk_base ?h = ''http://cp''" "hk_key ?h = Some ''k''"
    by (simp_all add: http_new_def strip_suffix_def pop_slashes_id ends_with_def Let_def)
  from http_hook_requests [OF logged, of ?h None "''ipad''" "[]"]
    http_hook_requests [OF logged, of ?h "Some [0x74]" "''ipad''" "[]" "''7''"] h valid
  show ?thesis by (simp add: Let_def)
qed

text \<open>
  The base URL: whatever is configured, the hook's base has no trailing slash and
  is what was configured less trailing slashes and at most one \<open>/v1/authorize\<close> before them. So a base URL
  may be given as such, with a trailing slash, or as the legacy webhook URL, with the same effect.
\<close>

lemma http_new_base:
  "\<not> ends_with (hk_base (http_new url key)) (CHR ''/'') \<and>
   (\<exists>n. url = hk_base (http_new url key) @ replicate n (CHR ''/'') \<or>
        url = hk_base (http_new url key) @ replicate n (CHR ''/'') @ ''/v1/authorize'') \<and>
   hk_base (http_new (hk_base (http_new url key) @ ''/v1/authorize'') key) = hk_base (http_new url key) \<and>
   hk_base (http_new (hk_base (http_new url key) @ ''/'') key) = hk_base (http_new url key) \<and>
   hk_key (http_new url key) = key"
proof (intro conjI)
  let ?b = "hk_base (http_new url key)"
  show ends: "\<not> ends_with ?b (CHR ''/'')" by (simp add: http_new_def Let_def pop_slashes_ends)
  show "\<exists>n. url = ?b @ replicate n (CHR ''/'') \<or> url = ?b @ replicate n (CHR ''/'') @ ''/v1/authorize''"
  proof (cases "strip_suffix url ''/v1/authorize''")
    case None
    with pop_slashes_append [of url] show ?thesis by (auto simp: http_new_def)
  next
    case (Some p)
    then have "url = p @ ''/v1/authorize''" by (simp add: strip_suffix_Some)
    with Some pop_slashes_append [of p] show ?thesis by (auto simp: http_new_def)
  qed
  have "strip_suffix (?b @ ''/v1/authorize'') ''/v1/authorize'' = Some ?b" by (subst strip_suffix_Some) simp
  with ends show "hk_base (http_new (?b @ ''/v1/authorize'') key) = ?b"
    by (simp add: http_new_def [of "_ @ _"] pop_slashes_id)
  have "strip_suffix (?b @ ''/'') ''/v1/authorize'' = None"
    by (rule strip_suffix_other_end) simp_all
  with ends show "hk_base (http_new (?b @ ''/'') key) = ?b"
    by (simp add: http_new_def [of "_ @ _"] pop_slashes_snoc pop_slashes_id)
  show "hk_key (http_new url key) = key" by (simp add: http_new_def Let_def)
qed

text \<open>
  C39 (error). A webhook URL with both suffixes keeps the path: configured as \<open>.../v1/authorize/\<close>,
  only the slash goes, and the hook posts to \<open>.../v1/authorize/v1/authorize\<close>, although a trailing
  \<open>/v1/authorize\<close> and a trailing slash are each documented to be stripped.
\<close>

theorem http_new_keeps_authorize_before_slash:
  "hk_base (http_new (base @ ''/v1/authorize/'') key) = base @ ''/v1/authorize''"
proof -
  have "strip_suffix (base @ ''/v1/authorize/'') ''/v1/authorize'' = None"
    by (rule strip_suffix_other_end) simp_all
  moreover have "pop_slashes ((base @ ''/v1/authorize'') @ ''/'') = base @ ''/v1/authorize''"
    unfolding pop_slashes_snoc by (rule pop_slashes_id) (simp add: ends_with_def)
  ultimately show ?thesis by (simp add: http_new_def)
qed

end
