(* ===== verification/Server_Handler.thy ===== *)
theory Server_Handler
  imports Ssh_Client Server_Throttle Server_Config
begin

text \<open>
  The connection handler, \<open>gw-server/src/handler.rs\<close>: negotiation (\<open>negotiate\<close>, \<open>open_for_auth\<close>,
  the delegated signer over the control stream), the receiver loop and the lifecycle of a
  connection (\<open>handle_connection\<close>).

  The state of a handler is a record \<open>conn\<close>. The client's side of the control stream is the list of
  frames it sends until the stream breaks. What is shared with the rest of the gateway (the session
  manager and the world outside) may be changed by other tasks at every \<open>await\<close>: each call on the
  control stream applies \<open>other\<close>, an arbitrary function, and the calls of the SSH library and of
  the authorization hook are arbitrary functions of the shared state. \<open>events\<close> is a log of what the
  handler itself does, in order; the program does not read it. The fate of a send is a function
  \<open>link\<close> of the log and the frame.
\<close>

record 'w shared_state =
  sh_gw :: gateway
  sh_world :: 'w

datatype event =
  Ev_Sent server_frame
| Ev_Authorize string "bytes option" bool
| Ev_Ssh target_spec
| Ev_Resume session_id
| Ev_Create session_id
| Ev_Session_open "bytes option" string string bool
| Ev_Input arc ssh_input
| Ev_Oob server_frame
| Ev_Usage "bytes option" string u64 u64
| Ev_Session_close "bytes option" string
| Ev_Remove session_id

record 'w conn =
  incoming :: "client_frame list"
  next_id :: u64
  meter :: usage_meter
  events :: "event list"
  shared :: "'w shared_state"

record ('w, 'h, 'c, 'k, 'sk) gateway_env =
  link :: "event list \<Rightarrow> server_frame \<Rightarrow> transport_error option"
  lost :: transport_error
  other :: "'w shared_state \<Rightarrow> 'w shared_state"
  russh_of :: "('w shared_state, 'h, 'c, 'k, 'sk) russh"
  hook_of :: "'w shared_state auth_hook"
  new_session_id :: "'w shared_state \<Rightarrow> session_id"
  new_resume_token :: "'w shared_state \<Rightarrow> bytes"
  queue_input :: "arc \<Rightarrow> ssh_input \<Rightarrow> 'w shared_state \<Rightarrow> bool \<times> 'w shared_state"
  debug_frame :: "client_frame \<Rightarrow> string"

definition put_shared :: "'w shared_state \<Rightarrow> 'w conn \<Rightarrow> 'w conn" where
  "put_shared sh s = s\<lparr>shared := sh\<rparr>"

definition note_event :: "event \<Rightarrow> 'w conn \<Rightarrow> 'w conn" where
  "note_event e s = s\<lparr>events := events s @ [e]\<rparr>"

definition noted :: "event \<Rightarrow> ('w conn, 'e, unit) io" where
  "noted e s = (Inr (), note_event e s)"

abbreviation within_shared :: "('w shared_state, 'e, 'a) io \<Rightarrow> ('w conn, 'e, 'a) io" where
  "within_shared \<equiv> io_within shared put_shared"

subsection \<open>The control stream\<close>

definition recv_frame :: "('w, 'h, 'c, 'k, 'sk) gateway_env \<Rightarrow> ('w conn, transport_error, client_frame) io" where
  "recv_frame G s =
     (let s1 = put_shared (other G (shared s)) s
      in case incoming s1 of
           [] \<Rightarrow> (Inl (lost G), s1)
         | f # fs \<Rightarrow> (Inr f, s1\<lparr>incoming := fs\<rparr>))"

definition send_frame ::
  "('w, 'h, 'c, 'k, 'sk) gateway_env \<Rightarrow> server_frame \<Rightarrow> ('w conn, transport_error, unit) io" where
  "send_frame G f s =
     (let s1 = put_shared (other G (shared s)) s
      in case link G (events s1) f of
           Some e \<Rightarrow> (Inl e, s1)
         | None \<Rightarrow> (Inr (), note_event (Ev_Sent f) s1))"

definition transport_anyhow :: "transport_error \<Rightarrow> anyhow" where
  "transport_anyhow e = Msg (transport_display e)"

definition recv_q :: "('w, 'h, 'c, 'k, 'sk) gateway_env \<Rightarrow> ('w conn, anyhow, client_frame) io" where
  "recv_q G = io_map_err transport_anyhow (recv_frame G)"

definition send_q ::
  "('w, 'h, 'c, 'k, 'sk) gateway_env \<Rightarrow> server_frame \<Rightarrow> ('w conn, anyhow, unit) io" where
  "send_q G f = io_map_err transport_anyhow (send_frame G f)"

text \<open>Sending an error frame and returning \<open>Ok(None)\<close>.\<close>

definition reject :: "('w, 'h, 'c, 'k, 'sk) gateway_env \<Rightarrow> string \<Rightarrow> ('w conn, anyhow, 'a option) io" where
  "reject G message = io_bind (send_q G (S_Error message)) (\<lambda>_. io_return None)"

subsection \<open>Delegated signing over the control stream\<close>

lemma recv_frame_shorter: "recv_frame G s = (Inr f, s') \<Longrightarrow> length (incoming s') < length (incoming s)"
  by (auto simp: recv_frame_def put_shared_def Let_def split: list.splits)

function sign_wait ::
  "('w, 'h, 'c, 'k, 'sk) gateway_env \<Rightarrow> u64 \<Rightarrow> ('w conn, remote_signer_error, bytes) io" where
  "sign_wait G req s =
     (case recv_frame G s of
        (Inl e, s1) \<Rightarrow> (Inl (RemoteSignerError (transport_display e)), s1)
      | (Inr frame, s1) \<Rightarrow>
          (case frame of
             C_SignResponse rid signature \<Rightarrow> if rid = req then (Inr signature, s1) else sign_wait G req s1
           | C_Ping \<Rightarrow> sign_wait G req s1
           | _ \<Rightarrow> (Inl (RemoteSignerError (''unexpected frame during signing: '' @ debug_frame G frame)), s1)))"
  by auto
termination
  by (relation "measure (\<lambda>(G, req, s). length (incoming s))")
     (auto dest!: sym [of "(Inr _, _)"] recv_frame_shorter)

declare sign_wait.simps [simp del]

definition control_sign :: "('w, 'h, 'c, 'k, 'sk) gateway_env \<Rightarrow> 'w conn remote_signer" where
  "control_sign G public_key_openssh algorithm to_sign s =
     (let req = next_id s
      in io_bind
           (io_map_err (\<lambda>e. RemoteSignerError (transport_display e))
              (send_frame G (S_SignRequest req (str_bytes public_key_openssh) to_sign)))
           (\<lambda>_. sign_wait G req) (s\<lparr>next_id := req + 1\<rparr>))"

subsection \<open>Opening the target\<close>

definition open_for_auth ::
  "('w, 'h, 'c, 'k, 'sk) gateway_env \<Rightarrow> target_spec \<Rightarrow> auth_intent \<Rightarrow> u16 \<Rightarrow> u16 \<Rightarrow>
   ('w conn, anyhow, ('h, 'c) ssh_session) io" where
  "open_for_auth G target auth cols rows =
     (let ssh_target = \<lparr>st_host = ts_host target, st_port = ts_port target, st_user = ts_user target\<rparr>
      in case auth of
           Password secret \<Rightarrow>
             io_bind (noted (Ev_Ssh target)) (\<lambda>_.
               within_shared (ssh_open (russh_of G) ssh_target (Auth_Password secret) (ucast cols) (ucast rows)))
         | PrivateKey pem passphrase \<Rightarrow>
             io_bind (noted (Ev_Ssh target)) (\<lambda>_.
               within_shared (ssh_open (russh_of G) ssh_target (Auth_PrivateKey pem passphrase) (ucast cols) (ucast rows)))
         | DelegatedKey public_key \<Rightarrow>
             (case from_utf8 public_key of
                None \<Rightarrow> io_fail (Msg ''delegated public key is not OpenSSH text'')
              | Some openssh \<Rightarrow>
                  io_bind (noted (Ev_Ssh target)) (\<lambda>_ s.
                    ssh_open_delegated shared put_shared (russh_of G) ssh_target openssh (control_sign G)
                      (ucast cols) (ucast rows) (s\<lparr>next_id := 1\<rparr>)))
         | GatewayKey key_id \<Rightarrow> io_fail (Msg ''gateway-stored keys not yet implemented''))"

subsection \<open>Negotiation\<close>

definition hook_admits ::
  "('w, 'h, 'c, 'k, 'sk) gateway_env \<Rightarrow> string \<Rightarrow> bytes option \<Rightarrow> ('w conn, denied, entitlement) io" where
  "hook_admits G client_name account_token =
     io_case (within_shared (hook_authorize (hook_of G) client_name account_token)) (\<lambda>r s.
       (r, note_event (Ev_Authorize client_name account_token (\<not> isl r)) s))"

definition hook_opens ::
  "('w, 'h, 'c, 'k, 'sk) gateway_env \<Rightarrow> bytes option \<Rightarrow> string \<Rightarrow> string \<Rightarrow> ('w conn, denied, unit) io" where
  "hook_opens G account_token sid client_name =
     io_case (within_shared (hook_session_open (hook_of G) account_token sid client_name)) (\<lambda>r s.
       (r, note_event (Ev_Session_open account_token sid client_name (\<not> isl r)) s))"

text \<open>
  An \<open>Arc<Session>\<close> as the handler uses it: the address of the shared object, with its immutable
  fields \<open>id\<close> and \<open>resume_token\<close>.
\<close>

record session_ref =
  sr_arc :: arc
  sr_id :: session_id
  sr_token :: bytes

record negotiated =
  ng_session :: session_ref
  ng_entitlement :: entitlement
  ng_account_token :: "bytes option"

definition create_session ::
  "('w, 'h, 'c, 'k, 'sk) gateway_env \<Rightarrow> ('h, 'c) ssh_session \<Rightarrow> ('w conn, 'e, session_ref) io" where
  "create_session G ssh s =
     (let sh = shared s; sid = new_session_id G sh; token = new_resume_token G sh
      in case mgr_create sid token (ss_fingerprint ssh) (sh_gw sh) of
           (a, g) \<Rightarrow> (Inr \<lparr>sr_arc = a, sr_id = sid, sr_token = token\<rparr>,
                      note_event (Ev_Create sid) (put_shared (sh\<lparr>sh_gw := g\<rparr>) s)))"

definition remove_session :: "session_id \<Rightarrow> ('w conn, 'e, unit) io" where
  "remove_session sid s =
     (let sh = shared s
      in (Inr (), note_event (Ev_Remove sid) (put_shared (sh\<lparr>sh_gw := mgr_remove sid (sh_gw sh)\<rparr>) s)))"

definition resume_existing :: "resume_token option \<Rightarrow> 'w conn \<Rightarrow> session_ref option" where
  "resume_existing resume s =
     (let g = sh_gw (shared s)
      in case resume of
           None \<Rightarrow> None
         | Some token \<Rightarrow>
             (case mgr_resume (token_bytes token) g of
                None \<Rightarrow> None
              | Some a \<Rightarrow> Some \<lparr>sr_arc = a, sr_id = sess_id (session_at g a), sr_token = sess_token (session_at g a)\<rparr>))"

definition establish ::
  "('w, 'h, 'c, 'k, 'sk) gateway_env \<Rightarrow> resume_token option \<Rightarrow> ('w conn, anyhow, (session_ref \<times> bool) option) io" where
  "establish G resume s =
     (case resume_existing resume s of
        Some existing \<Rightarrow> io_bind (noted (Ev_Resume (sr_id existing))) (\<lambda>_. io_return (Some (existing, True))) s
      | None \<Rightarrow>
          io_bind (recv_q G) (\<lambda>frame.
            case frame of
              C_Open target auth cols rows \<Rightarrow>
                io_case (open_for_auth G target auth cols rows) (\<lambda>r.
                  case r of
                    Inr ssh \<Rightarrow> io_bind (create_session G ssh) (\<lambda>session. io_return (Some (session, False)))
                  | Inl error \<Rightarrow> reject G (''connect failed: '' @ anyhow_display error))
            | _ \<Rightarrow> reject G ''expected Open'') s)"

definition announce ::
  "('w, 'h, 'c, 'k, 'sk) gateway_env \<Rightarrow> session_ref \<Rightarrow> bool \<Rightarrow> ('w conn, anyhow, unit) io" where
  "announce G session resumed =
     io_bind
       (send_q G (S_Hello PROTOCOL_VERSION (sr_id session) resumed (ResumeToken (sr_token session))))
       (\<lambda>_. send_q G (S_Status Live))"

text \<open>The concurrency check of a new session: the message to refuse it with, if it is refused.\<close>

definition admit_session ::
  "('w, 'h, 'c, 'k, 'sk) gateway_env \<Rightarrow> session_ref \<Rightarrow> bool \<Rightarrow> bytes option \<Rightarrow> string \<Rightarrow>
   ('w conn, anyhow, string option) io" where
  "admit_session G session resumed account_token client_name =
     (if \<not> resumed
      then io_case (hook_opens G account_token (word_display (sr_id session)) client_name) (\<lambda>r.
             case r of
               Inl d \<Rightarrow> io_bind (remove_session (sr_id session)) (\<lambda>_. io_return (Some (denied_display d)))
             | Inr _ \<Rightarrow> io_return None)
      else io_return None)"

definition welcome_client ::
  "('w, 'h, 'c, 'k, 'sk) gateway_env \<Rightarrow> session_ref \<Rightarrow> bool \<Rightarrow> entitlement \<Rightarrow> bytes option \<Rightarrow> string \<Rightarrow>
   ('w conn, anyhow, negotiated option) io" where
  "welcome_client G session resumed entitlement account_token client_name =
     io_bind (admit_session G session resumed account_token client_name) (\<lambda>refusal.
       case refusal of
         Some message \<Rightarrow> reject G message
       | None \<Rightarrow>
           io_bind (announce G session resumed) (\<lambda>_.
             io_return (Some \<lparr>ng_session = session, ng_entitlement = entitlement, ng_account_token = account_token\<rparr>)))"

definition start_session ::
  "('w, 'h, 'c, 'k, 'sk) gateway_env \<Rightarrow> resume_token option \<Rightarrow> entitlement \<Rightarrow> bytes option \<Rightarrow> string \<Rightarrow>
   ('w conn, anyhow, negotiated option) io" where
  "start_session G resume entitlement account_token client_name =
     io_bind (establish G resume) (\<lambda>established.
       case established of
         None \<Rightarrow> io_return None
       | Some (session, resumed) \<Rightarrow> welcome_client G session resumed entitlement account_token client_name)"

definition authorize_client ::
  "('w, 'h, 'c, 'k, 'sk) gateway_env \<Rightarrow> string \<Rightarrow> resume_token option \<Rightarrow> bytes option \<Rightarrow>
   ('w conn, anyhow, negotiated option) io" where
  "authorize_client G client_name resume account_token =
     io_case (hook_admits G client_name account_token) (\<lambda>r.
       case r of
         Inl d \<Rightarrow> reject G (denied_display d)
       | Inr entitlement \<Rightarrow> start_session G resume entitlement account_token client_name)"

definition negotiate ::
  "('w, 'h, 'c, 'k, 'sk) gateway_env \<Rightarrow> ('w conn, anyhow, negotiated option) io" where
  "negotiate G =
     io_bind (recv_q G) (\<lambda>hello.
       case hello of
         C_Hello version client_name resume account_token \<Rightarrow>
           if version \<noteq> PROTOCOL_VERSION
           then reject G (''protocol version mismatch: client '' @ word_display version @ '', server '' @
                  word_display PROTOCOL_VERSION)
           else authorize_client G client_name resume account_token
       | _ \<Rightarrow> reject G ''expected Hello'')"

subsection \<open>The events of a computation\<close>

text \<open>
  \<open>io_emits m P\<close>: whatever the state, \<open>m\<close> adds events to the log, and \<open>P\<close> holds of its result and the
  events added. The rules follow the composition of the handler's code.
\<close>

definition io_emits :: "('w conn, 'e, 'a) io \<Rightarrow> ('e + 'a \<Rightarrow> event list \<Rightarrow> bool) \<Rightarrow> bool" where
  "io_emits m P \<longleftrightarrow> (\<forall>s r s'. m s = (r, s') \<longrightarrow> (\<exists>es. events s' = events s @ es \<and> P r es))"

lemma io_emitsI:
  "(\<And>s r s'. m s = (r, s') \<Longrightarrow> \<exists>es. events s' = events s @ es \<and> P r es) \<Longrightarrow> io_emits m P"
  by (simp add: io_emits_def)

lemma io_emitsD: "io_emits m P \<Longrightarrow> m s = (r, s') \<Longrightarrow> \<exists>es. events s' = events s @ es \<and> P r es"
  by (simp add: io_emits_def)

lemma emits_conseq: "io_emits m P \<Longrightarrow> (\<And>r es. P r es \<Longrightarrow> Q r es) \<Longrightarrow> io_emits m Q"
  unfolding io_emits_def by blast

lemma emits_return: "P (Inr x) [] \<Longrightarrow> io_emits (io_return x) P"
  by (simp add: io_emits_def)

lemma emits_fail: "P (Inl e) [] \<Longrightarrow> io_emits (io_fail e) P"
  by (simp add: io_emits_def)

lemma emits_case:
  assumes "io_emits m P" and "\<And>r es. P r es \<Longrightarrow> io_emits (k r) (\<lambda>r' es'. Q r' (es @ es'))"
  shows "io_emits (io_case m k) Q"
proof (rule io_emitsI)
  fix s r' s'
  assume "io_case m k s = (r', s')"
  then obtain r s1 where 1: "m s = (r, s1)" "k r s1 = (r', s')" by (auto simp: io_case_apply split: prod.splits)
  from io_emitsD [OF assms(1) 1(1)] obtain es where es: "events s1 = events s @ es" "P r es" by blast
  from io_emitsD [OF assms(2) [OF es(2)] 1(2)] es(1) show "\<exists>es. events s' = events s @ es \<and> Q r' es" by auto
qed

lemma emits_bind:
  assumes "io_emits m P" and "\<And>e es. P (Inl e) es \<Longrightarrow> Q (Inl e) es"
    and "\<And>x es. P (Inr x) es \<Longrightarrow> io_emits (k x) (\<lambda>r es'. Q r (es @ es'))"
  shows "io_emits (io_bind m k) Q"
  unfolding io_bind_def
  by (rule emits_case [OF assms(1)]) (auto split: sum.splits intro!: emits_fail assms(2,3))

lemma emits_map_err:
  "io_emits m (\<lambda>r. P (map_sum g id r)) \<Longrightarrow> io_emits (io_map_err g m) P"
  by (fastforce simp: io_emits_def io_map_err_apply split: sum.splits prod.splits)

lemma emits_noted: "P (Inr ()) [e] \<Longrightarrow> io_emits (noted e) P"
  by (simp add: io_emits_def noted_def note_event_def)

lemma emits_within: "(\<And>r. P r []) \<Longrightarrow> io_emits (within_shared m) P"
  by (auto simp: io_emits_def io_within_def put_shared_def split: prod.splits)

lemma emits_recv: "(\<And>r. P r []) \<Longrightarrow> io_emits (recv_frame G) P"
  by (auto simp: io_emits_def recv_frame_def put_shared_def Let_def split: list.splits)

lemma emits_send: "(\<And>e. P (Inl e) []) \<Longrightarrow> P (Inr ()) [Ev_Sent f] \<Longrightarrow> io_emits (send_frame G f) P"
  by (auto simp: io_emits_def send_frame_def put_shared_def note_event_def Let_def split: option.splits)

lemma emits_pure: "P r [] \<Longrightarrow> io_emits (io_pure r) P"
  by (simp add: io_emits_def)

text \<open>Computations that only add events of one kind.\<close>

named_theorems emits_only

abbreviation io_only :: "(event \<Rightarrow> bool) \<Rightarrow> ('w conn, 'e, 'a) io \<Rightarrow> bool" where
  "io_only P m \<equiv> io_emits m (\<lambda>r. list_all P)"

lemma only_case [emits_only]: "io_only P m \<Longrightarrow> (\<And>r. io_only P (k r)) \<Longrightarrow> io_only P (io_case m k)"
  by (rule emits_case, assumption) (auto elim!: emits_conseq)

lemma only_bind [emits_only]: "io_only P m \<Longrightarrow> (\<And>x. io_only P (k x)) \<Longrightarrow> io_only P (io_bind m k)"
  by (rule emits_bind, assumption) (auto elim!: emits_conseq)

lemma only_map_err [emits_only]: "io_only P m \<Longrightarrow> io_only P (io_map_err g m)"
  by (rule emits_map_err) simp

lemma only_simple [emits_only]:
  "io_only P (io_return x)" "io_only P (io_fail e)" "io_only P (io_pure r)"
  "io_only P (within_shared m)" "io_only P (recv_frame G)"
  by (simp_all add: emits_return emits_fail emits_pure emits_within emits_recv)

lemma only_send [emits_only]: "P (Ev_Sent f) \<Longrightarrow> io_only P (send_frame G f)"
  by (rule emits_send) simp_all

end
