(* ===== verification/Server_Protocol.thy ===== *)
theory Server_Protocol
  imports Server_Handler
begin

text \<open>
  What a handler may do during negotiation, as an abstract protocol, and that \<open>negotiate\<close> of
  \<open>gw-server/src/handler.rs\<close> implements it whatever the client sends, whenever the control stream
  breaks, and whatever the hook, the SSH library and the other tasks of the gateway do.

  \<open>protocol k es\<close>: a negotiation that ends as \<open>k\<close> (broken stream, refused client, session started)
  logs exactly the events \<open>es\<close>. The properties read off it: no connection to a target before the
  client is authorized; a refused client leaves no session behind and is told why; a started session
  was announced with its token, after the control plane agreed to it if it is new.
\<close>

datatype neg_kind = Broken | Refused | Started session_ref

definition kind_of :: "anyhow + negotiated option \<Rightarrow> neg_kind" where
  "kind_of r = (case r of Inl _ \<Rightarrow> Broken | Inr None \<Rightarrow> Refused | Inr (Some n) \<Rightarrow> Started (ng_session n))"

definition goodbye :: "neg_kind \<Rightarrow> event list \<Rightarrow> bool" where
  "goodbye k es \<longleftrightarrow> k = Broken \<and> es = [] \<or> (\<exists>m. k = Refused \<and> es = [Ev_Sent (S_Error m)])"

definition greeting :: "session_ref \<Rightarrow> bool \<Rightarrow> neg_kind \<Rightarrow> event list \<Rightarrow> bool" where
  "greeting ref resumed k es \<longleftrightarrow>
     (let hello = Ev_Sent (S_Hello PROTOCOL_VERSION (sr_id ref) resumed (ResumeToken (sr_token ref)))
      in k = Broken \<and> (es = [] \<or> es = [hello]) \<or> k = Started ref \<and> es = [hello, Ev_Sent (S_Status Live)])"

fun sign_request :: "event \<Rightarrow> bool" where
  "sign_request (Ev_Sent (S_SignRequest _ _ _)) = True"
| "sign_request _ = False"

inductive protocol :: "neg_kind \<Rightarrow> event list \<Rightarrow> bool" where
  not_hello: "goodbye k es \<Longrightarrow> protocol k es"
| unauthorized: "goodbye k es \<Longrightarrow> protocol k (Ev_Authorize cn tok False # es)"
| no_target: "goodbye k es \<Longrightarrow> protocol k (Ev_Authorize cn tok True # es)"
| resumed: "greeting ref True k es \<Longrightarrow> protocol k (Ev_Authorize cn tok True # Ev_Resume (sr_id ref) # es)"
| no_shell: "list_all sign_request ss \<Longrightarrow> goodbye k es \<Longrightarrow>
    protocol k (Ev_Authorize cn tok True # Ev_Ssh t # ss @ es)"
| refused: "list_all sign_request ss \<Longrightarrow> goodbye k es \<Longrightarrow>
    protocol k (Ev_Authorize cn tok True # Ev_Ssh t # ss @
      Ev_Create sid # Ev_Session_open tok (word_display sid) cn False # Ev_Remove sid # es)"
| opened: "list_all sign_request ss \<Longrightarrow> greeting ref False k es \<Longrightarrow>
    protocol k (Ev_Authorize cn tok True # Ev_Ssh t # ss @
      Ev_Create (sr_id ref) # Ev_Session_open tok (word_display (sr_id ref)) cn True # es)"

subsection \<open>The parts of the negotiation\<close>

lemma sign_wait_events: "events (snd (sign_wait G req s)) = events s"
proof (induction G req s rule: sign_wait.induct)
  case (1 G req s)
  obtain r s1 where recv: "recv_frame G s = (r, s1)" by fastforce
  then have "events s1 = events s" by (auto simp: recv_frame_def put_shared_def Let_def split: list.splits)
  with 1 recv show ?case by (subst sign_wait.simps) (auto split: sum.splits client_frame.splits)
qed

lemma sign_wait_only [emits_only]: "io_only P (sign_wait G req)"
  by (rule io_emitsI) (metis append.right_neutral sign_wait_events snd_conv list.pred_inject(1))

lemma control_sign_only [emits_only]: "io_only sign_request (control_sign G pk alg d)"
proof (rule io_emitsI)
  fix s r s'
  assume run: "control_sign G pk alg d s = (r, s')"
  have "io_only sign_request (io_bind (io_map_err (\<lambda>e. RemoteSignerError (transport_display e))
      (send_frame G (S_SignRequest (next_id s) (str_bytes pk) d))) (\<lambda>_. sign_wait G (next_id s)))"
    by (intro emits_only) simp
  from io_emitsD [OF this run [unfolded control_sign_def Let_def]]
  show "\<exists>es. events s' = events s @ es \<and> list_all sign_request es" by simp
qed

lemma run_auth_only:
  "io_only sign_request (run_auth shared put_shared (auth_publickey_sign f (control_sign G)) a)"
proof (induction a)
  case (Finish m)
  then show ?case by (simp add: emits_only)
next
  case (Challenge key alg d continue)
  then show ?case by (auto simp: auth_publickey_sign_def Let_def intro!: emits_only)
qed

lemma delegated_auth_only [emits_only]:
  "io_only sign_request (\<lambda>s. run_auth shared put_shared (auth_publickey_sign f (control_sign G)) (a (shared s)) s)"
  using run_auth_only unfolding io_emits_def by blast

lemma delegated_only:
  "io_only sign_request (ssh_open_delegated shared put_shared R t pk (control_sign G) cols rows)"
  unfolding ssh_open_delegated_def with_context_def
  by (auto intro!: emits_only split: prod.splits)

lemma ssh_noted:
  assumes "io_only sign_request m"
  shows "io_emits (io_bind (noted (Ev_Ssh t)) (\<lambda>_. m))
    (\<lambda>r es. isl r \<and> es = [] \<or> (\<exists>ss. es = Ev_Ssh t # ss \<and> list_all sign_request ss))"
  by (rule emits_bind [where P = "\<lambda>r es. es = [Ev_Ssh t]"]) (auto intro!: emits_noted emits_conseq [OF assms])

lemma only_next_id: "io_only P m \<Longrightarrow> io_only P (\<lambda>s. m (s\<lparr>next_id := n\<rparr>))"
  by (force simp: io_emits_def)

lemma open_for_auth_emits:
  "io_emits (open_for_auth G t auth cols rows)
     (\<lambda>r es. isl r \<and> es = [] \<or> (\<exists>ss. es = Ev_Ssh t # ss \<and> list_all sign_request ss))"
  by (cases auth) (auto simp: open_for_auth_def Let_def split: option.splits
      intro!: ssh_noted only_next_id emits_only delegated_only emits_fail)

lemma reject_emits:
  "io_emits (reject G m) (\<lambda>r es. isl r \<and> es = [] \<or> r = Inr None \<and> es = [Ev_Sent (S_Error m)])"
  unfolding reject_def send_q_def
  by (rule emits_bind [where P = "\<lambda>r es. if isl r then es = [] else es = [Ev_Sent (S_Error m)]"])
     (auto intro!: emits_map_err emits_send emits_return)

lemma recv_q_emits: "io_emits (recv_q G) (\<lambda>r es. es = [])"
  unfolding recv_q_def by (auto intro!: emits_map_err emits_recv)

lemma create_emits: "io_emits (create_session G ssh) (\<lambda>r es. \<exists>ref. r = Inr ref \<and> es = [Ev_Create (sr_id ref)])"
  by (auto simp: io_emits_def create_session_def note_event_def put_shared_def Let_def split: prod.splits)

definition est_trace :: "anyhow + (session_ref \<times> bool) option \<Rightarrow> event list \<Rightarrow> bool" where
  "est_trace r es \<longleftrightarrow>
     (case r of
        Inl _ \<Rightarrow> es = [] \<or> (\<exists>t ss. es = Ev_Ssh t # ss \<and> list_all sign_request ss)
      | Inr None \<Rightarrow> (\<exists>m. es = [Ev_Sent (S_Error m)]) \<or>
          (\<exists>t ss m. es = Ev_Ssh t # ss @ [Ev_Sent (S_Error m)] \<and> list_all sign_request ss)
      | Inr (Some (ref, True)) \<Rightarrow> es = [Ev_Resume (sr_id ref)]
      | Inr (Some (ref, False)) \<Rightarrow> \<exists>t ss. es = Ev_Ssh t # ss @ [Ev_Create (sr_id ref)] \<and> list_all sign_request ss)"

lemma est_trace_simps:
  "est_trace (Inl e) es \<longleftrightarrow> es = [] \<or> (\<exists>t ss. es = Ev_Ssh t # ss \<and> list_all sign_request ss)"
  "est_trace (Inr None) es \<longleftrightarrow> (\<exists>m. es = [Ev_Sent (S_Error m)]) \<or>
     (\<exists>t ss m. es = Ev_Ssh t # ss @ [Ev_Sent (S_Error m)] \<and> list_all sign_request ss)"
  "est_trace (Inr (Some (ref, True))) es \<longleftrightarrow> es = [Ev_Resume (sr_id ref)]"
  "est_trace (Inr (Some (ref, False))) es \<longleftrightarrow>
     (\<exists>t ss. es = Ev_Ssh t # ss @ [Ev_Create (sr_id ref)] \<and> list_all sign_request ss)"
  by (simp_all add: est_trace_def)

lemma reject_est: "io_emits (reject G m) est_trace"
  by (rule emits_conseq [OF reject_emits]) (auto simp: est_trace_simps isl_def)

lemma open_est:
  fixes G :: "('w, 'h, 'c, 'k, 'sk) gateway_env"
  shows "io_emits (io_case (open_for_auth G t auth cols rows) (\<lambda>r. case r of
      Inr ssh \<Rightarrow> io_bind (create_session G ssh) (\<lambda>session. io_return (Some (session, False)))
    | Inl error \<Rightarrow> reject G (m error))) est_trace"
proof (rule emits_case [OF open_for_auth_emits])
  fix r :: "anyhow + ('h, 'c) ssh_session" and es
  assume es: "isl r \<and> es = [] \<or> (\<exists>ss. es = Ev_Ssh t # ss \<and> list_all sign_request ss)"
  show "io_emits (case r of
      Inr ssh \<Rightarrow> io_bind (create_session G ssh) (\<lambda>session. io_return (Some (session, False)))
    | Inl error \<Rightarrow> reject G (m error)) (\<lambda>r' es'. est_trace r' (es @ es'))"
  proof (cases r)
    case (Inl e)
    with es show ?thesis
      by (simp, intro emits_conseq [OF reject_emits]) (auto simp: est_trace_simps isl_def)
  next
    case (Inr ssh)
    with es show ?thesis
      by (simp, intro emits_bind [OF create_emits] emits_return) (auto simp: est_trace_simps)
  qed
qed

lemma establish_emits: "io_emits (establish G resume) est_trace"
proof (rule io_emitsI)
  fix s r s'
  assume run: "establish G resume s = (r, s')"
  show "\<exists>es. events s' = events s @ es \<and> est_trace r es"
  proof (cases "resume_existing resume s")
    case (Some ref)
    with run have run': "io_bind (noted (Ev_Resume (sr_id ref))) (\<lambda>_. io_return (Some (ref, True))) s = (r, s')"
      by (simp add: establish_def)
    have "io_emits (io_bind (noted (Ev_Resume (sr_id ref))) (\<lambda>_. io_return (Some (ref, True)))) est_trace"
      by (rule emits_bind [where P = "\<lambda>r es. r = Inr () \<and> es = [Ev_Resume (sr_id ref)]"])
         (auto intro!: emits_noted emits_return simp: est_trace_simps)
    then show ?thesis using run' by (rule io_emitsD)
  next
    case None
    have "io_emits (io_bind (recv_q G) (\<lambda>frame. case frame of
        C_Open target auth cols rows \<Rightarrow> io_case (open_for_auth G target auth cols rows) (\<lambda>r. case r of
            Inr ssh \<Rightarrow> io_bind (create_session G ssh) (\<lambda>session. io_return (Some (session, False)))
          | Inl error \<Rightarrow> reject G (''connect failed: '' @ anyhow_display error))
      | _ \<Rightarrow> reject G ''expected Open'')) est_trace"
      by (rule emits_bind [OF recv_q_emits], simp add: est_trace_simps, rename_tac frame es, case_tac frame)
         (simp_all only: client_frame.case append_Nil open_est reject_est)
    moreover note run [unfolded establish_def None option.case]
    ultimately show ?thesis by (rule io_emitsD)
  qed
qed

lemma announce_emits:
  "io_emits (announce G ref resumed) (\<lambda>r es. greeting ref resumed (case r of Inl _ \<Rightarrow> Broken | Inr _ \<Rightarrow> Started ref) es)"
  (is "io_emits _ ?P")
proof -
  let ?hello = "S_Hello PROTOCOL_VERSION (sr_id ref) resumed (ResumeToken (sr_token ref))"
  have "io_emits (send_q G ?hello) (\<lambda>r es. if isl r then es = [] else es = [Ev_Sent ?hello])"
    unfolding send_q_def by (auto intro!: emits_map_err emits_send)
  then show ?thesis
    unfolding announce_def
    by (rule emits_bind) (auto simp: greeting_def send_q_def intro!: emits_map_err emits_send)
qed

definition adm_trace :: "session_ref \<Rightarrow> bool \<Rightarrow> bytes option \<Rightarrow> string \<Rightarrow> anyhow + string option \<Rightarrow> event list \<Rightarrow> bool" where
  "adm_trace ref resumed tok cn r es \<longleftrightarrow>
     (if resumed then r = Inr None \<and> es = []
      else r = Inr None \<and> es = [Ev_Session_open tok (word_display (sr_id ref)) cn True] \<or>
        (\<exists>m. r = Inr (Some m) \<and>
           es = [Ev_Session_open tok (word_display (sr_id ref)) cn False, Ev_Remove (sr_id ref)]))"

lemma admit_session_emits: "io_emits (admit_session G ref resumed tok cn) (adm_trace ref resumed tok cn)"
  by (cases resumed)
     (auto simp: io_emits_def admit_session_def adm_trace_def hook_opens_def remove_session_def io_apply
        io_within_def note_event_def put_shared_def Let_def isl_def split: sum.splits prod.splits)

lemma hook_admits_emits:
  "io_emits (hook_admits G cn tok) (\<lambda>r es. es = [Ev_Authorize cn tok (\<not> isl r)])"
  by (auto simp: io_emits_def hook_admits_def io_apply io_within_def note_event_def put_shared_def split: prod.splits)

subsection \<open>The whole negotiation\<close>

definition neg_trace :: "event list \<Rightarrow> anyhow + negotiated option \<Rightarrow> event list \<Rightarrow> bool" where
  "neg_trace pre r es \<longleftrightarrow> protocol (kind_of r) (pre @ es)"

lemma kind_of_simps [simp]:
  "kind_of (Inl e) = Broken" "kind_of (Inr None) = Refused" "kind_of (Inr (Some n)) = Started (ng_session n)"
  by (simp_all add: kind_of_def)

lemma goodbye_intros: "goodbye Broken []" "goodbye Refused [Ev_Sent (S_Error m)]"
  by (simp_all add: goodbye_def)

lemma reject_trace:
  assumes "\<And>k es. goodbye k es \<Longrightarrow> protocol k (pre @ es)"
  shows "io_emits (reject G m) (neg_trace pre)"
  using assms [OF goodbye_intros(1)] assms [OF goodbye_intros(2)]
  by (intro emits_conseq [OF reject_emits]) (auto simp: neg_trace_def isl_def)

lemma greeted:
  assumes "\<And>k es. greeting ref resumed k es \<Longrightarrow> protocol k (pre @ es)" and "ng_session n = ref"
  shows "io_emits (io_bind (announce G ref resumed) (\<lambda>_. io_return (Some n))) (neg_trace pre)"
  by (rule emits_bind [OF announce_emits]) (auto simp: neg_trace_def assms intro!: emits_return)

lemma broken_protocol:
  assumes "est_trace (Inl e) es"
  shows "protocol Broken (Ev_Authorize cn tok True # es)"
  using assms no_target [OF goodbye_intros(1)] no_shell [OF _ goodbye_intros(1)] by (auto simp: est_trace_simps)

lemma refused_protocol:
  assumes "est_trace (Inr None) es"
  shows "protocol Refused (Ev_Authorize cn tok True # es)"
  using assms no_target [OF goodbye_intros(2)] no_shell [OF _ goodbye_intros(2)] by (auto simp: est_trace_simps)

lemma neg_trace_append: "(\<lambda>r es'. neg_trace pre r (es @ es')) = neg_trace (pre @ es)"
  by (intro ext) (simp add: neg_trace_def)

lemma welcome_client_trace:
  assumes est: "est_trace (Inr (Some (ref, resumed))) es"
  shows "io_emits (welcome_client G ref resumed ent tok cn) (neg_trace (Ev_Authorize cn tok True # es))"
  unfolding welcome_client_def
proof (rule emits_bind [OF admit_session_emits], goal_cases)
  case (1 e es')
  then show ?case by (simp add: adm_trace_def split: if_splits)
next
  case (2 refusal es')
  show ?case
  proof (cases resumed)
    case True
    with 2 est show ?thesis
      by (auto simp: neg_trace_append adm_trace_def est_trace_simps intro!: greeted protocol.resumed)
  next
    case False
    with est obtain t ss where es: "es = Ev_Ssh t # ss @ [Ev_Create (sr_id ref)]" "list_all sign_request ss"
      by (auto simp: est_trace_simps)
    with 2 False show ?thesis
      by (auto simp: neg_trace_append adm_trace_def intro!: greeted reject_trace protocol.opened protocol.refused)
  qed
qed

lemma start_session_trace: "io_emits (start_session G resume ent tok cn) (neg_trace [Ev_Authorize cn tok True])"
  unfolding start_session_def
proof (rule emits_bind [OF establish_emits], goal_cases)
  case (1 e es)
  then show ?case by (simp add: neg_trace_def broken_protocol)
next
  case (2 est es)
  then show ?case
    by (cases est) (auto simp: neg_trace_append intro!: emits_return welcome_client_trace,
        simp add: neg_trace_def refused_protocol)
qed

lemma authorize_client_trace: "io_emits (authorize_client G cn resume tok) (neg_trace [])"
  unfolding authorize_client_def
proof (rule emits_case [OF hook_admits_emits], goal_cases)
  case (1 r es)
  then show ?case
    unfolding neg_trace_append by (cases r) (simp_all add: reject_trace unauthorized start_session_trace)
qed

lemma negotiate_trace: "io_emits (negotiate G) (neg_trace [])"
  unfolding negotiate_def
proof (rule emits_bind [OF recv_q_emits], goal_cases)
  case (1 e es)
  then show ?case by (simp add: neg_trace_def not_hello goodbye_intros)
next
  case (2 hello es)
  have "io_emits (reject G m) (neg_trace [])" for m by (simp add: reject_trace not_hello)
  with 2 show ?case
    unfolding neg_trace_append by (cases hello) (simp_all add: authorize_client_trace)
qed

lemma negotiate_refines:
  "negotiate G s = (r, s') \<Longrightarrow> \<exists>es. events s' = events s @ es \<and> protocol (kind_of r) es"
  using io_emitsD [OF negotiate_trace] by (simp add: neg_trace_def)

subsection \<open>Properties\<close>

text \<open>
  C10 (refinement). A negotiation follows the protocol: whatever frames the client sends, wherever its
  stream breaks, and whatever the control plane, the SSH library and the other tasks do meanwhile,
  what the handler does is one of the event sequences of \<open>protocol\<close>, and the result it returns is the
  one that sequence ends in.
\<close>

theorem negotiate_refines_protocol:
  "case negotiate G s of (r, s') \<Rightarrow> \<exists>es. events s' = events s @ es \<and> protocol (kind_of r) es"
  using negotiate_refines by (auto split: prod.splits)

text \<open>
  The protocol's sequences, by the events of interest. The logs start empty in a fresh connection.
\<close>

lemmas protocol_defs = goodbye_def greeting_def Let_def

lemma sign_requests_are_sends: "list_all sign_request ss \<Longrightarrow> e \<in> set ss \<Longrightarrow> sign_request e"
  by (simp add: list_all_iff)

lemma protocol_ssh:
  assumes "protocol k es" and "Ev_Ssh t \<in> set es"
  shows "\<exists>cn tok rest. es = Ev_Authorize cn tok True # Ev_Ssh t # rest \<and> (\<forall>t'. Ev_Ssh t' \<notin> set rest)"
  using assms by (cases rule: protocol.cases) (auto simp: protocol_defs dest: sign_requests_are_sends)

lemma protocol_refused:
  assumes "protocol Refused es"
  shows "(\<exists>pre m. es = pre @ [Ev_Sent (S_Error m)]) \<and>
    (\<forall>sid. Ev_Create sid \<in> set es \<longrightarrow> (\<exists>pre m tok cn. es = pre @ [Ev_Create sid,
       Ev_Session_open tok (word_display sid) cn False, Ev_Remove sid, Ev_Sent (S_Error m)])) \<and>
    (\<forall>sid tok d cn. Ev_Session_open tok d cn True \<notin> set es)"
  using assms by (cases rule: protocol.cases) (auto simp: protocol_defs dest: sign_requests_are_sends)

lemma protocol_started:
  assumes "protocol (Started ref) es"
  shows "\<exists>cn tok pre resumed. es = Ev_Authorize cn tok True # pre @
      [Ev_Sent (S_Hello PROTOCOL_VERSION (sr_id ref) resumed (ResumeToken (sr_token ref))), Ev_Sent (S_Status Live)] \<and>
    (if resumed then pre = [Ev_Resume (sr_id ref)]
     else \<exists>t ss. list_all sign_request ss \<and>
       pre = Ev_Ssh t # ss @ [Ev_Create (sr_id ref), Ev_Session_open tok (word_display (sr_id ref)) cn True])"
  using assms by (cases rule: protocol.cases) (auto simp: protocol_defs)

text \<open>A concrete gateway: a hook of choice, an SSH target that takes one password, a reliable link.\<close>

definition demo_gw ::
  "(event list \<Rightarrow> server_frame \<Rightarrow> transport_error option) \<Rightarrow> unit shared_state auth_hook \<Rightarrow>
   (unit, nat, nat, string, string) gateway_env" where
  "demo_gw lk hook =
     \<lparr>link = lk, lost = Read ''finished early'', other = id, russh_of = demo_russh, hook_of = hook,
      new_session_id = (\<lambda>sh. 7), new_resume_token = (\<lambda>sh. [1, 2]), queue_input = (\<lambda>a i sh. (True, sh)),
      debug_frame = (\<lambda>f. ''frame'')\<rparr>"

definition closing_hook :: "'s auth_hook" where
  "closing_hook = allow_all\<lparr>hook_session_open := (\<lambda>tok sid cn s. (Inl (Denied ''limit''), s))\<rparr>"

definition demo_conn :: "client_frame list \<Rightarrow> unit conn" where
  "demo_conn fs =
     \<lparr>incoming = fs, next_id = 0, meter = meter_default, events = [],
      shared = \<lparr>sh_gw = gateway_new mgr_new, sh_world = ()\<rparr>\<rparr>"

definition demo_target :: target_spec where
  "demo_target = \<lparr>ts_host = ''h'', ts_port = 22, ts_user = ''u''\<rparr>"

definition demo_start :: "client_frame list" where
  "demo_start = [C_Hello 1 ''ipad'' None None, C_Open demo_target (Password ''open'') 80 24]"

lemmas negotiate_eval = negotiate_def authorize_client_def start_session_def establish_def welcome_client_def
  admit_session_def announce_def hook_admits_def hook_opens_def create_session_def remove_session_def
  resume_existing_def open_for_auth_def reject_def recv_q_def send_q_def recv_frame_def send_frame_def
  put_shared_def note_event_def noted_def io_within_def io_apply Let_def
  ssh_open_def connect_def ssh_authenticate_def finish_open_def with_context_def
  demo_gw_def demo_conn_def demo_start_def demo_target_def demo_russh_def closing_hook_def
  allow_all_def default_hook_def PROTOCOL_VERSION_def mgr_create_def

lemma demo_started:
  obtains n s' where "negotiate (demo_gw (\<lambda>_ _. None) allow_all) (demo_conn demo_start) = (Inr (Some n), s')"
    "sr_id (ng_session n) = 7" "sr_token (ng_session n) = [1, 2]" "Ev_Ssh demo_target \<in> set (events s')"
  by (simp add: negotiate_eval)

lemma demo_refused:
  obtains s' where "negotiate (demo_gw (\<lambda>_ _. None) closing_hook) (demo_conn demo_start) = (Inr None, s')"
    "Ev_Create 7 \<in> set (events s')"
  by (simp add: negotiate_eval)

text \<open>
  C11 (safety). The gateway contacts a target only for a client the control plane has authorized: a
  connection attempt in the log comes right after the successful authorization, and there is at most
  one per negotiation.
\<close>

theorem no_target_before_authorization:
  assumes "events s = []" and "negotiate G s = (r, s')" and "Ev_Ssh t \<in> set (events s')"
  shows "\<exists>cn tok rest. events s' = Ev_Authorize cn tok True # Ev_Ssh t # rest \<and>
    (\<forall>t'. Ev_Ssh t' \<notin> set rest)"
  using negotiate_refines [OF assms(2)] assms(1,3) protocol_ssh by fastforce

theorem no_target_before_authorization_witness:
  "\<exists>r s' cn tok rest. negotiate (demo_gw (\<lambda>_ _. None) allow_all) (demo_conn demo_start) = (r, s') \<and>
     events s' = Ev_Authorize cn tok True # Ev_Ssh demo_target # rest \<and> (\<forall>t'. Ev_Ssh t' \<notin> set rest)"
proof -
  obtain n s' where run: "negotiate (demo_gw (\<lambda>_ _. None) allow_all) (demo_conn demo_start) = (Inr (Some n), s')"
    and ev: "Ev_Ssh demo_target \<in> set (events s')" by (rule demo_started)
  have "events (demo_conn demo_start) = []" by (simp add: demo_conn_def)
  from no_target_before_authorization [OF this run ev] run show ?thesis by blast
qed

text \<open>
  C12 (safety). A refused client leaves nothing behind: the last thing the handler did is to tell the
  client why; a session it had created was removed from the registry before that, after the control
  plane refused it; and no session stays open at the control plane.
\<close>

theorem refused_client_leaves_no_session:
  assumes "events s = []" and "negotiate G s = (Inr None, s')"
  shows "(\<exists>pre m. events s' = pre @ [Ev_Sent (S_Error m)]) \<and>
    (\<forall>sid. Ev_Create sid \<in> set (events s') \<longrightarrow> (\<exists>pre m tok cn. events s' = pre @ [Ev_Create sid,
       Ev_Session_open tok (word_display sid) cn False, Ev_Remove sid, Ev_Sent (S_Error m)])) \<and>
    (\<forall>tok d cn. Ev_Session_open tok d cn True \<notin> set (events s'))"
  using negotiate_refines [OF assms(2)] assms(1) protocol_refused by fastforce

theorem refused_client_leaves_no_session_witness:
  "\<exists>s' pre m tok cn. negotiate (demo_gw (\<lambda>_ _. None) closing_hook) (demo_conn demo_start) = (Inr None, s') \<and>
     events s' = pre @ [Ev_Create 7,
     Ev_Session_open tok (word_display (7 :: session_id)) cn False, Ev_Remove 7, Ev_Sent (S_Error m)]"
proof -
  obtain s' where run: "negotiate (demo_gw (\<lambda>_ _. None) closing_hook) (demo_conn demo_start) = (Inr None, s')"
    and ev: "Ev_Create 7 \<in> set (events s')" by (rule demo_refused)
  have "events (demo_conn demo_start) = []" by (simp add: demo_conn_def)
  from refused_client_leaves_no_session [OF this run] run ev show ?thesis by blast
qed

text \<open>
  C13 (functional). A session is handed to a client in one of two ways. Either it was resumed by token:
  then no target is contacted and the control plane's concurrency check is not repeated. Or it is
  new: connected, registered and then admitted by the control plane under its own id. Either way
  the client was authorized first, and last it was sent its session id with the resume token, then
  the live status.
\<close>

theorem started_session_announced:
  assumes "events s = []" and "negotiate G s = (Inr (Some n), s')"
  shows "\<exists>cn tok pre resumed. let ref = ng_session n in
    events s' = Ev_Authorize cn tok True # pre @
      [Ev_Sent (S_Hello PROTOCOL_VERSION (sr_id ref) resumed (ResumeToken (sr_token ref))), Ev_Sent (S_Status Live)] \<and>
    (if resumed then pre = [Ev_Resume (sr_id ref)]
     else \<exists>t ss. list_all sign_request ss \<and>
       pre = Ev_Ssh t # ss @ [Ev_Create (sr_id ref), Ev_Session_open tok (word_display (sr_id ref)) cn True])"
  using negotiate_refines [OF assms(2)] assms(1) protocol_started [of "ng_session n"] by (simp add: Let_def)

theorem started_session_announced_witness:
  "\<exists>r s' cn tok pre. negotiate (demo_gw (\<lambda>_ _. None) allow_all) (demo_conn demo_start) = (r, s') \<and>
     events s' = Ev_Authorize cn tok True # pre @ [Ev_Sent (S_Hello PROTOCOL_VERSION 7 False (ResumeToken [1, 2])), Ev_Sent (S_Status Live)]"
proof -
  obtain n s' where run: "negotiate (demo_gw (\<lambda>_ _. None) allow_all) (demo_conn demo_start) = (Inr (Some n), s')"
    and n: "sr_id (ng_session n) = 7" "sr_token (ng_session n) = [1, 2]" "Ev_Ssh demo_target \<in> set (events s')"
    by (rule demo_started)
  from started_session_announced [OF _ run] obtain cn tok pre resumed where
    ev: "events s' = Ev_Authorize cn tok True # pre @
        [Ev_Sent (S_Hello PROTOCOL_VERSION 7 resumed (ResumeToken [1, 2])), Ev_Sent (S_Status Live)]"
      "resumed \<longrightarrow> pre = [Ev_Resume 7]" by (auto simp: demo_conn_def n Let_def split: if_splits)
  with n(3) run show ?thesis by (cases resumed) auto
qed

subsection \<open>A negotiation that breaks late\<close>

lemma protocol_broken_open:
  assumes "protocol Broken es" and "Ev_Session_open tok d cn True \<in> set es"
  shows "(\<exists>sid. Ev_Create sid \<in> set es \<and> d = word_display sid) \<and> (\<forall>sid. Ev_Remove sid \<notin> set es) \<and>
    (\<forall>tok d. Ev_Session_close tok d \<notin> set es)"
  using assms by (cases rule: protocol.cases) (auto simp: protocol_defs dest: sign_requests_are_sends)

text \<open>
  C37 (error). If the client's stream breaks after the control plane has admitted a new session but
  before the greeting is out, negotiation fails and the session stays: it was registered and opened
  at the control plane, and neither is undone, although no client has its resume token.
\<close>

theorem broken_greeting_keeps_session:
  assumes "events s = []" and "negotiate G s = (Inl e, s')"
    and "Ev_Session_open tok d cn True \<in> set (events s')"
  shows "(\<exists>sid. Ev_Create sid \<in> set (events s') \<and> d = word_display sid) \<and>
    (\<forall>sid. Ev_Remove sid \<notin> set (events s')) \<and> (\<forall>tok d. Ev_Session_close tok d \<notin> set (events s'))"
  using negotiate_refines [OF assms(2)] assms(1,3) protocol_broken_open by fastforce

theorem broken_greeting_keeps_session_witness:
  "\<exists>s'. negotiate (demo_gw (\<lambda>es f. Some (Write ''reset'')) allow_all) (demo_conn demo_start) =
       (Inl (Msg ''write: reset''), s') \<and>
     mgr_resume [1, 2] (sh_gw (shared s')) = Some 0 \<and> (\<forall>sid. Ev_Remove sid \<notin> set (events s'))"
proof -
  obtain s' where run: "negotiate (demo_gw (\<lambda>es f. Some (Write ''reset'')) allow_all) (demo_conn demo_start) =
      (Inl (Msg ''write: reset''), s')" and ev: "Ev_Session_open None (word_display (7 :: session_id)) ''ipad'' True \<in> set (events s')"
    and gw: "mgr_resume [1, 2] (sh_gw (shared s')) = Some 0"
    by (simp add: negotiate_eval transport_anyhow_def transport_display_def gateway_new_def mgr_new_def
        with_scrollback_def mgr_resume_def)
  have "events (demo_conn demo_start) = []" by (simp add: demo_conn_def)
  from broken_greeting_keeps_session [OF this run ev] run gw show ?thesis by blast
qed

subsection \<open>Delegated signing\<close>

text \<open>The frames the signer passes over while it waits for the response to a request.\<close>

fun passed_over :: "u64 \<Rightarrow> client_frame \<Rightarrow> bool" where
  "passed_over req (C_SignResponse rid _) = (rid \<noteq> req)"
| "passed_over req C_Ping = True"
| "passed_over req _ = False"

lemma recv_frame_Cons:
  "incoming s = f # fs \<Longrightarrow> \<exists>s1. recv_frame G s = (Inr f, s1) \<and> incoming s1 = fs \<and> next_id s1 = next_id s"
  by (simp add: recv_frame_def put_shared_def Let_def)

lemma sign_wait_step:
  assumes "recv_frame G s = (Inr f, s1)"
  shows "passed_over req f \<Longrightarrow> sign_wait G req s = sign_wait G req s1"
    and "\<not> passed_over req f \<Longrightarrow> sign_wait G req s = (Inr sig, s') \<Longrightarrow> f = C_SignResponse req sig \<and> s' = s1"
  using assms by (simp_all add: sign_wait.simps [of G req s]) (cases f; auto split: if_splits)+

lemma sign_wait_answer:
  "list_all (passed_over req) junk \<Longrightarrow> incoming s = junk @ C_SignResponse req sig # rest \<Longrightarrow>
     \<exists>s'. sign_wait G req s = (Inr sig, s') \<and> incoming s' = rest"
proof (induction junk arbitrary: s)
  case Nil
  then obtain s1 where "recv_frame G s = (Inr (C_SignResponse req sig), s1)" "incoming s1 = rest"
    using recv_frame_Cons [of s "C_SignResponse req sig" rest G] by auto
  then show ?case by (simp add: sign_wait.simps [of G req s])
next
  case (Cons f junk)
  from Cons.prems(2) recv_frame_Cons [of s f "junk @ C_SignResponse req sig # rest" G] obtain s1 where
    s1: "recv_frame G s = (Inr f, s1)" "incoming s1 = junk @ C_SignResponse req sig # rest" by auto
  from Cons.IH [OF _ s1(2)] Cons.prems(1) sign_wait_step(1) [OF s1(1)] show ?case by simp
qed

lemma sign_wait_sound:
  "sign_wait G req s = (Inr sig, s') \<Longrightarrow>
     \<exists>junk. list_all (passed_over req) junk \<and> incoming s = junk @ C_SignResponse req sig # incoming s'"
proof (induction "incoming s" arbitrary: s)
  case Nil
  then show ?case by (subst (asm) sign_wait.simps) (simp add: recv_frame_def put_shared_def Let_def)
next
  case (Cons f fs)
  from recv_frame_Cons [OF Cons.hyps(2) [symmetric]] obtain s1 where
    s1: "recv_frame G s = (Inr f, s1)" "incoming s1 = fs" by blast
  show ?case
  proof (cases "passed_over req f")
    case True
    with Cons.prems sign_wait_step(1) [OF s1(1)] have "sign_wait G req s1 = (Inr sig, s')" by simp
    from Cons.hyps(1) [OF s1(2) [symmetric] this] obtain junk where
      "list_all (passed_over req) junk" "incoming s1 = junk @ C_SignResponse req sig # incoming s'" by blast
    with True s1(2) Cons.hyps(2) show ?thesis by (intro exI [of _ "f # junk"]) simp
  next
    case False
    from sign_wait_step(2) [OF s1(1) False Cons.prems] s1(2) Cons.hyps(2) show ?thesis
      by (intro exI [of _ "[]"]) simp
  qed
qed

text \<open>
  C23 (functional). Delegated signing: the client is sent the challenge as it is, under a fresh request
  id, and the signature returned is the one of its response to that very request. Responses to other
  requests and keep-alives in between are passed over; nothing after the response is consumed; and if the
  request goes out and that response is next after such frames, it is returned.
\<close>

theorem delegated_signature_matches:
  assumes "control_sign G pk alg data s = (r, s')"
  shows "let i = next_id s; req = S_SignRequest i (str_bytes pk) data
    in (\<forall>sig. r = Inr sig \<longleftrightarrow> link G (events s) req = None \<and>
          (\<exists>junk rest. incoming s = junk @ C_SignResponse i sig # rest \<and> list_all (passed_over i) junk)) \<and>
       (\<forall>sig. r = Inr sig \<longrightarrow> events s' = events s @ [Ev_Sent req] \<and>
          (\<exists>junk. incoming s = junk @ C_SignResponse i sig # incoming s'))"
proof (cases "link G (events s) (S_SignRequest (next_id s) (str_bytes pk) data)")
  case (Some e)
  with assms show ?thesis
    by (auto simp: control_sign_def send_frame_def put_shared_def io_apply Let_def)
next
  case None
  let ?i = "next_id s"
  obtain s1 where s1: "control_sign G pk alg data s = sign_wait G ?i s1" "incoming s1 = incoming s"
      "events s1 = events s @ [Ev_Sent (S_SignRequest ?i (str_bytes pk) data)]"
    using None by (simp add: control_sign_def send_frame_def put_shared_def note_event_def io_apply Let_def)
  with assms have run: "sign_wait G ?i s1 = (r, s')" by simp
  with sign_wait_events [of G ?i s1] s1(3) have "events s' = events s1" by simp
  moreover have "\<exists>junk. list_all (passed_over ?i) junk \<and> incoming s = junk @ C_SignResponse ?i sig # incoming s'"
    if "r = Inr sig" for sig
    using sign_wait_sound [of G ?i s1 sig s'] run that s1(2) by simp
  moreover have "r = Inr sig" if "list_all (passed_over ?i) junk" "incoming s = junk @ C_SignResponse ?i sig # rest"
    for junk sig rest
    using sign_wait_answer [OF that(1), of s1 sig rest G] that(2) s1(2) run by auto
  ultimately show ?thesis unfolding Let_def using None s1(3) by metis
qed

theorem delegated_signature_matches_witness:
  "\<exists>s'. control_sign (demo_gw (\<lambda>_ _. None) allow_all) ''ssh-ed25519 A'' None [5]
       (demo_conn [C_SignResponse 9 [1], C_Ping, C_SignResponse 0 [4], C_Close]) = (Inr [4], s') \<and>
     events s' = [Ev_Sent (S_SignRequest 0 (str_bytes ''ssh-ed25519 A'') [5])]"
proof -
  let ?G = "demo_gw (\<lambda>_ _. None) allow_all"
  let ?s = "demo_conn [C_SignResponse 9 [1], C_Ping, C_SignResponse 0 [4], C_Close]"
  obtain r s' where run: "control_sign ?G ''ssh-ed25519 A'' None [5] ?s = (r, s')" by fastforce
  have "link ?G (events ?s) f = None" for f by (simp add: demo_gw_def)
  moreover have "incoming ?s = [C_SignResponse 9 [1], C_Ping] @ C_SignResponse 0 [4] # [C_Close]"
    "next_id ?s = 0" "events ?s = []" by (simp_all add: demo_conn_def)
  moreover have "list_all (passed_over 0) [C_SignResponse 9 [1], C_Ping]" by simp
  ultimately have "r = Inr [4]"
    using delegated_signature_matches [OF run] unfolding Let_def by metis
  with delegated_signature_matches [OF run] run \<open>next_id ?s = 0\<close> \<open>events ?s = []\<close> show ?thesis by (simp add: Let_def)
qed

end
