(* ===== verification/Server_Streaming.thy ===== *)
theory Server_Streaming
  imports Server_Throttle
begin

text \<open>
  The sender task of a connection, \<open>sender_task\<close> of \<open>gw-server/src/handler.rs\<close>: session output and
  out-of-band frames to the client, through the bandwidth limiter and the usage meter.

  The task is driven by what its \<open>select!\<close> yields, interleaved with what the ingest task does to the
  session meanwhile. \<open>Take_chunk\<close> is a turn in which the reader's branch is polled: it carries the
  clock delays of the limiter, the time, and whether the send succeeds. \<open>Throttled\<close> is a task that is
  still in the limiter's loop when its clock readings are used up.

  The property: however the session's output, the client's frames and the clock are interleaved,
  and from whatever point of the session the client is attached, the data frames sent are, in order, the
  retained scrollback followed by the live output, without loss as long as the client keeps up.
\<close>

datatype sender_event =
  Session_output bytes
| Session_end
| Take_chunk "duration list" instant bool
| Take_oob "server_frame option" bool

datatype sender_status = Streaming | Throttled | Stopped

record sender =
  sn_cursor :: cursor
  sn_limiter :: limiter
  sn_oob_open :: bool
  sn_meter :: usage_meter
  sn_frames :: "server_frame list"
  sn_status :: sender_status

definition sender_new :: "entitlement \<Rightarrow> instant \<Rightarrow> sender" where
  "sender_new ent now =
     \<lparr>sn_cursor = 0, sn_limiter = limiter_new ent now, sn_oob_open = True, sn_meter = meter_default,
      sn_frames = [], sn_status = Streaming\<rparr>"

definition send_or_stop :: "server_frame \<Rightarrow> bool \<Rightarrow> sender \<Rightarrow> sender" where
  "send_or_stop f sent s = (if sent then s\<lparr>sn_frames := sn_frames s @ [f]\<rparr> else s\<lparr>sn_status := Stopped\<rparr>)"

definition sender_chunk :: "session_inner \<Rightarrow> duration list \<Rightarrow> instant \<Rightarrow> bool \<Rightarrow> sender \<Rightarrow> sender" where
  "sender_chunk inner delays now sent s =
     (case reader_poll inner (sn_cursor s) of
        (Chunk bytes, c) \<Rightarrow>
          (case throttle delays now (of_nat (length bytes)) (sn_limiter s) of
             (Passed, l, t) \<Rightarrow>
               send_or_stop (S_Data bytes) sent
                 (s\<lparr>sn_cursor := c, sn_limiter := l, sn_meter := meter_add_out (of_nat (length bytes)) (sn_meter s)\<rparr>)
           | (Waiting, l, t) \<Rightarrow> s\<lparr>sn_cursor := c, sn_limiter := l, sn_status := Throttled\<rparr>
           | (Panicked, l, t) \<Rightarrow> s\<lparr>sn_cursor := c, sn_limiter := l, sn_status := Stopped\<rparr>)
      | (Ended, c) \<Rightarrow> (send_or_stop S_Closed sent (s\<lparr>sn_cursor := c\<rparr>))\<lparr>sn_status := Stopped\<rparr>
      | (Pending, c) \<Rightarrow> s\<lparr>sn_cursor := c\<rparr>
      | (Panic, c) \<Rightarrow> s\<lparr>sn_cursor := c, sn_status := Stopped\<rparr>)"

definition sender_oob :: "server_frame option \<Rightarrow> bool \<Rightarrow> sender \<Rightarrow> sender" where
  "sender_oob frame sent s =
     (if \<not> sn_oob_open s then s
      else case frame of
             Some f \<Rightarrow> send_or_stop f sent s
           | None \<Rightarrow> s\<lparr>sn_oob_open := False\<rparr>)"

fun sender_run :: "sender_event list \<Rightarrow> session_inner \<Rightarrow> sender \<Rightarrow> session_inner \<times> sender" where
  "sender_run [] inner s = (inner, s)"
| "sender_run (Session_output d # es) inner s = sender_run es (session_append inner d) s"
| "sender_run (Session_end # es) inner s = sender_run es (inner\<lparr>closed := True\<rparr>) s"
| "sender_run (Take_chunk delays now sent # es) inner s =
     sender_run es inner (if sn_status s = Streaming then sender_chunk inner delays now sent s else s)"
| "sender_run (Take_oob frame sent # es) inner s =
     sender_run es inner (if sn_status s = Streaming then sender_oob frame sent s else s)"

subsection \<open>The reads of a sender\<close>

fun reads :: "sender_event list \<Rightarrow> sess_event list" where
  "reads [] = []"
| "reads (Session_output d # es) = Output d # reads es"
| "reads (Take_chunk _ _ _ # es) = Poll # reads es"
| "reads (_ # es) = reads es"

fun data_frames :: "server_frame list \<Rightarrow> bytes list" where
  "data_frames [] = []"
| "data_frames (S_Data b # fs) = b # data_frames fs"
| "data_frames (_ # fs) = data_frames fs"

lemma data_frames_append [simp]: "data_frames (xs @ ys) = data_frames xs @ data_frames ys"
  by (induction xs rule: data_frames.induct) simp_all

text \<open>Out-of-band frames are never data frames: the receiver loop queues \<open>Pong\<close> only.\<close>

fun oob_no_data :: "sender_event list \<Rightarrow> bool" where
  "oob_no_data [] = True"
| "oob_no_data (Take_oob (Some f) _ # es) = (data_frames [f] = [] \<and> oob_no_data es)"
| "oob_no_data (_ # es) = oob_no_data es"

lemma reader_poll_closed:
  "reader_poll (s\<lparr>closed := b\<rparr>) c =
     (case reader_poll s c of
        (Chunk d, c') \<Rightarrow> (Chunk d, c') | (Panic, c') \<Rightarrow> (Panic, c') | (_, c') \<Rightarrow> (if b then Ended else Pending, c'))"
  by (simp add: reader_poll_def Let_def)

lemma session_append_closed: "session_append (s\<lparr>closed := b\<rparr>) d = (session_append s d)\<lparr>closed := b\<rparr>"
  by (simp add: session_append_def Let_def)

lemma out_run_closed:
  "out_run session_append reader_poll es (s\<lparr>closed := b\<rparr>) c =
     (case out_run session_append reader_poll es s c of (bs, s', c') \<Rightarrow> (bs, s'\<lparr>closed := b\<rparr>, c'))"
proof (induction es arbitrary: s c)
  case (Cons e es)
  then show ?case
    by (cases e) (auto simp: session_append_closed reader_poll_closed split: prod.splits poll.splits)
qed simp

lemma sender_stopped: "sn_status s \<noteq> Streaming \<Longrightarrow> snd (sender_run es inner s) = s"
  by (induction es inner s rule: sender_run.induct) simp_all

text \<open>One turn of the reader's branch: the task stops with nothing sent, or it sends the chunk read, or waits.\<close>

lemma sender_chunk_cases:
  assumes "sn_status s = Streaming" and "reader_poll inner (sn_cursor s) = (p, c)"
  obtains (stopped) "sn_status (sender_chunk inner delays now sent s) \<noteq> Streaming"
      "data_frames (sn_frames (sender_chunk inner delays now sent s)) = data_frames (sn_frames s)"
    | (chunk) b l where "p = Chunk b" "sender_chunk inner delays now sent s = s\<lparr>sn_cursor := c, sn_limiter := l,
        sn_meter := meter_add_out (of_nat (length b)) (sn_meter s), sn_frames := sn_frames s @ [S_Data b]\<rparr>"
    | (pending) "p = Pending" "sender_chunk inner delays now sent s = s\<lparr>sn_cursor := c\<rparr>"
proof (cases p)
  case (Chunk b)
  obtain r l t where th: "throttle delays now (of_nat (length b)) (sn_limiter s) = (r, l, t)" by (metis prod_cases3)
  show thesis
  proof (cases "r = Passed \<and> sent")
    case True
    then show thesis
      using assms th by (intro chunk [OF Chunk, of l]) (simp add: sender_chunk_def send_or_stop_def Chunk)
  next
    case False
    then show thesis
      using assms th by (intro stopped; cases r) (simp_all add: sender_chunk_def send_or_stop_def Chunk)
  qed
next
  case Pending
  then show thesis using assms by (intro pending) (simp_all add: sender_chunk_def)
qed (use assms in \<open>intro stopped; simp add: sender_chunk_def send_or_stop_def\<close>)+

text \<open>
  What is sent is a prefix of what the reads yield, and all of it while the task is streaming.
\<close>

definition sends :: "bytes list \<Rightarrow> cursor \<Rightarrow> sender \<Rightarrow> sender \<Rightarrow> bool" where
  "sends bs c s s' \<longleftrightarrow>
     (\<exists>sent rest. data_frames (sn_frames s') = data_frames (sn_frames s) @ sent \<and> bs = sent @ rest \<and>
        (sn_status s' = Streaming \<longrightarrow> rest = [] \<and> sn_cursor s' = c \<and>
           bytes_out (sn_meter s') = bytes_out (sn_meter s) + of_nat (length (concat sent))))"

lemma sends_stopped:
  "sn_status s' \<noteq> Streaming \<Longrightarrow> data_frames (sn_frames s') = data_frames (sn_frames s) \<Longrightarrow> sends bs c s s'"
  unfolding sends_def by (intro exI [of _ "[]"] exI [of _ bs]) simp

lemma sends_chunk:
  assumes "sends bs c (s\<lparr>sn_cursor := c1, sn_limiter := l, sn_meter := meter_add_out (of_nat (length b)) (sn_meter s),
      sn_frames := sn_frames s @ [S_Data b]\<rparr>) s'"
  shows "sends (b # bs) c s s'"
proof -
  from assms obtain sent rest where "data_frames (sn_frames s') = data_frames (sn_frames s) @ b # sent" "bs = sent @ rest"
    "sn_status s' = Streaming \<longrightarrow> rest = [] \<and> sn_cursor s' = c \<and>
       bytes_out (sn_meter s') = bytes_out (sn_meter s) + of_nat (length b) + of_nat (length (concat sent))"
    by (auto simp: sends_def meter_add_out_def)
  then show ?thesis
    unfolding sends_def by (intro exI [of _ "b # sent"] exI [of _ rest]) (simp add: add.assoc)
qed

lemma sends_same:
  "data_frames (sn_frames t) = data_frames (sn_frames s) \<Longrightarrow> sn_meter t = sn_meter s \<Longrightarrow> sends bs c t s' \<Longrightarrow> sends bs c s s'"
  by (simp add: sends_def)

lemma sender_oob_fields:
  "oob_no_data (Take_oob frame sent # es) \<Longrightarrow> data_frames (sn_frames (sender_oob frame sent s)) = data_frames (sn_frames s)"
  "sn_cursor (sender_oob frame sent s) = sn_cursor s" "sn_meter (sender_oob frame sent s) = sn_meter s"
  by (cases frame; simp add: sender_oob_def send_or_stop_def)+

lemma sender_run_data:
  "sn_status s = Streaming \<Longrightarrow> oob_no_data es \<Longrightarrow> sender_run es inner s = (inner', s') \<Longrightarrow>
   out_run session_append reader_poll (reads es) inner (sn_cursor s) = (bs, r, c) \<Longrightarrow> sends bs c s s'"
proof (induction es inner s arbitrary: bs r rule: sender_run.induct)
  case (3 es inner s)
  then show ?case by (auto simp: out_run_closed split: prod.splits)
next
  case (4 delays now sent es inner s)
  let ?s = "sender_chunk inner delays now sent s"
  obtain p c1 where poll: "reader_poll inner (sn_cursor s) = (p, c1)" by fastforce
  from 4(2,4) have run: "sender_run es inner ?s = (inner', s')" by simp
  from 4(2) poll show ?case
  proof (cases rule: sender_chunk_cases [of s inner p c1 delays now sent])
    case stopped
    with sender_stopped [OF stopped(1), of es inner] run show ?thesis by (intro sends_stopped) simp_all
  next
    case (chunk b l)
    with poll 4(5) obtain bs' where bs': "bs = b # bs'"
      "out_run session_append reader_poll (reads es) inner (sn_cursor ?s) = (bs', r, c)" by (auto split: prod.splits)
    from 4(1) [of bs' r] 4(2,3) run bs'(2) chunk have "sends bs' c ?s s'" by simp
    with chunk(2) bs'(1) show ?thesis by (simp add: sends_chunk)
  next
    case pending
    with poll 4(5) have "out_run session_append reader_poll (reads es) inner (sn_cursor ?s) = (bs, r, c)" by simp
    with 4(1) [of bs r] 4(2,3) run pending(2) have "sends bs c ?s s'" by simp
    then show ?thesis by (rule sends_same [rotated 2]) (simp_all add: pending(2))
  qed
next
  case (5 frame sent es inner s)
  let ?s = "sender_oob frame sent s"
  note s = sender_oob_fields(1) [OF 5(3), of s] sender_oob_fields(2,3) [of frame sent s]
  have no: "oob_no_data es" using 5(3) by (cases frame) auto
  show ?case
  proof (cases "sn_status ?s = Streaming")
    case False
    with 5 sender_stopped [OF False, of es inner] have "s' = ?s" by simp
    with False s show ?thesis by (intro sends_stopped) simp_all
  next
    case True
    from 5(2,4) have run: "sender_run es inner ?s = (inner', s')" by simp
    from 5(5) s(2) have "out_run session_append reader_poll (reads es) inner (sn_cursor ?s) = (bs, r, c)" by simp
    with 5(1) [of bs r] 5(2) True no run have "sends bs c ?s s'" by simp
    then show ?thesis by (rule sends_same [OF s(1,3)])
  qed
qed (auto simp: sends_def)

subsection \<open>Attaching at any point of a session\<close>

text \<open>A fresh reader behaves like one that stands at the start of the retained scrollback.\<close>

lemma reader_poll_clip:
  "c \<le> start_offset s \<Longrightarrow> d \<le> start_offset s \<Longrightarrow> reader_poll s c = reader_poll s d"
proof -
  assume le: "c \<le> start_offset s" "d \<le> start_offset s"
  have "(if e < start_offset s then start_offset s else e) = start_offset s" if "e \<le> start_offset s" for e
    using that by auto
  then show ?thesis unfolding reader_poll_def using le by simp
qed

lemma out_run_clip:
  assumes "scroll_rep s hist" and "length hist + length (outputs es) < 2 ^ 64"
    and "c \<le> start_offset s" and "d \<le> start_offset s"
  shows "fst (out_run session_append reader_poll es s c) = fst (out_run session_append reader_poll es s d) \<and>
    (Poll \<in> set es \<longrightarrow> out_run session_append reader_poll es s c = out_run session_append reader_poll es s d)"
  using assms
proof (induction es arbitrary: s hist)
  case (Cons e es)
  show ?case
  proof (cases e)
    case (Output b)
    have rep: "scroll_rep (session_append s b) (hist @ b)" using Cons.prems Output by (intro scroll_rep_append) auto
    have "unat (start_offset s) \<le> unat (start_offset (session_append s b))"
      using rep Cons.prems(1) by (simp add: scroll_rep_def session_simps)
    then have "start_offset s \<le> start_offset (session_append s b)" by (simp add: word_le_nat_alt)
    with Cons.IH [OF rep] Cons.prems Output show ?thesis by auto
  next
    case Poll
    with reader_poll_clip [OF Cons.prems(3,4)] show ?thesis by simp
  qed
qed simp

lemma attached_run:
  assumes rep: "scroll_rep inner hist" and len: "length hist + length (outputs es) < 2 ^ 64"
    and up: "keeps_up (max_bytes inner) (min (length hist) (max_bytes inner)) es"
    and run: "out_run session_append reader_poll es inner 0 = (bs, r, c)"
  shows "prefix (concat bs) (drop (length hist - max_bytes inner) (hist @ outputs es))"
    and "es = xs @ [Poll] \<Longrightarrow> concat bs = drop (length hist - max_bytes inner) (hist @ outputs es)"
proof -
  let ?p = "length hist - max_bytes inner"
  have start: "unat (start_offset inner) = ?p" "0 \<le> start_offset inner" using rep by (simp_all add: scroll_rep_def)
  obtain bs2 r2 c2 where run2: "out_run session_append reader_poll es inner (start_offset inner) = (bs2, r2, c2)"
    by (metis prod_cases3)
  note clip = out_run_clip [OF rep len start(2) order_refl]
  with run run2 have bs: "bs2 = bs" by simp
  have lag: "length hist - ?p = min (length hist) (max_bytes inner)" by auto
  have "unat (start_offset inner) \<le> length hist" "length hist - unat (start_offset inner) \<le> max_bytes inner"
    using start(1) by auto
  with scroll.run_lossless [OF rep _ len _ _ run2] up start(1) lag obtain n where
    n: "unat c2 = ?p + n" "concat bs = take n (drop ?p (hist @ outputs es))" unfolding bs by fastforce
  show "prefix (concat bs) (drop ?p (hist @ outputs es))" unfolding n(2) by (rule take_is_prefix)
  assume es: "es = xs @ [Poll]"
  have "outputs (xs @ [Poll]) = outputs xs" by (induction xs rule: outputs.induct) simp_all
  with es scroll.run_caught_up [OF rep, of "start_offset inner" xs bs2 r2 c2] run2 len start(1)
  have "unat c2 = length (hist @ outputs es)" by simp
  with n show "concat bs = drop ?p (hist @ outputs es)" by simp
qed

subsection \<open>Properties\<close>

text \<open>
  What an attached client receives. Attach a sender to a session at any point of its
  life, with any entitlement, and let session output, reads, pongs, limiter delays and send failures
  be interleaved in any way. As long as no more than the scrollback capacity is ever unread, the data
  frames sent are, concatenated, a prefix of: the retained scrollback followed by the live output. When
  the sender is still streaming and has just polled its reader, they are all of it, and the metered
  bytes are exactly the bytes sent.
\<close>

lemma attached_client_receives_output:
  assumes "scroll_rep inner hist" and "length hist + length (outputs (reads es)) < 2 ^ 64"
    and "keeps_up (max_bytes inner) (min (length hist) (max_bytes inner)) (reads es)" and "oob_no_data es"
    and "sender_run es inner (sender_new ent now) = (inner', s)"
  shows "let missed = length hist - max_bytes inner; sent = concat (data_frames (sn_frames s))
    in prefix sent (drop missed (hist @ outputs (reads es))) \<and>
       (sn_status s = Streaming \<longrightarrow>
          bytes_out (sn_meter s) = of_nat (length sent) \<and>
          ((\<exists>xs. reads es = xs @ [Poll]) \<longrightarrow> sent = drop missed (hist @ outputs (reads es))))"
proof -
  obtain bs r c where run: "out_run session_append reader_poll (reads es) inner 0 = (bs, r, c)" by (metis prod_cases3)
  have new: "sn_status (sender_new ent now) = Streaming" "sn_cursor (sender_new ent now) = 0"
    "data_frames (sn_frames (sender_new ent now)) = []" "bytes_out (sn_meter (sender_new ent now)) = 0"
    by (simp_all add: sender_new_def meter_default_def)
  from sender_run_data [OF new(1) assms(4,5), of bs r c] run new obtain sent rest where
    sent: "data_frames (sn_frames s) = sent" "bs = sent @ rest"
      "sn_status s = Streaming \<longrightarrow> rest = [] \<and> bytes_out (sn_meter s) = of_nat (length (concat sent))"
    by (auto simp: sends_def)
  note at = attached_run [OF assms(1-3) run]
  have "prefix (concat sent) (concat bs)" using sent(2) by simp
  with at(1) have "prefix (concat sent) (drop (length hist - max_bytes inner) (hist @ outputs (reads es)))"
    by (rule prefix_order.trans [rotated])
  with sent at(2) show ?thesis by (auto simp: Let_def)
qed

end
