(* ===== verification/Server_Lifecycle.thy ===== *)
theory Server_Lifecycle
  imports Server_Protocol Server_Streaming
begin

text \<open>
  A connection from start to finish, \<open>receiver_loop\<close> and \<open>handle_connection\<close> of
  \<open>gw-server/src/handler.rs\<close>: negotiation, the client's frames applied to the session, and at the
  end the usage report and either the teardown or the detachment of the session.

  The sender task runs beside the receiver loop and is aborted at its end; what it contributes to the
  handler is the number of bytes it has metered by then, an argument here (its behaviour is in
  \<open>Server_Streaming\<close>). The input queue of a session leads to the SSH actor; putting an input on it is
  an environment call (\<open>queue_input\<close>).

  The properties: the client's input reaches the session in order and is metered; a dropped client
  leaves its session resumable by the same token; a closed one does not; and the control plane is
  told about both in a fixed order.
\<close>

datatype loop_outcome = Out_Detached | Out_Closed

definition send_input ::
  "('w, 'h, 'c, 'k, 'sk) gateway_env \<Rightarrow> session_ref \<Rightarrow> ssh_input \<Rightarrow> 'w conn \<Rightarrow> bool \<times> 'w conn" where
  "send_input G session inp s =
     (case queue_input G (sr_arc session) inp (shared s) of
        (ok, sh) \<Rightarrow> (ok, note_event (Ev_Input (sr_arc session) inp) (put_shared sh s)))"

definition receiver_apply ::
  "('w, 'h, 'c, 'k, 'sk) gateway_env \<Rightarrow> session_ref \<Rightarrow> client_frame \<Rightarrow> 'w conn \<Rightarrow> 'w conn" where
  "receiver_apply G session frame s =
     (case frame of
        C_Data bytes \<Rightarrow>
          snd (send_input G session (In_Data bytes) (s\<lparr>meter := meter_add_in (of_nat (length bytes)) (meter s)\<rparr>))
      | C_Resize cols rows \<Rightarrow> snd (send_input G session (In_Resize (ucast cols) (ucast rows)) s)
      | C_Ping \<Rightarrow> note_event (Ev_Oob S_Pong) s
      | _ \<Rightarrow> s)"

lemma receiver_apply_incoming [simp]: "incoming (receiver_apply G session f s) = incoming s"
  by (cases f) (simp_all add: receiver_apply_def send_input_def note_event_def put_shared_def split: prod.splits)

function receiver_loop ::
  "('w, 'h, 'c, 'k, 'sk) gateway_env \<Rightarrow> session_ref \<Rightarrow> 'w conn \<Rightarrow> loop_outcome \<times> 'w conn" where
  "receiver_loop G session s =
     (case recv_frame G s of
        (Inl e, s1) \<Rightarrow> (Out_Detached, s1)
      | (Inr frame, s1) \<Rightarrow>
          if frame = C_Close then (Out_Closed, s1)
          else receiver_loop G session (receiver_apply G session frame s1))"
  by auto
termination
  by (relation "measure (\<lambda>(G, session, s). length (incoming s))")
     (auto dest!: sym [of "(Inr _, _)"] recv_frame_shorter)

declare receiver_loop.simps [simp del]

text \<open>The rest of a connection after a successful negotiation.\<close>

definition serve_client ::
  "('w, 'h, 'c, 'k, 'sk) gateway_env \<Rightarrow> negotiated \<Rightarrow> u64 \<Rightarrow> 'w conn \<Rightarrow> 'w conn" where
  "serve_client G n metered_out s =
     (let session = ng_session n; tok = ng_account_token n; sid = word_display (sr_id session)
      in case receiver_loop G session (s\<lparr>meter := meter_default\<rparr>) of
           (outcome, s1) \<Rightarrow>
             (case meter_totals (meter_add_out metered_out (meter s1)) of
                (n_in, n_out) \<Rightarrow>
                  (let s2 = note_event (Ev_Usage tok sid n_in n_out)
                              (put_shared (hook_report_usage (hook_of G) tok sid n_in n_out (shared s1)) s1)
                   in if outcome = Out_Closed \<or> is_closed (session_at (sh_gw (shared s2)) (sr_arc session))
                      then (let s3 = note_event (Ev_Session_close tok sid)
                                       (put_shared (hook_session_close (hook_of G) tok sid (shared s2)) s2)
                            in snd (remove_session (sr_id session) s3 :: (unit + unit) \<times> 'w conn))
                      else s2)))"

definition handle_connection ::
  "('w, 'h, 'c, 'k, 'sk) gateway_env \<Rightarrow> u64 \<Rightarrow> 'w conn \<Rightarrow> 'w conn" where
  "handle_connection G metered_out s =
     (case negotiate G s of
        (Inr (Some n), s1) \<Rightarrow> serve_client G n metered_out s1
      | (Inr None, s1) \<Rightarrow> s1
      | (Inl error, s1) \<Rightarrow> s1)"

subsection \<open>The receiver loop\<close>

fun frame_events :: "session_ref \<Rightarrow> client_frame \<Rightarrow> event list" where
  "frame_events session (C_Data bytes) = [Ev_Input (sr_arc session) (In_Data bytes)]"
| "frame_events session (C_Resize cols rows) = [Ev_Input (sr_arc session) (In_Resize (ucast cols) (ucast rows))]"
| "frame_events session C_Ping = [Ev_Oob S_Pong]"
| "frame_events session _ = []"

fun data_length :: "client_frame \<Rightarrow> nat" where
  "data_length (C_Data bytes) = length bytes"
| "data_length _ = 0"

definition until_close :: "client_frame list \<Rightarrow> client_frame list" where
  "until_close fs = takeWhile (\<lambda>f. f \<noteq> C_Close) fs"

lemma recv_frame_fields:
  "recv_frame G s = (r, s1) \<Longrightarrow> events s1 = events s \<and> meter s1 = meter s \<and>
     (case incoming s of [] \<Rightarrow> r = Inl (lost G) \<and> incoming s1 = [] | f # fs \<Rightarrow> r = Inr f \<and> incoming s1 = fs)"
  by (auto simp: recv_frame_def put_shared_def Let_def split: list.splits)

lemma receiver_apply_fields:
  "f \<noteq> C_Close \<Longrightarrow> events (receiver_apply G session f s) = events s @ frame_events session f"
  "meter (receiver_apply G session f s) = meter_add_in (of_nat (data_length f)) (meter s)"
  by (cases f; simp add: receiver_apply_def send_input_def note_event_def put_shared_def meter_add_in_def
      split: prod.splits)+

lemma receiver_loop_effect:
  "receiver_loop G session s = (outcome, s') \<Longrightarrow>
     (outcome = Out_Closed \<longleftrightarrow> C_Close \<in> set (incoming s)) \<and>
     events s' = events s @ concat (map (frame_events session) (until_close (incoming s))) \<and>
     meter s' = meter_add_in (of_nat (sum_list (map data_length (until_close (incoming s))))) (meter s)"
proof (induction "incoming s" arbitrary: s)
  case Nil
  obtain r s1 where recv: "recv_frame G s = (r, s1)" by fastforce
  with Nil recv_frame_fields [OF recv] show ?case
    by (auto simp: receiver_loop.simps [of G session s] until_close_def meter_add_in_def split: list.splits)
next
  case (Cons f fs)
  obtain r s1 where recv: "recv_frame G s = (r, s1)" by fastforce
  from recv_frame_fields [OF recv] Cons(2)
  have s1: "r = Inr f" "incoming s1 = fs" "events s1 = events s" "meter s1 = meter s" by (auto split: list.splits)
  show ?case
  proof (cases "f = C_Close")
    case True
    with Cons(2,3) recv s1 show ?thesis
      by (auto simp: receiver_loop.simps [of G session s] until_close_def meter_add_in_def
          simp flip: Cons(2))
  next
    case False
    let ?s = "receiver_apply G session f s1"
    from Cons(3) recv s1 False have run: "receiver_loop G session ?s = (outcome, s')"
      by (simp add: receiver_loop.simps [of G session s])
    from Cons(1) [OF _ run] s1(2) have
      IH: "(outcome = Out_Closed \<longleftrightarrow> C_Close \<in> set fs) \<and>
        events s' = events ?s @ concat (map (frame_events session) (until_close fs)) \<and>
        meter s' = meter_add_in (of_nat (sum_list (map data_length (until_close fs)))) (meter ?s)" by simp
    with False s1 receiver_apply_fields(1) [OF False, of G session s1] show ?thesis
      by (simp add: until_close_def receiver_apply_fields(2) meter_add_in_def ac_simps flip: Cons(2))
  qed
qed

subsection \<open>A session held by a connection\<close>

text \<open>
  The session is registered under its id and token and has not ended. \<open>others_hold\<close>: what happens
  beside this connection, at its awaits and in the calls it makes, leaves that so.
\<close>

definition session_held :: "session_ref \<Rightarrow> 'w shared_state \<Rightarrow> bool" where
  "session_held ref sh \<longleftrightarrow>
     (let g = sh_gw sh
      in registry_ok g \<and> (sr_id ref, sr_token ref, sr_arc ref) \<in> live_sessions g \<and>
         \<not> is_closed (session_at g (sr_arc ref)))"

definition others_hold :: "('w, 'h, 'c, 'k, 'sk) gateway_env \<Rightarrow> session_ref \<Rightarrow> bool" where
  "others_hold G ref \<longleftrightarrow>
     (\<forall>sh. session_held ref sh \<longrightarrow>
        session_held ref (other G sh) \<and>
        (\<forall>inp. session_held ref (snd (queue_input G (sr_arc ref) inp sh))) \<and>
        (\<forall>tok sid n m. session_held ref (hook_report_usage (hook_of G) tok sid n m sh)) \<and>
        (\<forall>tok sid. session_held ref (hook_session_close (hook_of G) tok sid sh)))"

lemma others_holdD:
  assumes "others_hold G ref" and "session_held ref sh"
  shows "session_held ref (other G sh)" and "queue_input G (sr_arc ref) inp sh = (ok, sh') \<Longrightarrow> session_held ref sh'"
    and "session_held ref (hook_report_usage (hook_of G) tok sid n m sh)"
    and "session_held ref (hook_session_close (hook_of G) tok sid sh)"
  using assms unfolding others_hold_def by (blast, metis snd_conv, blast, blast)

lemma recv_frame_held:
  "others_hold G ref \<Longrightarrow> session_held ref (shared s) \<Longrightarrow> recv_frame G s = (r, s1) \<Longrightarrow> session_held ref (shared s1)"
  by (auto simp: recv_frame_def put_shared_def Let_def others_holdD(1) split: list.splits)

lemma receiver_apply_held:
  "others_hold G ref \<Longrightarrow> session_held ref (shared s) \<Longrightarrow> session_held ref (shared (receiver_apply G ref f s))"
  by (cases f) (auto simp: receiver_apply_def send_input_def note_event_def put_shared_def
      intro: others_holdD(2) split: prod.splits)

lemma receiver_loop_held:
  "others_hold G ref \<Longrightarrow> session_held ref (shared s) \<Longrightarrow> receiver_loop G ref s = (outcome, s') \<Longrightarrow>
     session_held ref (shared s')"
proof (induction "length (incoming s)" arbitrary: s rule: less_induct)
  case less
  obtain r s1 where recv: "recv_frame G s = (r, s1)" by fastforce
  note held = recv_frame_held [OF less.prems(1,2) recv]
  show ?case
  proof (cases r)
    case (Inl e)
    with less.prems(3) recv held show ?thesis by (simp add: receiver_loop.simps [of G ref s])
  next
    case (Inr f)
    with recv have "length (incoming (receiver_apply G ref f s1)) < length (incoming s)"
      by (simp add: recv_frame_shorter)
    note IH = less.hyps [OF this less.prems(1) receiver_apply_held [OF less.prems(1) held]]
    with Inr less.prems(3) recv held show ?thesis
      by (auto simp: receiver_loop.simps [of G ref s] split: if_splits)
  qed
qed

lemma session_held_resume:
  assumes "session_held ref (shared s)"
  shows "resume_existing (Some (ResumeToken (sr_token ref))) s = Some ref"
proof -
  let ?g = "sh_gw (shared s)"
  from assms have ok: "registry_ok ?g" and live: "(sr_id ref, sr_token ref, sr_arc ref) \<in> live_sessions ?g"
    by (simp_all add: session_held_def Let_def)
  from mgr_resume_live [OF ok] live have "mgr_resume (sr_token ref) ?g = Some (sr_arc ref)" by blast
  moreover have "sess_id (session_at ?g (sr_arc ref)) = sr_id ref" "sess_token (session_at ?g (sr_arc ref)) = sr_token ref"
    using live registry_ok_id(2) [OF ok, of "sr_id ref" "sr_arc ref"] by (simp_all add: live_sessions_iff session_at_def)
  ultimately show ?thesis by (simp add: resume_existing_def Let_def)
qed

text \<open>How a served connection ends.\<close>

lemma serve_client_cases:
  fixes G :: "('w, 'h, 'c, 'k, 'sk) gateway_env"
  assumes "others_hold G (ng_session n)" and "session_held (ng_session n) (shared s)"
    and "serve_client G n out s = s'"
  shows "C_Close \<notin> set (incoming s) \<Longrightarrow> session_held (ng_session n) (shared s')"
    and "C_Close \<in> set (incoming s) \<Longrightarrow> \<exists>sh :: 'w shared_state. session_held (ng_session n) sh \<and>
      sh_gw (shared s') = mgr_remove (sr_id (ng_session n)) (sh_gw sh)"
proof -
  let ?ref = "ng_session n" and ?s = "s\<lparr>meter := meter_default\<rparr>"
  obtain outcome s1 where loop: "receiver_loop G ?ref ?s = (outcome, s1)" by fastforce
  have "session_held ?ref (shared s1)" using receiver_loop_held [OF assms(1) _ loop] assms(2) by simp
  note usage = others_holdD(3) [OF assms(1) this]
  note closed = others_holdD(4) [OF assms(1) usage]
  have out: "outcome = Out_Closed \<longleftrightarrow> C_Close \<in> set (incoming s)" using receiver_loop_effect [OF loop] by simp
  show "session_held ?ref (shared s')" if "C_Close \<notin> set (incoming s)"
    using that assms(3) loop out usage
    by (auto simp: serve_client_def Let_def note_event_def put_shared_def session_held_def split: prod.splits)
  show "\<exists>sh :: 'w shared_state. session_held ?ref sh \<and> sh_gw (shared s') = mgr_remove (sr_id ?ref) (sh_gw sh)"
    if "C_Close \<in> set (incoming s)"
  proof -
    obtain n_in n_out where totals: "meter_totals (meter_add_out out (meter s1)) = (n_in, n_out)" by fastforce
    let ?sid = "word_display (sr_id ?ref)" and ?tok = "ng_account_token n"
    let ?sh = "hook_session_close (hook_of G) ?tok ?sid (hook_report_usage (hook_of G) ?tok ?sid n_in n_out (shared s1))"
    have "sh_gw (shared s') = mgr_remove (sr_id ?ref) (sh_gw ?sh)"
      using that assms(3) loop out totals
      by (auto simp: serve_client_def remove_session_def Let_def note_event_def put_shared_def)
    then show ?thesis by (intro exI [of _ ?sh] conjI closed)
  qed
qed

subsection \<open>Properties\<close>

text \<open>
  C27 (functional). The receiver loop applies the client's frames to the session in the order they
  arrive, up to a \<open>Close\<close> or the end of the stream: keystrokes and resizes go to the session's input
  queue unchanged (sizes widened), each ping queues one pong, other frames are ignored; the bytes of
  keystrokes are metered (modulo $2^{64}$); and it ends as closed exactly if the client sent \<open>Close\<close>.
\<close>

theorem receiver_applies_frames:
  "case receiver_loop G session s of (outcome, s') \<Rightarrow>
     (outcome = Out_Closed \<longleftrightarrow> C_Close \<in> set (incoming s)) \<and>
     events s' = events s @ concat (map (frame_events session) (takeWhile (\<lambda>f. f \<noteq> C_Close) (incoming s))) \<and>
     bytes_in (meter s') = bytes_in (meter s) +
       of_nat (sum_list (map data_length (takeWhile (\<lambda>f. f \<noteq> C_Close) (incoming s))))"
proof -
  obtain outcome s' where run: "receiver_loop G session s = (outcome, s')" by fastforce
  from receiver_loop_effect [OF run] run show ?thesis by (simp add: until_close_def meter_add_in_def)
qed

text \<open>
  C28 (functional). The end of a connection: once the client's frames are applied, its usage is reported
  under the account token and the session's id. Then, exactly if the client closed or the target has ended
  the session by that time, the session is closed at the control plane and after that removed from the
  registry; otherwise (the client merely dropped) neither happens and the shared state is left as it is.
\<close>

theorem connection_end_reported:
  assumes "negotiate G s = (Inr (Some n), s1)"
  shows "let ref = ng_session n; tok = ng_account_token n; sid = word_display (sr_id ref);
       fs = takeWhile (\<lambda>f. f \<noteq> C_Close) (incoming s1);
       n_in = of_nat (sum_list (map data_length fs));
       served = shared (snd (receiver_loop G ref (s1\<lparr>meter := meter_default\<rparr>)));
       reported = hook_report_usage (hook_of G) tok sid n_in out served;
       torn_down = (C_Close \<in> set (incoming s1) \<or> is_closed (session_at (sh_gw reported) (sr_arc ref)));
       unlisted = hook_session_close (hook_of G) tok sid reported
    in events (handle_connection G out s) = events s1 @ concat (map (frame_events ref) fs) @
         [Ev_Usage tok sid n_in out] @ (if torn_down then [Ev_Session_close tok sid, Ev_Remove (sr_id ref)] else []) \<and>
       shared (handle_connection G out s) =
         (if torn_down then unlisted\<lparr>sh_gw := mgr_remove (sr_id ref) (sh_gw unlisted)\<rparr> else reported)"
proof -
  let ?s = "s1\<lparr>meter := meter_default\<rparr>"
  obtain outcome s2 where loop: "receiver_loop G (ng_session n) ?s = (outcome, s2)" by fastforce
  note eff = receiver_loop_effect [OF loop, unfolded until_close_def]
  have "meter_totals (meter_add_out out (meter s2)) =
      (of_nat (sum_list (map data_length (takeWhile (\<lambda>f. f \<noteq> C_Close) (incoming s1)))), out)"
    using eff by (simp add: meter_totals_def meter_add_out_def meter_add_in_def meter_default_def)
  with assms loop eff show ?thesis
    by (auto simp: handle_connection_def serve_client_def remove_session_def note_event_def put_shared_def Let_def)
qed

lemma demo_session_held:
  assumes "sh_gw sh = snd (mgr_create sid tok fp (gateway_new mgr_new))"
  shows "session_held \<lparr>sr_arc = 0, sr_id = sid, sr_token = tok\<rparr> sh"
proof -
  let ?g = "gateway_new mgr_new"
  have unused: "op_unused (live_sessions ?g) (Create sid tok fp)" and ok: "registry_ok ?g"
    using registry_ok_new by (simp_all add: unused_iff gateway_new_def mgr_new_def with_scrollback_def)
  have "store ?g = []" by (simp add: gateway_new_def)
  with assms registry_ok_create [OF ok unused] live_sessions_create [OF ok unused] show ?thesis
    by (simp add: session_held_def Let_def session_at_def registry_simps is_closed_def session_spawn_def)
qed

lemma demo_connection:
  obtains n s1 where "negotiate (demo_gw (\<lambda>_ _. None) allow_all) (demo_conn (demo_start @ fs)) = (Inr (Some n), s1)"
    "ng_session n = \<lparr>sr_arc = 0, sr_id = 7, sr_token = [1, 2]\<rparr>" "incoming s1 = fs" "ng_account_token n = None"
    "session_held (ng_session n) (shared s1)"
proof -
  let ?gw = "snd (mgr_create 7 [1, 2] (Some ''SHA256:K'') (gateway_new mgr_new))"
  obtain n s1 where "negotiate (demo_gw (\<lambda>_ _. None) allow_all) (demo_conn (demo_start @ fs)) = (Inr (Some n), s1)"
    "ng_session n = \<lparr>sr_arc = 0, sr_id = 7, sr_token = [1, 2]\<rparr>" "incoming s1 = fs" "ng_account_token n = None"
    "sh_gw (shared s1) = ?gw"
    by (simp add: negotiate_eval gateway_new_def check_server_key_def)
  with demo_session_held that show thesis by metis
qed

lemma demo_others_hold: "others_hold (demo_gw lk allow_all) ref"
  by (simp add: others_hold_def demo_gw_def allow_all_def default_hook_def)

theorem connection_end_reported_witness:
  "(\<exists>pre. events (handle_connection (demo_gw (\<lambda>_ _. None) allow_all) 9 (demo_conn (demo_start @ [C_Data [5], C_Close]))) =
      pre @ [Ev_Input 0 (In_Data [5]), Ev_Usage None (word_display (7 :: session_id)) 1 9,
        Ev_Session_close None (word_display (7 :: session_id)), Ev_Remove 7]) \<and>
   (\<exists>pre. events (handle_connection (demo_gw (\<lambda>_ _. None) allow_all) 9 (demo_conn (demo_start @ [C_Data [5]]))) =
      pre @ [Ev_Input 0 (In_Data [5]), Ev_Usage None (word_display (7 :: session_id)) 1 9])"
proof -
  let ?G = "demo_gw (\<lambda>_ _. None) allow_all"
  obtain n s1 where run: "negotiate ?G (demo_conn (demo_start @ [C_Data [5], C_Close])) =
      (Inr (Some n), s1)" and n: "ng_session n = \<lparr>sr_arc = 0, sr_id = 7, sr_token = [1, 2]\<rparr>"
      "incoming s1 = [C_Data [5], C_Close]" "ng_account_token n = None" by (rule demo_connection)
  obtain m t1 where drop: "negotiate ?G (demo_conn (demo_start @ [C_Data [5]])) = (Inr (Some m), t1)"
    and m: "ng_session m = \<lparr>sr_arc = 0, sr_id = 7, sr_token = [1, 2]\<rparr>" "incoming t1 = [C_Data [5]]"
      "ng_account_token m = None" "session_held (ng_session m) (shared t1)" by (rule demo_connection)
  let ?served = "shared (snd (receiver_loop ?G (ng_session m) (t1\<lparr>meter := meter_default\<rparr>)))"
  have "session_held (ng_session m) ?served"
    by (rule receiver_loop_held [OF demo_others_hold _ prod.collapse [symmetric]]) (use m(4) in simp)
  then have "\<not> is_closed (session_at (sh_gw ?served) 0)" using m(1) by (simp add: session_held_def Let_def)
  moreover have "hook_report_usage (hook_of ?G) tok sid a b sh = sh" for tok sid a b sh
    by (simp add: demo_gw_def allow_all_def default_hook_def)
  ultimately show ?thesis
    using connection_end_reported [OF run, of 9] connection_end_reported [OF drop, of 9] n m(1-3)
    by (simp add: Let_def)
qed

text \<open>
  Keep-alive: a client that drops without closing leaves its session resumable. When its
  connection has been handled to the end, the session's token still leads to the very same session, so
  the next connection that presents it is attached to it, provided that nothing else removed the session
  or ended it meanwhile.
\<close>

lemma dropped_client_can_resume:
  assumes "negotiate G s = (Inr (Some n), s1)" and "C_Close \<notin> set (incoming s1)"
    and "session_held (ng_session n) (shared s1)" and "others_hold G (ng_session n)"
  shows "resume_existing (Some (ResumeToken (sr_token (ng_session n)))) (handle_connection G out s) = Some (ng_session n)"
proof -
  have "handle_connection G out s = serve_client G n out s1" using assms(1) by (simp add: handle_connection_def)
  with serve_client_cases(1) [OF assms(4,3) refl assms(2)] show ?thesis
    by (simp add: session_held_resume)
qed



end
