(* ===== verification/Server_Isolation.thy ===== *)
theory Server_Isolation
  imports Server_Lifecycle
begin

text \<open>
  What a connection leaves alone, and how a client comes back. A session is found by its resume token
  only, so the connection of a client that does not present that token neither attaches to the session
  nor feeds it nor removes it, whatever frames it sends and however it ends (\<open>gw-server/src/handler.rs\<close>
  over the registry of \<open>gw-core/src/lib.rs\<close>).

  \<open>session_kept\<close> says that a session is registered, under its own id and token only. It speaks about this
  one session, so that it survives whatever else happens to the registry. \<open>leaves_alone\<close> is what is
  required of the surroundings (other tasks, the SSH library, the hook, the input queues of other
  sessions): they keep it, and the drawn ids and tokens are not those of this session. A connection
  shown to keep it can in turn be part of the surroundings of another one.
\<close>

subsection \<open>A registered session\<close>

definition kept_in :: "gateway \<Rightarrow> session_ref \<Rightarrow> bool" where
  "kept_in g ref \<longleftrightarrow>
     ids g (sr_id ref) = Some (sr_arc ref) \<and> tokens g (sr_token ref) = Some (sr_id ref) \<and>
     sess_id (store g ! sr_arc ref) = sr_id ref \<and> sess_token (store g ! sr_arc ref) = sr_token ref \<and>
     (\<forall>j a. ids g j = Some a \<longrightarrow> a < length (store g)) \<and>
     (\<forall>j a. ids g j = Some a \<and> (a = sr_arc ref \<or> sess_token (store g ! a) = sr_token ref \<or> sess_id (store g ! a) = sr_id ref) \<longrightarrow>
        j = sr_id ref) \<and>
     (\<forall>t. tokens g t = Some (sr_id ref) \<longrightarrow> t = sr_token ref)"

definition session_kept :: "session_ref \<Rightarrow> 'w shared_state \<Rightarrow> bool" where
  "session_kept ref sh \<longleftrightarrow> kept_in (sh_gw sh) ref"

lemma kept_inI:
  assumes "ids g (sr_id ref) = Some (sr_arc ref)" and "tokens g (sr_token ref) = Some (sr_id ref)"
    and "sess_id (store g ! sr_arc ref) = sr_id ref" and "sess_token (store g ! sr_arc ref) = sr_token ref"
    and "\<And>j a. ids g j = Some a \<Longrightarrow> a < length (store g)"
    and "\<And>j a. ids g j = Some a \<Longrightarrow> a = sr_arc ref \<or> sess_token (store g ! a) = sr_token ref \<or> sess_id (store g ! a) = sr_id ref \<Longrightarrow>
      j = sr_id ref"
    and "\<And>t. tokens g t = Some (sr_id ref) \<Longrightarrow> t = sr_token ref"
  shows "kept_in g ref"
  using assms unfolding kept_in_def by blast

lemma kept_inD:
  assumes "kept_in g ref"
  shows "ids g (sr_id ref) = Some (sr_arc ref)" "tokens g (sr_token ref) = Some (sr_id ref)"
    "sess_id (store g ! sr_arc ref) = sr_id ref" "sess_token (store g ! sr_arc ref) = sr_token ref"
    and "ids g j = Some a \<Longrightarrow> a < length (store g)"
    and "ids g j = Some a \<Longrightarrow> a = sr_arc ref \<or> sess_token (store g ! a) = sr_token ref \<or> sess_id (store g ! a) = sr_id ref \<Longrightarrow>
      j = sr_id ref"
    and "tokens g t = Some (sr_id ref) \<Longrightarrow> t = sr_token ref"
  using assms unfolding kept_in_def by blast+

lemma session_held_kept:
  assumes "session_held ref sh"
  shows "session_kept ref sh"
  unfolding session_kept_def
proof (rule kept_inI)
  let ?g = "sh_gw sh"
  from assms have ok: "registry_ok ?g"
    and ref: "ids ?g (sr_id ref) = Some (sr_arc ref)" "sess_token (store ?g ! sr_arc ref) = sr_token ref"
    by (auto simp: session_held_def Let_def live_sessions_iff)
  note own = registry_ok_id [OF ok ref(1)]
  show "ids ?g (sr_id ref) = Some (sr_arc ref)" "sess_token (store ?g ! sr_arc ref) = sr_token ref" by fact+
  show "tokens ?g (sr_token ref) = Some (sr_id ref)" "sess_id (store ?g ! sr_arc ref) = sr_id ref"
    using own(2,3) ref(2) by simp_all
  fix j a t
  assume "ids ?g j = Some a"
  note reg = registry_ok_id [OF ok this]
  show "a < length (store ?g)" by (rule reg(1))
  show "j = sr_id ref" if "a = sr_arc ref \<or> sess_token (store ?g ! a) = sr_token ref \<or> sess_id (store ?g ! a) = sr_id ref"
    using that reg(2,3) own(2,3) ref(2) by (elim disjE) simp_all
next
  fix t assume t: "tokens (sh_gw sh) t = Some (sr_id ref)"
  from assms have ok: "registry_ok (sh_gw sh)"
    and ref: "ids (sh_gw sh) (sr_id ref) = Some (sr_arc ref)" "sess_token (store (sh_gw sh) ! sr_arc ref) = sr_token ref"
    by (auto simp: session_held_def Let_def live_sessions_iff)
  from registry_ok_token [OF ok t] ref show "t = sr_token ref" by auto
qed

lemma kept_in_create:
  assumes "kept_in g ref" and "sid \<noteq> sr_id ref" and "tok \<noteq> sr_token ref"
  shows "kept_in (snd (mgr_create sid tok fp g)) ref"
proof (rule kept_inI)
  note kept = kept_inD [OF assms(1)]
  let ?g = "snd (mgr_create sid tok fp g)"
  have old: "store ?g ! a = store g ! a" if "ids g j = Some a" for j a
    using kept(5) [OF that] by (simp add: registry_simps nth_append)
  show "ids ?g (sr_id ref) = Some (sr_arc ref)" "tokens ?g (sr_token ref) = Some (sr_id ref)"
    using kept(1,2) assms(2,3) by (simp_all add: registry_simps)
  show "sess_id (store ?g ! sr_arc ref) = sr_id ref" "sess_token (store ?g ! sr_arc ref) = sr_token ref"
    using kept(3,4) by (simp_all add: old [OF kept(1)])
  show "t = sr_token ref" if "tokens ?g t = Some (sr_id ref)" for t
    using that kept(7) assms(2) by (auto simp: registry_simps split: if_splits)
  fix j a assume ja: "ids ?g j = Some a"
  then consider "j = sid" "a = length (store g)" | "j \<noteq> sid" "ids g j = Some a"
    by (auto simp: registry_simps split: if_splits)
  note cases = this
  from cases show "a < length (store ?g)" by cases (auto simp: registry_simps dest: kept(5))
  show "j = sr_id ref" if "a = sr_arc ref \<or> sess_token (store ?g ! a) = sr_token ref \<or> sess_id (store ?g ! a) = sr_id ref"
    using cases
  proof cases
    case 1
    with that assms(2,3) kept(5) [OF kept(1)] show ?thesis by (simp add: registry_simps)
  next
    case 2
    with that kept(6) [OF 2(2)] old [OF 2(2)] show ?thesis by simp
  qed
qed

lemma kept_in_remove:
  assumes "kept_in g ref" and "sid \<noteq> sr_id ref"
  shows "kept_in (mgr_remove sid g) ref"
proof (cases "ids g sid")
  case None
  with assms(1) show ?thesis by (simp add: mgr_remove_token(2))
next
  case (Some b)
  note kept = kept_inD [OF assms(1)]
  note fields = mgr_remove_fields mgr_remove_token(1) [OF Some]
  have "sess_token (store g ! b) \<noteq> sr_token ref" using kept(6) [OF Some] assms(2) by blast
  then show ?thesis
    using assms(2) kept(1-4) by (intro kept_inI) (auto simp: fields dest: kept(5-7) split: if_splits)
qed

text \<open>Only its own token leads to it.\<close>

lemma resume_kept:
  assumes "session_kept ref (shared s)"
  shows "resume_existing (Some (ResumeToken (sr_token ref))) s = Some ref"
    and "resume_existing resume s = Some found \<Longrightarrow> resume \<noteq> Some (ResumeToken (sr_token ref)) \<Longrightarrow>
      sr_id found \<noteq> sr_id ref \<and> sr_arc found \<noteq> sr_arc ref"
proof -
  note kept = kept_inD [OF assms [unfolded session_kept_def]]
  from kept(1-4) show "resume_existing (Some (ResumeToken (sr_token ref))) s = Some ref"
    by (simp add: resume_existing_def mgr_resume_def session_at_def Let_def)
  assume res: "resume_existing resume s = Some found" and tok: "resume \<noteq> Some (ResumeToken (sr_token ref))"
  then obtain t i a where t: "resume = Some (ResumeToken t)" "tokens (sh_gw (shared s)) t = Some i"
      "ids (sh_gw (shared s)) i = Some a"
      "found = \<lparr>sr_arc = a, sr_id = sess_id (store (sh_gw (shared s)) ! a), sr_token = sess_token (store (sh_gw (shared s)) ! a)\<rparr>"
    by (cases resume; cases "the resume") (auto simp: resume_existing_def mgr_resume_def session_at_def Let_def split: option.splits)
  from t(1,2) tok kept(7) have "i \<noteq> sr_id ref" by auto
  with kept(6) [OF t(3)] have "a \<noteq> sr_arc ref" by blast
  with t(4) \<open>i \<noteq> sr_id ref\<close> kept(6) [OF t(3)] show "sr_id found \<noteq> sr_id ref \<and> sr_arc found \<noteq> sr_arc ref" by auto
qed

subsection \<open>The surroundings\<close>

primrec tree_keeps :: "('s \<Rightarrow> bool) \<Rightarrow> ('k, 's) auth_run \<Rightarrow> bool" where
  "tree_keeps P (Finish m) = io_keeps P m"
| "tree_keeps P (Challenge key alg to_sign continue) = (\<forall>r. tree_keeps P (continue r))"

definition russh_keeps :: "('s \<Rightarrow> bool) \<Rightarrow> ('s, 'h, 'c, 'k, 'sk) russh \<Rightarrow> bool" where
  "russh_keeps P R \<longleftrightarrow>
     (\<forall>h p check cell. io_keeps P (client_connect R h p check cell)) \<and>
     (\<forall>h u pw. io_keeps P (authenticate_password R h u pw)) \<and>
     (\<forall>h u k. io_keeps P (authenticate_publickey R h u k)) \<and>
     (\<forall>h u k alg s. P s \<longrightarrow> tree_keeps P (authenticate_publickey_with R h u k alg s)) \<and>
     (\<forall>h. io_keeps P (channel_open_session R h)) \<and>
     (\<forall>c w term cols rows x y modes. io_keeps P (request_pty R c w term cols rows x y modes)) \<and>
     (\<forall>c w. io_keeps P (request_shell R c w))"

lemma russh_keepsD:
  assumes "russh_keeps P R"
  shows "io_keeps P (client_connect R host p check cell)" "io_keeps P (authenticate_password R h u pw)"
    "io_keeps P (authenticate_publickey R h u k)" "P s \<Longrightarrow> tree_keeps P (authenticate_publickey_with R h u pk alg s)"
    "io_keeps P (channel_open_session R h)" "io_keeps P (request_pty R c w term cols rows x y modes)"
    "io_keeps P (request_shell R c w)"
  using assms by (simp_all add: russh_keeps_def)

lemma ssh_open_keeps:
  assumes "russh_keeps P R"
  shows "io_keeps P (connect R target)" "io_keeps P (finish_open R h fp cols rows)" "io_keeps P (ssh_open R target auth cols rows)"
  unfolding ssh_open_def connect_def ssh_authenticate_def finish_open_def with_context_def
  by (auto intro!: io_intros russh_keepsD [OF assms] split: auth.splits)

definition hook_keeps :: "('s \<Rightarrow> bool) \<Rightarrow> 's auth_hook \<Rightarrow> bool" where
  "hook_keeps P H \<longleftrightarrow>
     (\<forall>name tok. io_keeps P (hook_authorize H name tok)) \<and>
     (\<forall>tok sid name. io_keeps P (hook_session_open H tok sid name)) \<and>
     (\<forall>tok sid s. P s \<longrightarrow> P (hook_session_close H tok sid s)) \<and>
     (\<forall>tok sid n m s. P s \<longrightarrow> P (hook_report_usage H tok sid n m s))"

text \<open>
  \<open>env_respects K fresh foreign G\<close>: the surroundings of a handler keep \<open>K\<close> of the shared state, where an
  input may be queued to a \<open>foreign\<close> session only, and draw ids and tokens that are \<open>fresh\<close>.
\<close>

definition env_respects ::
  "('w shared_state \<Rightarrow> bool) \<Rightarrow> (session_id \<Rightarrow> bytes \<Rightarrow> bool) \<Rightarrow> (session_ref \<Rightarrow> bool) \<Rightarrow>
   ('w, 'h, 'c, 'k, 'sk) gateway_env \<Rightarrow> bool" where
  "env_respects K fresh foreign G \<longleftrightarrow>
     (\<forall>sh. K sh \<longrightarrow> K (other G sh)) \<and> russh_keeps K (russh_of G) \<and> hook_keeps K (hook_of G) \<and>
     (\<forall>session inp sh. foreign session \<and> K sh \<longrightarrow> K (snd (queue_input G (sr_arc session) inp sh))) \<and>
     (\<forall>sh. K sh \<longrightarrow> fresh (new_session_id G sh) (new_resume_token G sh))"

definition fresh_for :: "session_ref \<Rightarrow> session_id \<Rightarrow> bytes \<Rightarrow> bool" where
  "fresh_for ref sid tok \<longleftrightarrow> sid \<noteq> sr_id ref \<and> tok \<noteq> sr_token ref"

definition another :: "session_ref \<Rightarrow> session_ref \<Rightarrow> bool" where
  "another ref session \<longleftrightarrow> sr_id session \<noteq> sr_id ref \<and> sr_arc session \<noteq> sr_arc ref"

definition leaves_alone :: "('w, 'h, 'c, 'k, 'sk) gateway_env \<Rightarrow> session_ref \<Rightarrow> bool" where
  "leaves_alone G ref \<longleftrightarrow> env_respects (session_kept ref) (fresh_for ref) (another ref) G"

text \<open>What a handler's log may not hold about the session.\<close>

fun spares :: "session_ref \<Rightarrow> event \<Rightarrow> bool" where
  "spares ref (Ev_Input a inp) \<longleftrightarrow> a \<noteq> sr_arc ref"
| "spares ref (Ev_Remove sid) \<longleftrightarrow> sid \<noteq> sr_id ref"
| "spares ref (Ev_Resume sid) \<longleftrightarrow> sid \<noteq> sr_id ref"
| "spares ref _ \<longleftrightarrow> True"

subsection \<open>What the handler relies on to keep a property of the shared state\<close>

text \<open>
  The interface between the handler and the registry: a property \<open>K\<close> of the shared state that creating
  fresh sessions and removing foreign ones keeps, and that makes every session reached without the
  secret a foreign one. Under it, a whole connection keeps \<open>K\<close> and logs only events that \<open>spare\<close> it.
\<close>

locale session_guard =
  fixes K :: "'w shared_state \<Rightarrow> bool" and fresh :: "session_id \<Rightarrow> bytes \<Rightarrow> bool"
    and foreign :: "session_ref \<Rightarrow> bool" and secret :: "resume_token option" and spare :: "event \<Rightarrow> bool"
  assumes guard_create: "K sh \<Longrightarrow> fresh sid tok \<Longrightarrow> K (sh\<lparr>sh_gw := snd (mgr_create sid tok fp (sh_gw sh))\<rparr>)"
    and guard_new: "K sh \<Longrightarrow> fresh sid tok \<Longrightarrow> foreign \<lparr>sr_arc = length (store (sh_gw sh)), sr_id = sid, sr_token = tok\<rparr>"
    and guard_remove: "K sh \<Longrightarrow> foreign session \<Longrightarrow> K (sh\<lparr>sh_gw := mgr_remove (sr_id session) (sh_gw sh)\<rparr>)"
    and guard_resume: "K (shared s) \<Longrightarrow> resume \<noteq> secret \<Longrightarrow> resume_existing resume s = Some session \<Longrightarrow> foreign session"
    and spare_foreign: "foreign session \<Longrightarrow>
      spare (Ev_Resume (sr_id session)) \<and> spare (Ev_Remove (sr_id session)) \<and> spare (Ev_Input (sr_arc session) inp)"
    and spare_rest: "spare (Ev_Sent f)" "spare (Ev_Authorize name acc ok)" "spare (Ev_Ssh target)" "spare (Ev_Create sid)"
      "spare (Ev_Session_open acc str name ok)" "spare (Ev_Oob f)" "spare (Ev_Usage acc str n m)" "spare (Ev_Session_close acc str)"
begin

definition guarded :: "event list \<Rightarrow> 'w conn \<Rightarrow> bool" where
  "guarded es0 s \<longleftrightarrow> K (shared s) \<and> (\<exists>es. events s = es0 @ es \<and> list_all spare es)"

abbreviation obeys :: "('w, 'h, 'c, 'k, 'sk) gateway_env \<Rightarrow> bool" where
  "obeys G \<equiv> env_respects K fresh foreign G"

lemma guarded_shared: "guarded es0 s \<Longrightarrow> K sh \<Longrightarrow> guarded es0 (put_shared sh s)"
  by (simp add: guarded_def put_shared_def)

lemma guarded_note: "guarded es0 s \<Longrightarrow> spare e \<Longrightarrow> guarded es0 (note_event e s)"
  by (auto simp: guarded_def note_event_def)

lemma guarded_fields [simp]:
  "guarded es0 (s\<lparr>next_id := n\<rparr>) = guarded es0 s" "guarded es0 (s\<lparr>incoming := fs\<rparr>) = guarded es0 s"
  "guarded es0 (s\<lparr>meter := m\<rparr>) = guarded es0 s"
  by (simp_all add: guarded_def)

lemma guardedD: "guarded es0 s \<Longrightarrow> K (shared s)"
  by (simp add: guarded_def)

lemma obeysD:
  assumes "obeys G"
  shows "K sh \<Longrightarrow> K (other G sh)" "russh_keeps K (russh_of G)" "hook_keeps K (hook_of G)"
    "foreign session \<Longrightarrow> K sh \<Longrightarrow> queue_input G (sr_arc session) inp sh = (ok, sh') \<Longrightarrow> K sh'"
    "K sh \<Longrightarrow> fresh (new_session_id G sh) (new_resume_token G sh)"
  using assms unfolding env_respects_def by (blast, blast, blast, metis snd_conv, blast)

lemma hook_kept:
  assumes "obeys G"
  shows "io_keeps K (hook_authorize (hook_of G) name tok)" "io_keeps K (hook_session_open (hook_of G) tok sid name)"
    "K sh \<Longrightarrow> K (hook_session_close (hook_of G) tok sid sh)" "K sh \<Longrightarrow> K (hook_report_usage (hook_of G) tok sid n m sh)"
  using obeysD(3) [OF assms] by (simp_all add: hook_keeps_def)

subsection \<open>The control stream and the hook\<close>

lemma keeps_within: "io_keeps K m \<Longrightarrow> io_keeps (guarded es0) (within_shared m)"
  by (rule io_keepsI) (auto simp: io_within_def guardedD guarded_shared split: prod.splits dest: io_keepsE)

lemma keeps_noted: "spare e \<Longrightarrow> io_keeps (guarded es0) (noted e)"
  by (rule io_keepsI) (simp add: noted_def guarded_note)

lemma keeps_frames:
  assumes "obeys G"
  shows "io_keeps (guarded es0) (recv_frame G)" "io_keeps (guarded es0) (send_frame G f)"
  by (rule io_keepsI, auto simp: recv_frame_def send_frame_def Let_def intro!: guarded_shared guarded_note spare_rest
      obeysD(1) [OF assms] dest: guardedD split: list.splits option.splits)+

lemma keeps_q:
  assumes "obeys G"
  shows "io_keeps (guarded es0) (recv_q G)" "io_keeps (guarded es0) (send_q G f)"
  unfolding recv_q_def send_q_def by (intro io_intros keeps_frames [OF assms])+

lemma gives_reject: "obeys G \<Longrightarrow> Q None \<Longrightarrow> io_gives (guarded es0) (reject G msg) Q"
  unfolding reject_def by (rule io_gives_bind [OF io_gives_any [OF keeps_q(2)]], assumption, rule TrueI, rule io_gives_return)

lemma keeps_hooks:
  assumes "obeys G"
  shows "io_keeps (guarded es0) (hook_admits G name tok)" "io_keeps (guarded es0) (hook_opens G tok sid name)"
  unfolding hook_admits_def hook_opens_def
  by (intro io_keeps_case keeps_within hook_kept [OF assms] io_keepsI, simp add: guarded_note spare_rest)+

subsection \<open>Delegated signing and the target\<close>

lemma keeps_sign_wait:
  assumes "obeys G"
  shows "io_keeps (guarded es0) (sign_wait G req)"
proof (rule io_keepsI)
  fix s :: "'w conn" assume "guarded es0 s"
  then show "guarded es0 (snd (sign_wait G req s))"
  proof (induction "length (incoming s)" arbitrary: s rule: less_induct)
    case less
    obtain r s1 where recv: "recv_frame G s = (r, s1)" by fastforce
    with io_keepsE [OF keeps_frames(1) [OF assms] recv less.prems] less.hyps [of s1] show ?case
      by (auto simp: sign_wait.simps [of G req s] recv_frame_shorter split: sum.splits client_frame.splits)
  qed
qed

lemma keeps_control_sign:
  assumes "obeys G"
  shows "io_keeps (guarded es0) (control_sign G pk alg to_sign)"
proof (rule io_keepsI)
  fix s :: "'w conn" assume "guarded es0 s"
  then have start: "guarded es0 (s\<lparr>next_id := next_id s + 1\<rparr>)" by simp
  have "io_keeps (guarded es0) (io_bind (io_map_err (\<lambda>e. RemoteSignerError (transport_display e))
      (send_frame G (S_SignRequest (next_id s) (str_bytes pk) to_sign))) (\<lambda>_. sign_wait G (next_id s)))"
    by (intro io_intros keeps_frames [OF assms] keeps_sign_wait [OF assms])
  from io_keepsD [OF this start] show "guarded es0 (snd (control_sign G pk alg to_sign s))"
    by (simp add: control_sign_def Let_def)
qed

lemma keeps_run_auth:
  assumes "\<And>key alg to_sign. io_keeps (guarded es0) (signer key alg to_sign)"
  shows "tree_keeps K r \<Longrightarrow> io_keeps (guarded es0) (run_auth shared put_shared signer r)"
  by (induction r) (auto intro!: keeps_within io_intros assms)

lemma keeps_open_delegated:
  assumes "obeys G"
  shows "io_keeps (guarded es0) (ssh_open_delegated shared put_shared (russh_of G) target pk (control_sign G) cols rows)"
proof -
  note russh = obeysD(2) [OF assms]
  have sign: "io_keeps (guarded es0) (auth_publickey_sign (to_openssh (russh_of G)) (control_sign G) key alg to_sign)" for key alg to_sign
    unfolding auth_publickey_sign_def Let_def by (intro io_intros keeps_control_sign [OF assms])
  have auth: "io_keeps (guarded es0) (\<lambda>t. run_auth shared put_shared (auth_publickey_sign (to_openssh (russh_of G)) (control_sign G))
      (authenticate_publickey_with (russh_of G) h u k alg (shared t)) t)" for h u k alg
  proof (rule io_keepsI)
    fix s :: "'w conn" assume s: "guarded es0 s"
    from keeps_run_auth [OF sign russh_keepsD(4) [OF russh guardedD [OF s]]]
    show "guarded es0 (snd (run_auth shared put_shared (auth_publickey_sign (to_openssh (russh_of G)) (control_sign G))
        (authenticate_publickey_with (russh_of G) h u k alg (shared s)) s))"
      using s by (rule io_keepsD)
  qed
  show ?thesis
    unfolding ssh_open_delegated_def with_context_def
    by (auto intro!: io_intros keeps_within ssh_open_keeps [OF russh] auth)
qed

lemma keeps_open_for_auth:
  assumes "obeys G"
  shows "io_keeps (guarded es0) (open_for_auth G target auth cols rows)"
proof -
  have "io_keeps (guarded es0) (\<lambda>s. ssh_open_delegated shared put_shared (russh_of G) t pk (control_sign G) c r (s\<lparr>next_id := 1\<rparr>))"
    for t pk c r
    using io_keepsD [OF keeps_open_delegated [OF assms]] by (intro io_keepsI) simp
  then show ?thesis
    unfolding open_for_auth_def Let_def
    by (auto intro!: io_intros keeps_noted keeps_within ssh_open_keeps [OF obeysD(2) [OF assms]] spare_rest
        split: auth_intent.splits option.splits)
qed

subsection \<open>Sessions the handler creates, resumes and removes\<close>

lemma gives_create:
  assumes "obeys G"
  shows "io_gives (guarded es0) (create_session G ssh) foreign"
proof -
  have "guarded es0 s1 \<and> foreign x" if s: "guarded es0 s" "create_session G ssh s = (Inr x, s1)" for s s1 x
    using s guardedD [OF s(1)] guard_create [OF _ obeysD(5) [OF assms]] guard_new [OF _ obeysD(5) [OF assms]]
      mgr_create_fields(1) [of "new_session_id G (shared s)" "new_resume_token G (shared s)" "ss_fingerprint ssh" "sh_gw (shared s)"]
    by (auto simp: create_session_def Let_def intro!: guarded_note guarded_shared spare_rest split: prod.splits) (metis snd_conv)
  moreover have "\<exists>x s1. create_session G ssh s = (Inr x, s1)" for s
    by (auto simp: create_session_def Let_def split: prod.splits)
  ultimately show ?thesis unfolding io_gives_def io_keeps_def by (metis snd_conv)
qed

lemma keeps_remove:
  assumes "foreign session"
  shows "io_keeps (guarded es0) (remove_session (sr_id session))"
  using guard_remove [OF _ assms] spare_foreign [OF assms]
  by (intro io_keepsI) (auto simp: remove_session_def Let_def intro!: guarded_note guarded_shared dest: guardedD)

lemma gives_establish:
  assumes "obeys G" and "resume \<noteq> secret"
  shows "io_gives (guarded es0) (establish G resume) (pred_option (\<lambda>x. foreign (fst x)))" (is "io_gives _ _ ?Q")
proof -
  have new: "io_gives (guarded es0) (io_bind (recv_q G) (\<lambda>frame.
      case frame of
        C_Open target auth cols rows \<Rightarrow>
          io_case (open_for_auth G target auth cols rows) (\<lambda>r.
            case r of
              Inr ssh \<Rightarrow> io_bind (create_session G ssh) (\<lambda>session. io_return (Some (session, False)))
            | Inl error \<Rightarrow> reject G (''connect failed: '' @ anyhow_display error))
      | _ \<Rightarrow> reject G ''expected Open'')) ?Q"
    by (intro io_gives_bind [OF io_gives_any [OF keeps_q(1) [OF assms(1)]]])
       (auto intro!: gives_reject assms(1) io_gives_case keeps_open_for_auth io_gives_bind [OF gives_create] io_gives_return
         split: client_frame.splits sum.splits)
  have res: "spare (Ev_Resume (sr_id session)) \<and> foreign session"
    if "guarded es0 s" "resume_existing resume s = Some session" for s and session
    using guard_resume [OF guardedD [OF that(1)] assms(2) that(2)] spare_foreign by blast
  show ?thesis
    unfolding io_gives_def
  proof (intro conjI allI impI io_keepsI)
    fix s :: "'w conn" assume s: "guarded es0 s"
    show "guarded es0 (snd (establish G resume s))"
      using s res [OF s] io_keepsD [OF io_gives_keeps [OF new] s]
      by (auto simp: establish_def noted_def io_bind_apply guarded_note split: option.splits)
    fix r s' assume "establish G resume s = (Inr r, s')"
    then show "?Q r"
      using res [OF s] io_givesD [OF new s]
      by (auto simp: establish_def noted_def io_bind_apply split: option.splits)
  qed
qed

lemma gives_welcome:
  assumes "obeys G" and "foreign session"
  shows "io_gives (guarded es0) (welcome_client G session resumed ent tok name) (pred_option (\<lambda>n. foreign (ng_session n)))"
proof -
  have admit: "io_keeps (guarded es0) (admit_session G session resumed tok name)"
    unfolding admit_session_def using keeps_remove [OF assms(2)]
    by (auto intro!: io_intros keeps_hooks [OF assms(1)] split: sum.splits)
  have greet: "io_keeps (guarded es0) (announce G session resumed)"
    unfolding announce_def by (intro io_intros keeps_q [OF assms(1)])
  show ?thesis
    unfolding welcome_client_def
    by (rule io_gives_bind [OF io_gives_any [OF admit]], rule TrueI)
       (auto intro!: gives_reject assms io_gives_bind [OF io_gives_any [OF greet]] io_gives_return split: option.splits)
qed

lemma gives_authorize:
  assumes "obeys G" and "resume \<noteq> secret"
  shows "io_gives (guarded es0) (authorize_client G name resume tok) (pred_option (\<lambda>n. foreign (ng_session n)))"
proof -
  have "io_gives (guarded es0) (start_session G resume ent tok name) (pred_option (\<lambda>n. foreign (ng_session n)))" for ent
    unfolding start_session_def
    by (rule io_gives_bind [OF gives_establish [OF assms]])
       (auto intro!: gives_welcome assms(1) io_gives_return split: option.splits)
  then show ?thesis
    unfolding authorize_client_def
    by (intro io_gives_case keeps_hooks [OF assms(1)]) (auto intro: gives_reject assms(1) split: sum.splits)
qed

text \<open>A client whose first frame does not carry the secret negotiates a foreign session, or none.\<close>

lemma negotiate_foreign:
  assumes "obeys G" and "\<And>v name tok fs. incoming s \<noteq> C_Hello v name secret tok # fs" and "guarded es0 s"
    and "negotiate G s = (r, s')"
  shows "guarded es0 s' \<and> (\<forall>n. r = Inr (Some n) \<longrightarrow> foreign (ng_session n))"
proof -
  obtain f s1 where recv: "recv_q G s = (f, s1)" by fastforce
  have s1: "guarded es0 s1" by (rule io_keepsE [OF keeps_q(1) [OF assms(1)] recv assms(3)])
  show ?thesis
  proof (cases f)
    case (Inl e)
    with recv s1 assms(4) show ?thesis by (auto simp: negotiate_def io_bind_apply)
  next
    case (Inr frame)
    with recv have hello: "incoming s = frame # incoming s1"
      by (auto simp: recv_q_def recv_frame_def put_shared_def io_map_err_apply Let_def split: list.splits)
    let ?m = "case frame of
        C_Hello version client_name resume account_token \<Rightarrow>
          if version \<noteq> PROTOCOL_VERSION
          then reject G (''protocol version mismatch: client '' @ word_display version @ '', server '' @
                 word_display PROTOCOL_VERSION)
          else authorize_client G client_name resume account_token
      | _ \<Rightarrow> reject G ''expected Hello''"
    have gives: "io_gives (guarded es0) ?m (pred_option (\<lambda>n. foreign (ng_session n)))"
      using assms(2) hello by (cases frame) (auto intro!: gives_reject gives_authorize assms(1))
    have run: "?m s1 = (r, s')" using recv Inr assms(4) by (simp add: negotiate_def io_bind_apply)
    have "guarded es0 s'" by (rule io_keepsE [OF io_gives_keeps [OF gives] run s1])
    with io_givesD [OF gives s1] run show ?thesis by (metis option.pred_inject(2))
  qed
qed

subsection \<open>A whole connection\<close>

lemma guarded_receiver:
  assumes "obeys G" and "foreign session" and "guarded es0 s"
  shows "guarded es0 (snd (receiver_loop G session s))"
  using assms(3)
proof (induction "length (incoming s)" arbitrary: s rule: less_induct)
  case less
  have "guarded es0 (receiver_apply G session f t)" if t: "guarded es0 t" for f t
    using t guardedD [OF t] spare_foreign [OF assms(2)] spare_rest
    by (cases f) (auto simp: receiver_apply_def send_input_def intro!: guarded_note guarded_shared
        elim!: obeysD(4) [OF assms(1,2)] split: prod.splits)
  moreover obtain r s1 where recv: "recv_frame G s = (r, s1)" by fastforce
  ultimately show ?case
    using io_keepsE [OF keeps_frames(1) [OF assms(1)] recv less.prems] less.hyps [of "receiver_apply G session _ s1"]
    by (auto simp: receiver_loop.simps [of G session s] recv_frame_shorter split: sum.splits)
qed

lemma guarded_serve:
  assumes "obeys G" and "foreign (ng_session n)" and "guarded es0 s"
  shows "guarded es0 (serve_client G n out s)"
proof -
  obtain outcome s1 where loop: "receiver_loop G (ng_session n) (s\<lparr>meter := meter_default\<rparr>) = (outcome, s1)" by fastforce
  have s1: "guarded es0 s1"
    using guarded_receiver [OF assms(1,2), of es0 "s\<lparr>meter := meter_default\<rparr>"] assms(3) loop by simp
  have used: "guarded es0 (note_event (Ev_Usage tok sid n m) (put_shared (hook_report_usage (hook_of G) tok sid n m (shared t)) t))"
    and shut: "guarded es0 (note_event (Ev_Session_close tok sid) (put_shared (hook_session_close (hook_of G) tok sid (shared t)) t))"
    if "guarded es0 t" for tok sid n m t
    using that by (auto intro!: guarded_note guarded_shared hook_kept [OF assms(1)] spare_rest dest: guardedD)
  have gone: "guarded es0 (snd (remove_session (sr_id (ng_session n)) t :: (unit + unit) \<times> 'w conn))" if "guarded es0 t" for t
    by (rule io_keepsD [OF keeps_remove [OF assms(2)] that])
  show ?thesis
    using loop s1 by (auto simp: serve_client_def Let_def intro!: used shut gone split: prod.splits)
qed

lemma guarded_connection:
  assumes "obeys G" and "\<And>v name tok fs. incoming s \<noteq> C_Hello v name secret tok # fs" and "guarded es0 s"
  shows "guarded es0 (handle_connection G out s)"
proof -
  obtain r s' where neg: "negotiate G s = (r, s')" by fastforce
  from negotiate_foreign [OF assms neg] neg show ?thesis
    by (auto simp: handle_connection_def intro!: guarded_serve assms(1) split: sum.splits option.splits)
qed

end

text \<open>A registered session is such a property, with its token as the secret.\<close>

interpretation kept: session_guard "session_kept ref" "fresh_for ref" "another ref" "Some (ResumeToken (sr_token ref))" "spares ref"
  for ref
proof unfold_locales
  fix sh :: "'w shared_state" and sid tok fp
  assume kept: "session_kept ref sh" and fresh: "fresh_for ref sid tok"
  then show "session_kept ref (sh\<lparr>sh_gw := snd (mgr_create sid tok fp (sh_gw sh))\<rparr>)"
    by (simp add: session_kept_def fresh_for_def kept_in_create)
  have "sr_arc ref < length (store (sh_gw sh))"
    using kept_inD(1,5) [OF kept [unfolded session_kept_def]] by blast
  with fresh show "another ref \<lparr>sr_arc = length (store (sh_gw sh)), sr_id = sid, sr_token = tok\<rparr>"
    by (simp add: another_def fresh_for_def)
qed (auto simp: another_def session_kept_def kept_in_remove dest: resume_kept(2) [unfolded session_kept_def])

subsection \<open>Properties\<close>

text \<open>
  C3 (safety). Connections are isolated: a client that does not present a session's resume token in its
  \<open>Hello\<close> does nothing to that session. Whatever else it sends, with any target, hook and
  interleaving, its connection queues no input to the session, does not attach to it and does not remove
  it, and afterwards the session's token still leads to it.
\<close>

theorem connections_isolated:
  assumes "leaves_alone G ref" and "session_kept ref (shared s)"
    and "\<And>v name tok fs. incoming s \<noteq> C_Hello v name (Some (ResumeToken (sr_token ref))) tok # fs"
  shows "let s' = handle_connection G out s
    in session_kept ref (shared s') \<and> resume_existing (Some (ResumeToken (sr_token ref))) s' = Some ref \<and>
       (\<exists>es. events s' = events s @ es \<and> Ev_Resume (sr_id ref) \<notin> set es \<and> Ev_Remove (sr_id ref) \<notin> set es \<and>
          (\<forall>inp. Ev_Input (sr_arc ref) inp \<notin> set es))"
proof -
  have "kept.guarded ref (events s) s" using assms(2) by (simp add: kept.guarded_def)
  from kept.guarded_connection [OF assms(1) [unfolded leaves_alone_def] assms(3) this]
  have fin: "kept.guarded ref (events s) (handle_connection G out s)" .
  then obtain es where "events (handle_connection G out s) = events s @ es" "list_all (spares ref) es"
    by (auto simp: kept.guarded_def)
  with kept.guardedD [OF fin] resume_kept(1) [OF kept.guardedD [OF fin]] show ?thesis
    by (auto simp: Let_def list_all_iff)
qed

text \<open>
  Two clients of one gateway, used as a concrete instance: the first has a session with id 5 and
  token \<open>[9]\<close>; the second connects, opens a session of its own, types and closes it.
\<close>

definition demo_peer :: session_ref where
  "demo_peer = \<lparr>sr_arc = 0, sr_id = 5, sr_token = [9]\<rparr>"

definition demo_shared :: "unit shared_state" where
  "demo_shared = \<lparr>sh_gw = snd (mgr_create 5 [9] None (gateway_new mgr_new)), sh_world = ()\<rparr>"

lemma demo_peer_kept: "session_kept demo_peer demo_shared"
  unfolding demo_peer_def by (rule session_held_kept, rule demo_session_held) (simp add: demo_shared_def)

lemma demo_leaves_alone: "leaves_alone (demo_gw lk allow_all) demo_peer"
  by (simp add: leaves_alone_def env_respects_def russh_keeps_def hook_keeps_def io_keeps_def fresh_for_def demo_gw_def demo_russh_def
      demo_peer_def allow_all_def default_hook_def)

theorem connections_isolated_witness:
  "resume_existing (Some (ResumeToken [9]))
     (handle_connection (demo_gw (\<lambda>_ _. None) allow_all) 0
        ((demo_conn (demo_start @ [C_Data [5], C_Close]))\<lparr>shared := demo_shared\<rparr>)) = Some demo_peer"
proof -
  let ?s = "(demo_conn (demo_start @ [C_Data [5], C_Close]))\<lparr>shared := demo_shared\<rparr>"
  have "session_kept demo_peer (shared ?s)" by (simp add: demo_peer_kept)
  from connections_isolated [OF demo_leaves_alone this, where out = 0] show ?thesis
    by (simp add: demo_peer_def demo_conn_def demo_start_def Let_def)
qed

subsection \<open>Coming back\<close>

text \<open>The second negotiation of a client, when its session is still held.\<close>

lemma negotiate_resumes:
  fixes G :: "('w, 'h, 'c, 'k, 'sk) gateway_env"
  assumes "session_held ref (shared s)" and "others_hold G ref"
    and "incoming s = C_Hello PROTOCOL_VERSION name (Some (ResumeToken (sr_token ref))) tok # fs"
    and "\<And>sh. session_held ref sh \<Longrightarrow> \<exists>ent sh'. hook_authorize (hook_of G) name tok sh = (Inr ent, sh') \<and> session_held ref sh'"
    and "\<And>es f. link G es f = None"
  shows "\<exists>ent s'. negotiate G s = (Inr (Some \<lparr>ng_session = ref, ng_entitlement = ent, ng_account_token = tok\<rparr>), s') \<and>
    incoming s' = fs \<and> session_held ref (shared s') \<and>
    events s' = events s @ [Ev_Authorize name tok True, Ev_Resume (sr_id ref),
      Ev_Sent (S_Hello PROTOCOL_VERSION (sr_id ref) True (ResumeToken (sr_token ref))), Ev_Sent (S_Status Live)]"
proof -
  note held = others_holdD(1) [OF assms(2)]
  let ?s1 = "(put_shared (other G (shared s)) s)\<lparr>incoming := fs\<rparr>"
  have recv: "recv_q G s = (Inr (C_Hello PROTOCOL_VERSION name (Some (ResumeToken (sr_token ref))) tok), ?s1)"
    using assms(3) by (simp add: recv_q_def recv_frame_def io_map_err_apply put_shared_def Let_def)
  obtain ent sh where auth: "hook_authorize (hook_of G) name tok (other G (shared s)) = (Inr ent, sh)" and sh: "session_held ref sh"
    using assms(4) [OF held [OF assms(1)]] by blast
  let ?s2 = "note_event (Ev_Authorize name tok True) (put_shared sh ?s1)"
  have admit: "hook_admits G name tok ?s1 = (Inr ent, ?s2)"
    using auth by (simp add: hook_admits_def io_case_apply io_within_def put_shared_def)
  let ?s3 = "note_event (Ev_Resume (sr_id ref)) ?s2"
  have found: "establish G (Some (ResumeToken (sr_token ref))) ?s2 = (Inr (Some (ref, True)), ?s3)"
    using session_held_resume [of ref ?s2] sh
    by (simp add: establish_def noted_def io_bind_apply note_event_def put_shared_def)
  have send: "send_q G f t = (Inr (), note_event (Ev_Sent f) (put_shared (other G (shared t)) t))" for f t
    by (simp add: send_q_def send_frame_def io_map_err_apply assms(5) Let_def)
  have "negotiate G s = welcome_client G ref True ent tok name ?s3"
    by (simp add: negotiate_def authorize_client_def start_session_def io_bind_Inr [of "recv_q G", OF recv]
        io_case_eval [of "hook_admits G name tok", OF admit] io_bind_Inr [of "establish G _", OF found])
  then show ?thesis
    using held [OF held [OF sh]]
    by (simp add: welcome_client_def admit_session_def announce_def io_bind_apply send note_event_def put_shared_def)
qed

text \<open>
  C4 (liveness). A client that dropped comes back to its session: when its connection has been handled
  to the end without a \<open>Close\<close> and it connects again, on a working link, with the resume token it was given
  and the hook admits it, the second negotiation succeeds, attaches it to the very same session and greets
  it as resumed, without contacting the target and without a second concurrency check, provided that
  meanwhile nothing else removed the session or ended it.
\<close>

theorem reconnect_resumes:
  fixes G :: "('w, 'h, 'c, 'k, 'sk) gateway_env"
  assumes "negotiate G s = (Inr (Some n), s1)" and "C_Close \<notin> set (incoming s1)"
    and "session_held (ng_session n) (shared s1)" and "others_hold G (ng_session n)"
    and "shared s2 = shared (handle_connection G out s)"
    and "incoming s2 = C_Hello PROTOCOL_VERSION name (Some (ResumeToken (sr_token (ng_session n)))) tok # fs"
    and "\<And>sh. session_held (ng_session n) sh \<Longrightarrow>
      \<exists>ent sh'. hook_authorize (hook_of G) name tok sh = (Inr ent, sh') \<and> session_held (ng_session n) sh'"
    and "\<And>es f. link G es f = None"
  shows "let ref = ng_session n
    in \<exists>n' s3. negotiate G s2 = (Inr (Some n'), s3) \<and> ng_session n' = ref \<and> incoming s3 = fs \<and>
         session_held ref (shared s3) \<and>
         events s3 = events s2 @ [Ev_Authorize name tok True, Ev_Resume (sr_id ref),
           Ev_Sent (S_Hello PROTOCOL_VERSION (sr_id ref) True (ResumeToken (sr_token ref))), Ev_Sent (S_Status Live)]"
proof -
  have "handle_connection G out s = serve_client G n out s1" using assms(1) by (simp add: handle_connection_def)
  with serve_client_cases(1) [OF assms(4,3) refl assms(2)] assms(5) have held: "session_held (ng_session n) (shared s2)" by simp
  from negotiate_resumes [OF held assms(4,6,7,8)] show ?thesis by (auto simp: Let_def)
qed

theorem reconnect_resumes_witness:
  "\<exists>s2 n' s3. s2 = (demo_conn [C_Hello 1 ''ipad'' (Some (ResumeToken [1, 2])) None, C_Ping])\<lparr>shared :=
        shared (handle_connection (demo_gw (\<lambda>_ _. None) allow_all) 9 (demo_conn (demo_start @ [C_Data [5]])))\<rparr> \<and>
     negotiate (demo_gw (\<lambda>_ _. None) allow_all) s2 = (Inr (Some n'), s3) \<and>
     ng_session n' = \<lparr>sr_arc = 0, sr_id = 7, sr_token = [1, 2]\<rparr> \<and> incoming s3 = [C_Ping]"
proof -
  let ?G = "demo_gw (\<lambda>_ _. None) allow_all"
  let ?s2 = "(demo_conn [C_Hello 1 ''ipad'' (Some (ResumeToken [1, 2])) None, C_Ping])\<lparr>shared :=
        shared (handle_connection ?G 9 (demo_conn (demo_start @ [C_Data [5]])))\<rparr>"
  obtain n s1 where run: "negotiate ?G (demo_conn (demo_start @ [C_Data [5]])) = (Inr (Some n), s1)"
    and n: "ng_session n = \<lparr>sr_arc = 0, sr_id = 7, sr_token = [1, 2]\<rparr>" "incoming s1 = [C_Data [5]]"
      "session_held (ng_session n) (shared s1)" by (rule demo_connection)
  have hook: "\<exists>ent sh'. hook_authorize (hook_of ?G) ''ipad'' None sh = (Inr ent, sh') \<and> session_held (ng_session n) sh'"
    if "session_held (ng_session n) sh" for sh
    using that by (simp add: demo_gw_def allow_all_def default_hook_def)
  have "incoming ?s2 = C_Hello PROTOCOL_VERSION ''ipad'' (Some (ResumeToken (sr_token (ng_session n)))) None # [C_Ping]"
    by (simp add: demo_conn_def n(1) PROTOCOL_VERSION_def)
  from reconnect_resumes [OF run _ n(3) demo_others_hold, of ?s2 9, OF _ _ this hook] n(1,2) show ?thesis
    by (auto simp: Let_def demo_gw_def)
qed

end
