(* ===== verification/Server_Main.thy ===== *)
theory Server_Main
  imports Server_Lifecycle
begin

text \<open>
  The daemon as a whole, \<open>gw-server/src/main.rs\<close> over \<open>serve\<close> and \<open>handle_connection\<close>: the command line, the
  configuration, the hook chosen from it, the server, and the handlers spawned for the clients it accepts.

  The command-line parser (clap) is a parameter: from the arguments to the value of \<open>--config\<close>, if it is
  given, or to no value at all when it exits with a usage message. An accepted client is the frames it
  sends and the bytes its sender task meters; a spawned handler is the environment and the client it was
  started with, so that the properties of \<open>negotiate\<close> and \<open>handle_connection\<close> apply to it.

  The property: in a gateway started with a control plane, no client whatsoever gets a session that the
  control plane did not admit.
\<close>

record cli =
  cli_config :: string

definition cli_parse :: "string option \<Rightarrow> cli" where
  "cli_parse arg = \<lparr>cli_config = (case arg of Some path \<Rightarrow> path | None \<Rightarrow> ''shark-gateway.toml'')\<rparr>"

type_synonym accepted_client = "client_frame list \<times> u64"

definition new_conn :: "client_frame list \<Rightarrow> 'w shared_state \<Rightarrow> 'w conn" where
  "new_conn fs sh = \<lparr>incoming = fs, next_id = 0, meter = meter_default, events = [], shared = sh\<rparr>"

definition handler_env ::
  "('w, 'h, 'c, 'k, 'sk) gateway_env \<Rightarrow> 'w shared_state auth_hook \<Rightarrow> ('w, 'h, 'c, 'k, 'sk) gateway_env" where
  "handler_env G hook = G\<lparr>hook_of := hook\<rparr>"

definition gateway_main ::
  "host_env \<Rightarrow> ('cert, 'key, 'tls, 'idle) tls_ops \<Rightarrow>
   ('s, 'ep, 'inc, 'conn, 'snd, 'rcv, ('tls, 'idle) quic_config) quinn \<Rightarrow> ('w shared_state, 'r) reqwest \<Rightarrow>
   (string list \<Rightarrow> string option option) \<Rightarrow> ('w, 'h, 'c, 'k, 'sk) gateway_env \<Rightarrow>
   ('ep \<Rightarrow> (transport_error + accepted_client) option list) \<Rightarrow> string list \<Rightarrow> 's \<Rightarrow>
   (session_manager \<times> (('w, 'h, 'c, 'k, 'sk) gateway_env \<times> accepted_client) list) outcome option" where
  "gateway_main E T Q H clap G accepts argv s =
     (case clap argv of
        None \<Rightarrow> None
      | Some arg \<Rightarrow>
          Some (case config_load E (cli_config (cli_parse arg)) of
                  Inl e \<Rightarrow> Failed e
                | Inr config \<Rightarrow>
                    (let hook = choose_hook H config
                     in case serve E T Q config accepts s of
                          Failed e \<Rightarrow> Failed e
                        | Panics \<Rightarrow> Panics
                        | Ok (manager, clients) \<Rightarrow> Ok (manager, map (\<lambda>client. (handler_env G hook, client)) clients))))"

subsection \<open>A negotiated client was admitted\<close>

lemma reject_None: "reject G msg s = (Inr r, s') \<Longrightarrow> r = None"
  by (auto simp: reject_def io_bind_apply split: prod.splits sum.splits)

lemma welcome_entitlement:
  "welcome_client G session resumed ent tok name s = (Inr (Some n), s') \<Longrightarrow>
     ng_entitlement n = ent \<and> ng_account_token n = tok"
  by (auto simp: welcome_client_def io_bind_apply dest: reject_None split: prod.splits sum.splits option.splits)

text \<open>A client that gets a session has said \<open>Hello\<close>, and the hook was asked about what it said.\<close>

lemma negotiate_admitted:
  assumes "negotiate G s = (Inr (Some n), s')"
  obtains name resume fs sh where "incoming s = C_Hello PROTOCOL_VERSION name resume (ng_account_token n) # fs"
    "hook_authorize (hook_of G) name (ng_account_token n) (other G (shared s)) = (Inr (ng_entitlement n), sh)"
proof -
  obtain hello s1 where hello: "recv_q G s = (Inr hello, s1)"
    and cont: "(case hello of
         C_Hello version client_name resume account_token \<Rightarrow>
           if version \<noteq> PROTOCOL_VERSION
           then reject G (''protocol version mismatch: client '' @ word_display version @ '', server '' @
                  word_display PROTOCOL_VERSION)
           else authorize_client G client_name resume account_token
       | _ \<Rightarrow> reject G ''expected Hello'') s1 = (Inr (Some n), s')"
    using assms unfolding negotiate_def io_bind_apply by (auto split: prod.splits sum.splits)
  from cont obtain name resume tok where h: "hello = C_Hello PROTOCOL_VERSION name resume tok"
    and auth: "authorize_client G name resume tok s1 = (Inr (Some n), s')"
    by (cases hello) (auto dest: reject_None split: if_splits)
  from hello h obtain fs where s1: "incoming s = C_Hello PROTOCOL_VERSION name resume tok # fs" "shared s1 = other G (shared s)"
    by (auto simp: recv_q_def recv_frame_def io_map_err_apply put_shared_def Let_def split: list.splits)
  from auth obtain ent s2 where admit: "hook_admits G name tok s1 = (Inr ent, s2)"
    and start: "start_session G resume ent tok name s2 = (Inr (Some n), s')"
    by (auto simp: authorize_client_def io_case_apply dest: reject_None split: prod.splits sum.splits)
  from start have "ng_entitlement n = ent \<and> ng_account_token n = tok"
    by (auto simp: start_session_def io_bind_apply dest: welcome_entitlement split: prod.splits sum.splits option.splits)
  moreover from admit obtain sh where "hook_authorize (hook_of G) name tok (shared s1) = (Inr ent, sh)"
    by (auto simp: hook_admits_def io_case_apply io_within_def split: prod.splits)
  ultimately show thesis using that s1 by auto
qed

lemma http_authorize_Inr:
  "http_authorize H h client tok s = (Inr ent, s') \<Longrightarrow>
     \<exists>rsp s1 p. rq_send H (with_json (B_Authorize \<lparr>ar_client_name = client,
         ar_account_token = map_option from_utf8_lossy tok\<rparr>) (http_post h ''/v1/authorize'')) s = (Inr rsp, s1) \<and>
       rq_is_success H rsp \<and> rq_json_authorize H rsp s1 = (Inr p, s') \<and> rsp_allowed p \<and>
       ent = \<lparr>max_bytes_per_sec = dto_max_bytes_per_sec (rsp_entitlement p), max_sessions = dto_max_sessions (rsp_entitlement p)\<rparr>"
  by (auto simp: http_authorize_def Let_def io_apply split: prod.splits sum.splits if_splits)

subsection \<open>Properties\<close>

text \<open>
  C6 (safety). A gateway started with a control plane serves admitted clients only. If the daemon starts
  with a non-empty \<open>SHARK_CONTROL_PLANE_URL\<close>, then, whatever its configuration file says, whoever connects
  and whatever happens meanwhile, a client that gets a session (new or resumed) began with a \<open>Hello\<close> of the
  gateway's protocol version, and the control plane at that URL admitted it: it was sent the very name and
  account token of that \<open>Hello\<close>, with the configured shared secret (\<open>SHARK_GATEWAY_KEY\<close> if that is set),
  answered with a success status, and its body parsed and said \<open>allowed\<close>; the client is served under that
  token and the limits of that body, by the one session manager.
\<close>

theorem control_plane_admits_every_client:
  assumes "gateway_main E T Q H clap G accepts argv s = Some (Ok (manager, handlers))"
    and "env_var E ''SHARK_CONTROL_PLANE_URL'' = Some url" and "url \<noteq> []"
    and "(env, fs, out) \<in> set handlers" and "negotiate env (new_conn fs sh) = (Inr (Some n), s1)"
  shows "manager = mgr_new \<and>
    (\<exists>arg c name resume tok rest rsp st p st'.
       clap argv = Some arg \<and> config_load E (cli_config (cli_parse arg)) = Inr c \<and>
       (\<forall>k. env_var E ''SHARK_GATEWAY_KEY'' = Some k \<and> k \<noteq> [] \<longrightarrow> gateway_key c = Some k) \<and>
       fs = C_Hello PROTOCOL_VERSION name resume tok # rest \<and>
       rq_send H (with_json (B_Authorize \<lparr>ar_client_name = name, ar_account_token = map_option from_utf8_lossy tok\<rparr>)
         (http_post (http_new url (gateway_key c)) ''/v1/authorize'')) (other G sh) = (Inr rsp, st) \<and>
       rq_is_success H rsp \<and> rq_json_authorize H rsp st = (Inr p, st') \<and> rsp_allowed p \<and>
       ng_account_token n = tok \<and>
       max_bytes_per_sec (ng_entitlement n) = dto_max_bytes_per_sec (rsp_entitlement p) \<and>
       max_sessions (ng_entitlement n) = dto_max_sessions (rsp_entitlement p))"
proof -
  from assms(1,4) obtain arg c where c: "clap argv = Some arg" "config_load E (cli_config (cli_parse arg)) = Inr c"
    and env: "env = handler_env G (choose_hook H c)" and mgr: "manager = mgr_new"
    by (auto simp: gateway_main_def serve_def Let_def split: option.splits sum.splits outcome.splits prod.splits)
  from c assms(2,3) have url: "control_plane_url c = Some url"
    and key: "\<forall>k. env_var E ''SHARK_GATEWAY_KEY'' = Some k \<and> k \<noteq> [] \<longrightarrow> gateway_key c = Some k"
    by (auto simp: config_load_Inr env_override_def split: option.splits if_splits)
  from url have hook: "hook_of env = http_hook H (http_new url (gateway_key c))" and other: "other env = other G"
    by (simp_all add: env handler_env_def choose_hook_def)
  obtain name resume rest st' where hello: "fs = C_Hello PROTOCOL_VERSION name resume (ng_account_token n) # rest"
    and auth: "http_authorize H (http_new url (gateway_key c)) name (ng_account_token n) (other G sh) = (Inr (ng_entitlement n), st')"
    by (rule negotiate_admitted [OF assms(5)]) (simp add: new_conn_def hook other http_hook_def)
  from http_authorize_Inr [OF auth] obtain rsp st p where
    "rq_send H (with_json (B_Authorize \<lparr>ar_client_name = name, ar_account_token = map_option from_utf8_lossy (ng_account_token n)\<rparr>)
       (http_post (http_new url (gateway_key c)) ''/v1/authorize'')) (other G sh) = (Inr rsp, st)"
    "rq_is_success H rsp" "rq_json_authorize H rsp st = (Inr p, st')" "rsp_allowed p"
    "max_bytes_per_sec (ng_entitlement n) = dto_max_bytes_per_sec (rsp_entitlement p)"
    "max_sessions (ng_entitlement n) = dto_max_sessions (rsp_entitlement p)" by auto
  with c key mgr hello show ?thesis by blast
qed

text \<open>A daemon with a control plane that admits everyone under a rate limit, and one client.\<close>

definition demo_plane :: "(unit shared_state, unit) reqwest" where
  "demo_plane =
     \<lparr>rq_send = (\<lambda>req s. (Inr (), s)), rq_is_success = (\<lambda>r. True), rq_status_display = (\<lambda>r. ''200 OK''),
      rq_json_authorize = (\<lambda>r s. (Inr \<lparr>rsp_allowed = True, rsp_reason = None,
         rsp_entitlement = \<lparr>dto_max_bytes_per_sec = Some 1000, dto_max_sessions = Some 5\<rparr>\<rparr>, s)),
      rq_json_session_open = (\<lambda>r s. (Inr \<lparr>sor_allowed = True, sor_reason = None\<rparr>, s))\<rparr>"

abbreviation demo_handler :: "(unit, nat, nat, string, string) gateway_env" where
  "demo_handler \<equiv> demo_gw (\<lambda>_ _. None) (http_hook demo_plane (http_new ''http://env'' None))"

lemma demo_main:
  "gateway_main demo_env demo_tls demo_quinn demo_plane (\<lambda>argv. Some (Some ''gw.toml'')) (demo_gw (\<lambda>_ _. None) allow_all)
     (\<lambda>ep. [Some (Inr (demo_start, 9)), None]) [] 0 = Some (Ok (mgr_new, [(demo_handler, demo_start, 9)]))"
  by (simp add: gateway_main_def cli_parse_def config_load_def env_override_def serve_def build_server_def bound_def
      server_bind_self_signed_def server_bind_def config_defs io_apply choose_hook_def handler_env_def demo_env_def demo_tls_def
      demo_quinn_def demo_gw_def config_default_def Let_def)

theorem control_plane_admits_every_client_witness:
  "\<exists>n s1. negotiate demo_handler (new_conn demo_start \<lparr>sh_gw = gateway_new mgr_new, sh_world = ()\<rparr>) = (Inr (Some n), s1) \<and>
     max_bytes_per_sec (ng_entitlement n) = Some 1000"
proof -
  obtain n s1 where run: "negotiate demo_handler (new_conn demo_start \<lparr>sh_gw = gateway_new mgr_new, sh_world = ()\<rparr>) = (Inr (Some n), s1)"
    by (simp add: negotiate_eval new_conn_def http_hook_def http_authorize_def http_session_open_def demo_plane_def)
  have "env_var demo_env ''SHARK_CONTROL_PLANE_URL'' = Some ''http://env''" by (simp add: demo_env_def)
  from control_plane_admits_every_client [OF demo_main this _ _ run, of 9] run show ?thesis
    by (auto simp: demo_plane_def)
qed

end
