(* ===== verification/Conformance_Tests.thy ===== *)
theory Conformance_Tests
  imports Core_Registry Core_Quota Server_Http_Hook Transport_Framed Gateway_Pipeline
begin

text \<open>
  The unit tests of the sources on the model: \<open>mod tests\<close> of \<open>gw-proto/src/codec.rs\<close>,
  \<open>gw-core/src/{lib,quota}.rs\<close> and \<open>gw-server/src/http_hook.rs\<close>. Each test is a predicate that holds when
  its assertions do (a failing \<open>unwrap\<close> or an assertion that does not hold makes it false); the lemmas show
  that the model passes them.

  The tests of the session run the ingest task beside the test body, so they depend on a schedule: when
  a fed chunk is ingested, when the feed is dropped and when the reader looks at the buffer. They are shown
  to pass under every schedule that runs long enough. Where a test uses a third-party serializer, the
  serializer is a parameter; where it runs a mock server, the parsed response is given.
\<close>

subsection \<open>The codec\<close>

definition sample_open :: client_frame where
  "sample_open =
     C_Open \<lparr>ts_host = ''host01.example.com'', ts_port = 22, ts_user = ''root''\<rparr>
       (DelegatedKey (map (of_nat \<circ> of_char) ''ssh-ed25519 AAAA...'')) 120 40"

definition roundtrips :: "('f \<Rightarrow> ext_error + bytes) \<Rightarrow> (bytes \<Rightarrow> ext_error + 'f) \<Rightarrow> 'f \<Rightarrow> bool" where
  "roundtrips ser de frame \<longleftrightarrow> (case encode ser frame of Inl _ \<Rightarrow> False | Inr bs \<Rightarrow> decode de bs = Inr frame)"

definition client_frame_roundtrip :: "(client_frame \<Rightarrow> ext_error + bytes) \<Rightarrow> (bytes \<Rightarrow> ext_error + client_frame) \<Rightarrow> bool" where
  "client_frame_roundtrip ser de \<longleftrightarrow> roundtrips ser de sample_open"

definition server_frame_roundtrip :: "(server_frame \<Rightarrow> ext_error + bytes) \<Rightarrow> (bytes \<Rightarrow> ext_error + server_frame) \<Rightarrow> bool" where
  "server_frame_roundtrip ser de \<longleftrightarrow>
     roundtrips ser de (S_SignRequest 7 (map (of_nat \<circ> of_char) ''ssh-ed25519 AAAA...'') [1, 2, 3, 4, 5])"

definition framed_carries_a_correct_length_prefix ::
  "(client_frame \<Rightarrow> ext_error + bytes) \<Rightarrow> (bytes \<Rightarrow> ext_error + client_frame) \<Rightarrow> bool" where
  "framed_carries_a_correct_length_prefix ser de \<longleftrightarrow>
     (case encode_framed ser C_Ping of
        Inl _ \<Rightarrow> False
      | Inr framed \<Rightarrow>
          unat (from_be_bytes (take LEN_PREFIX framed)) = length framed - LEN_PREFIX \<and>
          decode de (drop LEN_PREFIX framed) = Inr C_Ping)"

definition auth_intent_variants_roundtrip ::
  "(client_frame \<Rightarrow> ext_error + bytes) \<Rightarrow> (bytes \<Rightarrow> ext_error + client_frame) \<Rightarrow> bool" where
  "auth_intent_variants_roundtrip ser de \<longleftrightarrow>
     list_all (\<lambda>auth. roundtrips ser de (C_Open \<lparr>ts_host = ''h'', ts_port = 22, ts_user = ''u''\<rparr> auth 80 24))
       [DelegatedKey [9, 9], Password ''hunter2'', GatewayKey ''ops-key'']"

lemma roundtripsI: "postcard_ok ser de \<Longrightarrow> \<not> isl (ser frame) \<Longrightarrow> roundtrips ser de frame"
  by (cases "ser frame") (auto simp: roundtrips_def encode_def decode_def postcard_ok_def)

lemma codec_tests_pass:
  assumes "postcard_ok ser de" and "\<And>f. \<exists>bs. ser f = Inr bs \<and> length bs \<le> MAX_FRAME_LEN"
    and "postcard_ok sser sde" and "\<And>f. \<not> isl (sser f)"
  shows "client_frame_roundtrip ser de" and "server_frame_roundtrip sser sde"
    and "framed_carries_a_correct_length_prefix ser de" and "auth_intent_variants_roundtrip ser de"
proof -
  have ok: "\<not> isl (ser f)" for f using assms(2) [of f] by auto
  show "client_frame_roundtrip ser de" "server_frame_roundtrip sser sde" "auth_intent_variants_roundtrip ser de"
    by (simp_all add: client_frame_roundtrip_def server_frame_roundtrip_def auth_intent_variants_roundtrip_def
        roundtripsI [OF assms(1) ok] roundtripsI [OF assms(3,4)])
  obtain body where body: "ser C_Ping = Inr body" "length body \<le> MAX_FRAME_LEN" using assms(2) by blast
  moreover have "unat (from_be_bytes (to_be_bytes (of_nat (length body)))) = length body"
    using body(2) MAX_FRAME_LEN_u32 by (simp add: unat_of_nat_small)
  moreover have "decode de body = Inr C_Ping" using assms(1) body(1) by (simp add: decode_def postcard_ok_def)
  ultimately show "framed_carries_a_correct_length_prefix ser de"
    by (simp add: framed_carries_a_correct_length_prefix_def encode_framed_def encode_def length_prefix_def)
qed

subsection \<open>Quota\<close>

definition allow_all_is_unlimited :: bool where
  "allow_all_is_unlimited \<longleftrightarrow>
     (case hook_authorize allow_all ''client'' None () of
        (Inr ent, _) \<Rightarrow> max_bytes_per_sec ent = None \<and> max_sessions ent = None
      | _ \<Rightarrow> False)"

definition bucket_consumes_then_refills :: bool where
  "bucket_consumes_then_refills \<longleftrightarrow>
     (let b0 = tb_new 100 100;
          (ok1, b1) = tb_try_consume 100 b0;
          (ok2, b2) = tb_try_consume 1 b1;
          (ok3, b3) = tb_try_consume 100 (tb_refill (1 * NANOS_PER_SEC) b2)
      in ok1 \<and> \<not> ok2 \<and> ok3)"

definition bucket_refill_caps_at_capacity :: bool where
  "bucket_refill_caps_at_capacity \<longleftrightarrow>
     (let (ok1, b1) = tb_try_consume 10 (tb_refill (100 * NANOS_PER_SEC) (tb_new 10 10));
          (ok2, b2) = tb_try_consume 1 b1
      in ok1 \<and> \<not> ok2)"

definition time_until_is_positive_when_empty :: bool where
  "time_until_is_positive_when_empty \<longleftrightarrow>
     (let (ok1, b1) = tb_try_consume 10 (tb_new 10 10)
      in ok1 \<and> (case tb_time_until b1 10 of Some d \<Rightarrow> d > 0 | None \<Rightarrow> False))"

definition meter_accumulates :: bool where
  "meter_accumulates \<longleftrightarrow>
     meter_totals (meter_add_in 5 (meter_add_out 80 (meter_add_out 120 meter_default))) = (5, 200)"

text \<open>Small whole numbers are exact in double precision.\<close>

lemma f64_small: "x = real n \<Longrightarrow> n \<le> 2 ^ 53 \<Longrightarrow> f64_round x = x"
  using f64.rnd_nat by simp

lemma f64_numerals:
  "numeral k \<le> (2 ^ 53 :: nat) \<Longrightarrow> f64_round (numeral k) = numeral k" "f64_round 1 = 1" "f64_round 0 = 0"
  using f64_small [of "numeral k" "numeral k"] f64_small [of 1 1] f64_small [of 0 0] by simp_all

lemma small_u64: "f64_of_u64 100 = 100" "f64_of_u64 10 = 10" "f64_of_u64 1 = 1"
  by (simp_all add: f64_of_u64_exact)

lemma small_max: "max (100 :: u64) 1 = 100" "max (10 :: u64) 1 = 10"
  by (simp_all add: max_def word_le_nat_alt)

lemmas quota_eval = tb_new_def tb_try_consume_def tb_refill_def tb_time_until_def as_secs_f64_def from_secs_f64_def
  f64_add_def f64_sub_def f64_mul_def f64_div_def round_even_def NANOS_PER_SEC_def f64_numerals small_u64 Let_def

lemma quota_tests_pass:
  "allow_all_is_unlimited" "bucket_consumes_then_refills" "bucket_refill_caps_at_capacity"
  "time_until_is_positive_when_empty" "meter_accumulates"
  by (simp_all add: allow_all_is_unlimited_def bucket_consumes_then_refills_def bucket_refill_caps_at_capacity_def
      time_until_is_positive_when_empty_def meter_accumulates_def allow_all_def default_hook_def unlimited_def meter_default_def
      meter_add_in_def meter_add_out_def meter_totals_def quota_eval small_max)

subsection \<open>The control-plane hook\<close>

text \<open>A control plane that answers every request with success and the given body, already parsed.\<close>

definition mock_base :: "authorize_response \<Rightarrow> session_open_response \<Rightarrow> (unit, unit) reqwest" where
  "mock_base authorize session_open =
     \<lparr>rq_send = (\<lambda>req s. (Inr (), s)), rq_is_success = (\<lambda>r. True), rq_status_display = (\<lambda>r. ''200 OK''),
      rq_json_authorize = (\<lambda>r s. (Inr authorize, s)), rq_json_session_open = (\<lambda>r s. (Inr session_open, s))\<rparr>"

definition str_contains :: "string \<Rightarrow> string \<Rightarrow> bool" where
  "str_contains s sub \<longleftrightarrow> sublist sub s"

definition allowed_maps_entitlement :: "session_open_response \<Rightarrow> bool" where
  "allowed_maps_entitlement other_body \<longleftrightarrow>
     (let H = mock_base \<lparr>rsp_allowed = True, rsp_reason = None,
          rsp_entitlement = \<lparr>dto_max_bytes_per_sec = Some 1000, dto_max_sessions = Some 5\<rparr>\<rparr> other_body
      in case http_authorize H (http_new ''http://127.0.0.1:1'' None) ''ipad'' (Some (str_bytes ''tok-123'')) () of
           (Inr entitlement, _) \<Rightarrow> max_bytes_per_sec entitlement = Some 1000 \<and> max_sessions entitlement = Some 5
         | _ \<Rightarrow> False)"

definition denied_relays_reason :: "session_open_response \<Rightarrow> bool" where
  "denied_relays_reason other_body \<longleftrightarrow>
     (let H = mock_base \<lparr>rsp_allowed = False, rsp_reason = Some ''over session quota'',
          rsp_entitlement = \<lparr>dto_max_bytes_per_sec = None, dto_max_sessions = None\<rparr>\<rparr> other_body
      in case http_authorize H (http_new ''http://127.0.0.1:1'' None) ''ipad'' None () of
           (Inl err, _) \<Rightarrow> str_contains (denied_display err) ''over session quota''
         | _ \<Rightarrow> False)"

definition session_open_refused_is_denied :: "authorize_response \<Rightarrow> bool" where
  "session_open_refused_is_denied other_body \<longleftrightarrow>
     (let H = mock_base other_body \<lparr>sor_allowed = False, sor_reason = Some ''session limit reached (3 concurrent)''\<rparr>
      in case http_session_open H (http_new ''http://127.0.0.1:1'' (Some ''secret'')) (Some (str_bytes ''tok'')) ''sess-1'' ''ipad'' () of
           (Inl err, _) \<Rightarrow> str_contains (denied_display err) ''session limit reached''
         | _ \<Rightarrow> False)"

definition base_url_is_normalized :: bool where
  "base_url_is_normalized \<longleftrightarrow>
     hk_base (http_new ''http://cp:8080/v1/authorize'' None) = ''http://cp:8080'' \<and>
     hk_base (http_new ''http://cp:8080/'' None) = ''http://cp:8080''"

lemma http_hook_tests_pass:
  "allowed_maps_entitlement b" "denied_relays_reason b" "session_open_refused_is_denied a" "base_url_is_normalized"
proof -
  show "allowed_maps_entitlement b"
    by (simp add: allowed_maps_entitlement_def mock_base_def http_authorize_def io_apply Let_def)
  have "sublist ''over session quota'' (''authorization denied: '' @ ''over session quota'' @ [])" by (rule sublist_appendI)
  then show "denied_relays_reason b"
    by (simp add: denied_relays_reason_def mock_base_def http_authorize_def io_apply Let_def str_contains_def)
  have "sublist ''session limit reached'' (''authorization denied: '' @ ''session limit reached'' @ '' (3 concurrent)'')"
    by (rule sublist_appendI)
  then show "session_open_refused_is_denied a"
    by (simp add: session_open_refused_is_denied_def mock_base_def http_session_open_def io_apply Let_def str_contains_def)
  show base_url_is_normalized
    by (simp add: base_url_is_normalized_def http_new_def strip_suffix_def pop_slashes.simps ends_with_def)
qed

subsection \<open>Sessions\<close>

text \<open>
  A schedule of a session test: the ingest task appends a fed chunk or sees the feed dropped, or the
  reader looks at the buffer. \<open>reader_next\<close> is a call of \<open>next\<close>, which ends with the first look that finds
  something; it and \<open>read_n\<close> return the rest of the schedule, or nothing when the schedule ends first.
\<close>

datatype feed_event = Fed bytes | Feed_dropped | Polled

fun reader_next :: "feed_event list \<Rightarrow> session_inner \<Rightarrow> cursor \<Rightarrow> (bytes option \<times> feed_event list \<times> session_inner \<times> cursor) option" where
  "reader_next [] s c = None"
| "reader_next (Fed d # es) s c = reader_next es (session_append s d) c"
| "reader_next (Feed_dropped # es) s c = reader_next es (s\<lparr>closed := True\<rparr>) c"
| "reader_next (Polled # es) s c =
     (case reader_poll s c of
        (Chunk b, c') \<Rightarrow> Some (Some b, es, s, c')
      | (Ended, c') \<Rightarrow> Some (None, es, s, c')
      | (Pending, c') \<Rightarrow> reader_next es s c'
      | (Panic, c') \<Rightarrow> None)"

lemma reader_next_shorter: "reader_next es s c = Some (r, es', s', c') \<Longrightarrow> length es' < length es"
  by (induction es s c rule: reader_next.induct) (auto split: prod.splits poll.splits)

function read_n ::
  "nat \<Rightarrow> bytes \<Rightarrow> feed_event list \<Rightarrow> session_inner \<Rightarrow> cursor \<Rightarrow> (bytes \<times> feed_event list \<times> session_inner \<times> cursor) option" where
  "read_n n got es s c =
     (if n \<le> length got then Some (got, es, s, c)
      else case reader_next es s c of
             None \<Rightarrow> None
           | Some (None, es', s', c') \<Rightarrow> Some (got, es', s', c')
           | Some (Some chunk, es', s', c') \<Rightarrow> read_n n (got @ chunk) es' s' c')"
  by auto
termination
  by (relation "measure (\<lambda>(n, got, es, s, c). length es)")
     (auto dest!: sym [of "Some _"] reader_next_shorter)

declare read_n.simps [simp del]

fun fed :: "feed_event list \<Rightarrow> bytes list" where
  "fed [] = []"
| "fed (Fed d # es) = d # fed es"
| "fed (_ # es) = fed es"

text \<open>
  The schedules of a feed: \<open>ks\<close> says how often the reader looks before each event of the feed, and it looks
  at least once after the last.
\<close>

fun with_looks :: "feed_event list \<Rightarrow> nat list \<Rightarrow> feed_event list" where
  "with_looks [] ks = replicate (case ks of [] \<Rightarrow> 0 | k # _ \<Rightarrow> k) Polled @ [Polled]"
| "with_looks (e # es) ks = replicate (case ks of [] \<Rightarrow> 0 | k # _ \<Rightarrow> k) Polled @ e # with_looks es (tl ks)"

text \<open>The feed is dropped after the last chunk.\<close>

fun feed_ok :: "bool \<Rightarrow> feed_event list \<Rightarrow> bool" where
  "feed_ok over [] = True"
| "feed_ok over (Fed d # es) = (\<not> over \<and> feed_ok False es)"
| "feed_ok over (Feed_dropped # es) = feed_ok True es"
| "feed_ok over (Polled # es) = feed_ok over es"

text \<open>
  Where a schedule stands: the ingested bytes, what the reader has passed, and a look at the buffer still
  to come after everything else.
\<close>

definition feed_state :: "feed_event list \<Rightarrow> session_inner \<Rightarrow> cursor \<Rightarrow> bytes \<Rightarrow> bool" where
  "feed_state es s c hist \<longleftrightarrow>
     scroll_rep s hist \<and> unat c \<le> length hist \<and> feed_ok (session_inner.closed s) es \<and>
     length (hist @ concat (fed es)) \<le> max_bytes s \<and> max_bytes s < 2 ^ 64"

lemma feed_ok_over: "feed_ok True es \<Longrightarrow> fed es = []"
  by (induction es rule: fed.induct) simp_all

lemma reader_next_reads:
  assumes "feed_state es s c hist" and "unat c < length (hist @ concat (fed es))" and "last es = Polled" and "es \<noteq> []"
  shows "\<exists>es' s' c' hist'. reader_next es s c = Some (Some (drop (unat c) hist'), es', s', c') \<and> feed_state es' s' c' hist' \<and>
    unat c' = length hist' \<and> hist' @ concat (fed es') = hist @ concat (fed es) \<and> unat c < length hist' \<and>
    (\<exists>xs. es = xs @ es')"
  using assms
proof (induction es s c arbitrary: hist rule: reader_next.induct)
  case (2 d es s c)
  from 2(2) have st: "feed_state es (session_append s d) c (hist @ d)"
    by (auto simp: feed_state_def session_append_fields intro!: scroll_rep_append)
  from 2(2,4) have "es \<noteq> []" by auto
  with 2(1) [OF st] 2(3,4) show ?case by (auto simp: Cons_eq_append_conv)
next
  case (3 es s c)
  from 3(2) have st: "feed_state es (s\<lparr>closed := True\<rparr>) c hist" by (simp add: feed_state_def)
  from 3(2,4) have "es \<noteq> []" by auto
  with 3(1) [OF st] 3(3,4) show ?case by (auto simp: Cons_eq_append_conv)
next
  case (4 es s c)
  then have rep: "scroll_rep s hist" and c: "unat c \<le> length hist" and small: "length hist \<le> max_bytes s"
    by (auto simp: feed_state_def)
  note poll = reader_poll_rep [OF rep c]
  show ?case
  proof (cases "unat c < length hist")
    case True
    with poll small have "reader_poll s c = (Chunk (drop (unat c) hist), end_offset s)" by simp
    moreover have "unat (end_offset s) = length hist" using rep by (simp add: scroll_rep_def)
    ultimately show ?thesis
      using 4(2) True by (intro exI [of _ es] exI [of _ s] exI [of _ "end_offset s"] exI [of _ hist]) (auto simp: feed_state_def)
  next
    case False
    with 4(3) c have more: "concat (fed es) \<noteq> []" by auto
    then have "\<not> session_inner.closed s" "es \<noteq> []" using 4(2) feed_ok_over [of es] by (auto simp: feed_state_def)
    with poll False small c rep have "reader_poll s c = (Pending, c)"
      by (auto simp: scroll_rep_def word_less_nat_alt)
    moreover have "feed_state es s c hist" using 4(2) by (simp add: feed_state_def)
    ultimately show ?thesis
      using 4(1) [of Pending c hist] 4(3,4) \<open>es \<noteq> []\<close> by (auto simp: Cons_eq_append_conv)
  qed
qed simp

text \<open>Asked for exactly what there is to read, \<open>read_n\<close> returns it and has the reader caught up.\<close>

lemma read_n_reads:
  assumes "feed_state es s c hist" and "length got + (length (hist @ concat (fed es)) - unat c) = n"
    and "length got < n \<longrightarrow> es \<noteq> [] \<and> last es = Polled"
  shows "\<exists>es' s' c' hist'. read_n n got es s c = Some (got @ drop (unat c) (hist @ concat (fed es)), es', s', c') \<and>
    feed_state es' s' c' hist' \<and> unat c' = length (hist' @ concat (fed es')) \<and> (\<exists>xs. es = xs @ es')"
  using assms
proof (induction "length es" arbitrary: es s c hist got rule: less_induct)
  case less
  let ?all = "hist @ concat (fed es)"
  show ?case
  proof (cases "n \<le> length got")
    case True
    with less.prems have "unat c = length ?all" by (auto simp: feed_state_def)
    with True less.prems(1) show ?thesis by (simp add: read_n.simps [of n got]) (metis append_Nil)
  next
    case False
    with less.prems(2,3) have c: "unat c < length ?all" and es: "last es = Polled" "es \<noteq> []" by auto
    from reader_next_reads [OF less.prems(1) c es] obtain es' s' c' hist' xs where
      nx: "reader_next es s c = Some (Some (drop (unat c) hist'), es', s', c')" "feed_state es' s' c' hist'"
        "unat c' = length hist'" "hist' @ concat (fed es') = ?all" "unat c < length hist'" "es = xs @ es'" by blast
    let ?got = "got @ drop (unat c) hist'"
    have rest: "?got @ drop (unat c') (hist' @ concat (fed es')) = got @ drop (unat c) ?all"
      using nx(3-5) by (simp flip: nx(4))
    have len: "length ?got + (length (hist' @ concat (fed es')) - unat c') = n"
      using nx(3-5) less.prems(2) by (simp flip: nx(4))
    have "es' \<noteq> [] \<and> last es' = Polled" if "length ?got < n"
    proof -
      from that len nx(3) have "fed es' \<noteq> []" by auto
      then show ?thesis using es nx(6) by (cases es') auto
    qed
    from less.hyps [OF reader_next_shorter [OF nx(1)] nx(2) len impI [OF this]] False nx(1,6) show ?thesis
      unfolding rest by (auto simp: read_n.simps [of n got])
  qed
qed

text \<open>The handle of the tests: a session whose output the test feeds and whose input it observes.\<close>

definition fake_handle :: "('i, ssh_input) mpsc \<Rightarrow> ('o, bytes) mpsc \<Rightarrow> ('i, 'o) ssh_handle" where
  "fake_handle C D = \<lparr>sh_input = ch_new C 16, sh_output = ch_new D 16, sh_fingerprint = Some ''SHA256:test''\<rparr>"

definition replays_scrollback_then_streams_live ::
  "('i, ssh_input) mpsc \<Rightarrow> ('o, bytes) mpsc \<Rightarrow> session_id \<Rightarrow> bytes \<Rightarrow> nat list \<Rightarrow> bool" where
  "replays_scrollback_then_streams_live C D sid token ks \<longleftrightarrow>
     (case mgr_create sid token (sh_fingerprint (fake_handle C D)) (gateway_new mgr_new) of
        (a, g) \<Rightarrow>
          (case read_n 11 [] (with_looks [Fed (str_bytes ''hello ''), Fed (str_bytes ''world'')] ks)
                  (sess_inner (session_at g a)) (session_reader (session_at g a)) of
             Some (got, _) \<Rightarrow> got = str_bytes ''hello world''
           | None \<Rightarrow> False))"

definition resume_returns_same_session_and_replays_all ::
  "('i, ssh_input) mpsc \<Rightarrow> ('o, bytes) mpsc \<Rightarrow> session_id \<Rightarrow> bytes \<Rightarrow> nat list \<Rightarrow> bool" where
  "resume_returns_same_session_and_replays_all C D sid token ks \<longleftrightarrow>
     (case mgr_create sid token (sh_fingerprint (fake_handle C D)) (gateway_new mgr_new) of
        (a, g) \<Rightarrow>
          (case mgr_resume (sess_token (session_at g a)) g of
             None \<Rightarrow> False
           | Some b \<Rightarrow>
               sess_id (session_at g b) = sess_id (session_at g a) \<and>
               (case read_n 6 [] (with_looks [Fed (str_bytes ''abc''), Fed (str_bytes ''def'')] ks)
                       (sess_inner (session_at g b)) (session_reader (session_at g b)) of
                  Some (got, _) \<Rightarrow> got = str_bytes ''abcdef''
                | None \<Rightarrow> False)))"

definition reader_ends_when_session_closes ::
  "('i, ssh_input) mpsc \<Rightarrow> ('o, bytes) mpsc \<Rightarrow> session_id \<Rightarrow> bytes \<Rightarrow> nat list \<Rightarrow> bool" where
  "reader_ends_when_session_closes C D sid token ks \<longleftrightarrow>
     (case mgr_create sid token (sh_fingerprint (fake_handle C D)) (gateway_new mgr_new) of
        (a, g) \<Rightarrow>
          (case read_n 3 [] (with_looks [Fed (str_bytes ''bye''), Feed_dropped] ks @ [Polled])
                  (sess_inner (session_at g a)) (session_reader (session_at g a)) of
             Some (got, es', s', c') \<Rightarrow>
               got = str_bytes ''bye'' \<and> (case reader_next es' s' c' of Some (r, _) \<Rightarrow> r = None | None \<Rightarrow> False)
           | None \<Rightarrow> False))"

definition forwards_input_to_ssh :: "('i, ssh_input) mpsc \<Rightarrow> ('o, bytes) mpsc \<Rightarrow> bool" where
  "forwards_input_to_ssh C D \<longleftrightarrow>
     (case ch_send C (In_Data (str_bytes ''ls'' @ [10])) (sh_input (fake_handle C D)) of
        None \<Rightarrow> False
      | Some q \<Rightarrow>
          (case ch_recv C q of
             Some (In_Data d, _) \<Rightarrow> d = str_bytes ''ls'' @ [10]
           | _ \<Rightarrow> False))"

definition scrollback_is_bounded_and_advances_cursor ::
  "('i, ssh_input) mpsc \<Rightarrow> ('o, bytes) mpsc \<Rightarrow> session_id \<Rightarrow> bytes \<Rightarrow> nat list \<Rightarrow> bool" where
  "scrollback_is_bounded_and_advances_cursor C D sid token ks \<longleftrightarrow>
     (case mgr_create sid token (sh_fingerprint (fake_handle C D)) (gateway_new (with_scrollback 8)) of
        (a, g) \<Rightarrow>
          (case read_n 8 [] (with_looks [Fed (str_bytes ''0123456789'')] ks)
                  (sess_inner (session_at g a)) (session_reader (session_at g a)) of
             Some (tail, _) \<Rightarrow> tail = str_bytes ''23456789''
           | None \<Rightarrow> False))"

text \<open>A longer schedule changes nothing but its rest, and a dropped feed is seen sooner or later.\<close>

lemma reader_next_more:
  assumes "reader_next es s c = Some (r, es', s', c')"
  shows "reader_next (es @ zs) s c = Some (r, es' @ zs, s', c')"
    and "session_inner.closed s \<or> Feed_dropped \<in> set es \<Longrightarrow> session_inner.closed s' \<or> Feed_dropped \<in> set es'"
  using assms by (induction es s c rule: reader_next.induct) (auto simp: session_append_fields split: prod.splits poll.splits)

lemma read_n_more:
  "read_n n got es s c = Some (r, es', s', c') \<Longrightarrow>
     read_n n got (es @ zs) s c = Some (r, es' @ zs, s', c') \<and>
     (session_inner.closed s \<or> Feed_dropped \<in> set es \<longrightarrow> session_inner.closed s' \<or> Feed_dropped \<in> set es')"
proof (induction n got es s c rule: read_n.induct)
  case (1 n got es s c)
  show ?case
  proof (cases "n \<le> length got")
    case False
    with 1(2) obtain x es1 s1 c1 where nx: "reader_next es s c = Some (x, es1, s1, c1)"
      by (auto simp: read_n.simps [of n _ es] read_n.simps [of n _ "es @ zs"] split: option.splits prod.splits)
    note more = reader_next_more(1) [OF nx, of zs] reader_next_more(2) [OF nx]
    show ?thesis
    proof (cases x)
      case None
      with 1(2) False nx more show ?thesis by (auto simp: read_n.simps [of n _ es] read_n.simps [of n _ "es @ zs"])
    next
      case (Some b)
      with 1(2) False nx have "read_n n (got @ b) es1 s1 c1 = Some (r, es', s', c')" by (simp add: read_n.simps [of n _ es] read_n.simps [of n _ "es @ zs"])
      from 1(1) [OF False nx refl Some refl refl this] Some nx False more show ?thesis
        by (auto simp: read_n.simps [of n _ es] read_n.simps [of n _ "es @ zs"])
    qed
  qed (use 1(2) in \<open>auto simp: read_n.simps\<close>)
qed

lemma reader_next_ends:
  assumes "scroll_rep s hist" and "unat c = length hist" and "fed es = []"
    and "session_inner.closed s \<or> Feed_dropped \<in> set es" and "es \<noteq> []" and "last es = Polled"
  shows "\<exists>t. reader_next es s c = Some (None, t)"
  using assms
proof (induction es s c rule: reader_next.induct)
  case (4 es s c)
  have "reader_poll s c = (if session_inner.closed s then Ended else Pending, c)"
    using scroll.poll_read [OF 4(2,3)] .
  with 4 show ?case by (cases "es = []") auto
qed (auto split: if_splits)

lemma fresh_session:
  assumes "mgr_create sid token fp (gateway_new (with_scrollback m)) = (a, g)"
  shows "session_at g a = session_spawn sid token fp m" and "mgr_resume token g = Some a"
  using assms by (auto simp: mgr_create_def gateway_new_def with_scrollback_def session_at_def mgr_resume_def Let_def)

lemma fresh_feed_state:
  assumes "feed_ok False es" and "length (concat (fed es)) \<le> DEFAULT_SCROLLBACK_BYTES"
  shows "feed_state es (sess_inner (session_spawn sid token fp DEFAULT_SCROLLBACK_BYTES)) 0 []"
  using assms scroll_rep_spawn [of sid token fp DEFAULT_SCROLLBACK_BYTES]
  by (simp add: feed_state_def session_spawn_def DEFAULT_SCROLLBACK_BYTES_def)

lemma read_n_fresh:
  assumes "feed_ok False es" and "es \<noteq> []" and "last es = Polled" and "length (concat (fed es)) = n"
    and "n \<le> DEFAULT_SCROLLBACK_BYTES"
  shows "\<exists>es' s' c' hist'. read_n n [] es (sess_inner (session_spawn sid token fp DEFAULT_SCROLLBACK_BYTES)) 0 =
      Some (concat (fed es), es', s', c') \<and>
    feed_state es' s' c' hist' \<and> unat c' = length (hist' @ concat (fed es')) \<and> (\<exists>xs. es = xs @ es')"
  using read_n_reads [OF fresh_feed_state [OF assms(1)], of "[]" n] assms by simp

text \<open>The tests under every schedule.\<close>

lemma with_looks_facts:
  assumes "Polled \<notin> set es"
  shows "fed (with_looks es ks) = fed es" "feed_ok b (with_looks es ks) = feed_ok b es" "with_looks es ks \<noteq> []"
    "last (with_looks es ks) = Polled" "set es \<subseteq> set (with_looks es ks)"
proof -
  have polls: "fed (replicate k Polled @ us) = fed us" "feed_ok c (replicate k Polled @ us) = feed_ok c us" for k us c
    by (induction k) simp_all
  show "fed (with_looks es ks) = fed es"
    using assms
  proof (induction es ks rule: with_looks.induct)
    case (2 e es ks)
    then show ?case by (cases e) (simp_all add: polls)
  qed (simp add: polls)
  show "feed_ok b (with_looks es ks) = feed_ok b es"
    using assms
  proof (induction es ks arbitrary: b rule: with_looks.induct)
    case (2 e es ks)
    then show ?case by (cases e) (simp_all add: polls)
  qed (simp add: polls)
  show "with_looks es ks \<noteq> []" "last (with_looks es ks) = Polled" "set es \<subseteq> set (with_looks es ks)"
    by (induction es ks rule: with_looks.induct) auto
qed

lemma session_replay_tests_pass:
  "replays_scrollback_then_streams_live C D sid token ks" "resume_returns_same_session_and_replays_all C D sid token ks"
proof -
  let ?fp = "sh_fingerprint (fake_handle C D)"
  obtain a g where new: "mgr_create sid token ?fp (gateway_new (with_scrollback DEFAULT_SCROLLBACK_BYTES)) = (a, g)" by fastforce
  note sess = fresh_session [OF new]
  have fresh: "\<exists>t. read_n n [] (with_looks es ks) (sess_inner (session_spawn sid token ?fp DEFAULT_SCROLLBACK_BYTES)) 0 =
      Some (concat (fed es), t)"
    if "Polled \<notin> set es" "feed_ok False es" "length (concat (fed es)) = n" "n \<le> DEFAULT_SCROLLBACK_BYTES" for es n
  proof -
    note looks = with_looks_facts [OF that(1), where ks = ks]
    have "feed_ok False (with_looks es ks)" "length (concat (fed (with_looks es ks))) = n"
      using looks(1,2) that(2,3) by simp_all
    from read_n_fresh [OF this(1) looks(3,4) this(2) that(4), of sid token ?fp] show ?thesis
      unfolding looks(1) by blast
  qed
  show "replays_scrollback_then_streams_live C D sid token ks"
    using fresh [of "[Fed (str_bytes ''hello ''), Fed (str_bytes ''world'')]" 11] new sess
    by (auto simp: replays_scrollback_then_streams_live_def mgr_new_def session_reader_def str_bytes_def DEFAULT_SCROLLBACK_BYTES_def
        simp del: with_looks.simps)
  show "resume_returns_same_session_and_replays_all C D sid token ks"
    using fresh [of "[Fed (str_bytes ''abc''), Fed (str_bytes ''def'')]" 6] new sess
    by (auto simp: resume_returns_same_session_and_replays_all_def mgr_new_def session_reader_def str_bytes_def
        DEFAULT_SCROLLBACK_BYTES_def registry_simps simp del: with_looks.simps)
qed

lemma session_end_test_passes: "reader_ends_when_session_closes C D sid token ks"
proof -
  let ?fp = "sh_fingerprint (fake_handle C D)" and ?s = "\<lambda>fp. sess_inner (session_spawn sid token fp DEFAULT_SCROLLBACK_BYTES)"
  define es where "es = with_looks [Fed (str_bytes ''bye''), Feed_dropped] ks"
  have es: "feed_ok False es" "es \<noteq> []" "last es = Polled" "fed es = [str_bytes ''bye'']" "Feed_dropped \<in> set es"
    using with_looks_facts [of "[Fed (str_bytes ''bye''), Feed_dropped]", where ks = ks]
    by (auto simp: es_def simp del: with_looks.simps)
  obtain a g where new: "mgr_create sid token ?fp (gateway_new (with_scrollback DEFAULT_SCROLLBACK_BYTES)) = (a, g)" by fastforce
  note sess = fresh_session [OF new]
  have "length (concat (fed es)) = 3" using es(4) by (simp add: str_bytes_def)
  from read_n_fresh [OF es(1-3) this, of sid token ?fp] obtain es' s' c' hist' xs where
    rd: "read_n 3 [] es (?s ?fp) 0 = Some (str_bytes ''bye'', es', s', c')" "feed_state es' s' c' hist'"
      "unat c' = length (hist' @ concat (fed es'))" "es = xs @ es'"
    using es(4) by (auto simp: DEFAULT_SCROLLBACK_BYTES_def)
  note more = read_n_more [OF rd(1), of "[Polled]"]
  have caught: "unat c' = length hist'" "concat (fed es') = []" using rd(2,3) by (auto simp: feed_state_def)
  have split: "fed (us @ vs) = fed us @ fed vs" for us vs by (induction us rule: fed.induct) simp_all
  have "fed es' = []"
    using caught(2) es(4) unfolding rd(4) split
    by (cases "fed es'") (auto simp: str_bytes_def append_eq_Cons_conv)
  then have "\<exists>t. reader_next (es' @ [Polled]) s' c' = Some (None, t)"
    using more es(5) rd(2) caught(1) by (intro reader_next_ends [of s' hist']) (auto simp: feed_state_def split)
  with more new sess show ?thesis
    by (auto simp: reader_ends_when_session_closes_def mgr_new_def session_reader_def es_def simp del: with_looks.simps)
qed

lemma session_input_test_passes: "mpsc_ok C V \<Longrightarrow> forwards_input_to_ssh C D"
proof -
  assume ok: "mpsc_ok C V"
  let ?x = "In_Data (str_bytes ''ls'' @ [10])"
  obtain q where q: "ch_send C ?x (ch_new C 16) = Some q"
    using mpsc_okD(4) [OF ok, of ?x "ch_new C 16"] mpsc_okD(1,2) [OF ok, of 16] by fastforce
  with mpsc_okD(2,3) [OF ok] have "ch_queue V q = [?x]" by simp
  with mpsc_okD(5,6) [OF ok, of q] have "\<exists>q'. ch_recv C q = Some (?x, q')" by (cases "ch_recv C q") fastforce+
  with q show ?thesis by (auto simp: forwards_input_to_ssh_def fake_handle_def)
qed

lemma session_bound_test_passes:
  "scrollback_is_bounded_and_advances_cursor C D sid token ks"
proof -
  obtain k j where looks: "with_looks [Fed d] ks = replicate k Polled @ Fed d # Polled # replicate j Polled" for d
    by (simp add: replicate_append_same flip: replicate_Suc)
  let ?fp = "sh_fingerprint (fake_handle C D)" and ?d = "str_bytes ''0123456789''"
  let ?s = "sess_inner (session_spawn sid token ?fp 8)"
  obtain a g where new: "mgr_create sid token ?fp (gateway_new (with_scrollback 8)) = (a, g)" by fastforce
  have "reader_poll ?s 0 = (Pending, 0)" by (simp add: reader_poll_def session_spawn_def)
  then have "reader_next (replicate k Polled @ zs) ?s 0 = reader_next zs ?s 0" for zs by (induction k) simp_all
  moreover have "reader_poll (session_append ?s ?d) 0 = (Chunk (drop 2 ?d), 10)"
    by (simp add: reader_poll_def session_append_def session_spawn_def str_bytes_def Let_def)
  ultimately have "read_n 8 [] (with_looks [Fed ?d] ks) ?s 0 = Some (drop 2 ?d, replicate j Polled, session_append ?s ?d, 10)"
    unfolding looks by (simp add: read_n.simps str_bytes_def)
  with new fresh_session [OF new] show ?thesis
    by (simp add: scrollback_is_bounded_and_advances_cursor_def session_reader_def str_bytes_def del: with_looks.simps)
qed

end
