(* ===== verification/Spec2Isabelle.thy ===== *)
theory Spec2Isabelle
  imports
    Transport_Framed
    Transport_Endpoint
    Core_Wakeup
    Core_Registry
    Core_Quota
    Gateway_Ownership
    Gateway_Pipeline
    Transport_Stream
    Server_Isolation
    Ssh_Client
    Server_Throttle
    Server_Streaming
    Server_Http_Hook
    Server_Config
    Server_Protocol
    Server_Lifecycle
    Server_Main
    Conformance_Tests
begin

text \<open>
  A verification of the keep-alive SSH gateway (the Rust workspace under \<open>src/crates\<close>).

  \<^bold>\<open>The program.\<close> A client connects to the gateway over QUIC and speaks length-prefixed frames on one
  bidirectional control stream. After \<open>Hello\<close> the gateway asks an authorization hook about the client;
  then the client either resumes a session by token or names a target in \<open>Open\<close>, to which the gateway
  connects as an ordinary SSH client. Each session has an SSH actor, an ingest task that drains the
  target's output into a bounded scrollback, and any number of readers. A connection has a receiver
  loop (client frames to the session's input queue) and a sender task (session output and pongs to the
  client, metered and rate limited). A client that drops leaves its session running for a later resume;
  a client that closes has it removed.

  \<^bold>\<open>Theories and the code they model.\<close>
  \<^item> \<open>Gateway_Prelude\<close>: machine types; fallible effectful computations (\<open>io\<close>, with \<open>io_bind\<close> for the
    \<open>?\<close> operator and \<open>io_case\<close> for a \<open>match\<close> on an awaited result); step systems and the interface
    \<open>invariant_system\<close>. \<open>Text_Model\<close>: decimal display, UTF-8 decoding and error chains of the standard
    library.
  \<^item> \<open>Proto_Frame\<close>, \<open>Proto_Codec\<close>: \<open>gw-proto\<close>. The serializer (postcard) is a parameter. Interface
    \<open>length_prefixing\<close>.
  \<^item> \<open>Transport_Framed\<close>: \<open>gw-transport/src/framed.rs\<close> over arbitrary stream halves; round trip, soundness
    and request bound. \<open>Transport_Stream\<close>: a reference parser of whole byte streams, and that receiving
    agrees with it. \<open>Transport_Endpoint\<close>: the rest of \<open>gw-transport\<close> (TLS configuration, bind, accept,
    connect) over the calls of the QUIC and TLS libraries.
  \<^item> \<open>Core_Session\<close>: scrollback, ingest and readers of \<open>gw-core/src/lib.rs\<close>, refined against the output
    history through the interface \<open>output_log\<close>. \<open>Core_Wakeup\<close>: the interleaving of ingest task and
    reader with the notification between them, as a step relation; no wake-up is lost.
    \<open>Core_Registry\<close>: the session manager over an explicit store of shared sessions, refined to the set
    of live sessions through the interface \<open>session_registry\<close>. \<open>Gateway_Ownership\<close>: who holds a handle
    on a session, and what that keeps running.
  \<^item> \<open>Core_F64\<close>, \<open>Core_Quota\<close>: \<open>gw-core/src/quota.rs\<close>. The token bucket computes in double precision;
    the rounding is modelled (53 bits, ties to even) and used through the interface \<open>f64_rounding\<close>. The
    interfaces \<open>rate_limiter\<close> and \<open>accruing_limiter\<close> carry the lemmas on waiting for room.
  \<^item> \<open>Ssh_Client\<close>: \<open>gw-ssh\<close>. The protocol library is a record of calls; signing dialogues are finite
    trees. The actor is a function of the events its \<open>select!\<close> yields. \<open>Gateway_Pipeline\<close>: the actor, the
    ingest task, the readers and the clients of one session as concurrent tasks over the two bounded queues
    of \<open>SshSession::spawn\<close>, whose operations are parameters with their documented behaviour (\<open>mpsc_ok\<close>).
  \<^item> \<open>Server_Throttle\<close>, \<open>Server_Streaming\<close>, \<open>Server_Handler\<close>, \<open>Server_Protocol\<close>, \<open>Server_Lifecycle\<close>:
    \<open>gw-server/src/handler.rs\<close>. The limiter's loop over clock readings; the sender task; the
    negotiation with delegated signing; the abstract protocol it refines; the receiver loop and the end of
    a connection. \<open>Server_Isolation\<close>: what one connection does to the session of another, by the interface
    \<open>session_guard\<close> that every step of a handler keeps.
  \<^item> \<open>Server_Http_Hook\<close>: \<open>gw-server/src/http_hook.rs\<close>. \<open>Server_Config\<close>: \<open>config.rs\<close>, \<open>lib.rs\<close> and the hook
    choice of \<open>main.rs\<close>. \<open>Server_Main\<close>: \<open>main\<close> itself, from the arguments to the handlers spawned.
  \<^item> \<open>Conformance_Tests\<close>: the unit tests of the sources, as predicates that the model is shown to satisfy.
  \<^item> This theory: the compositions that span the layers, from a client's keyboard to the target and from a
    session's output to a client's screen.

  \<^bold>\<open>State and concurrency.\<close> A handler's state is the record \<open>conn\<close>: the frames the client still sends,
  the usage meter, a log of what the handler does, and the state it shares with the rest of the
  gateway (the session manager and the world). Other tasks may change the shared part at every await:
  \<open>other\<close>, the hook, the SSH library and the input queue are arbitrary functions on it, so a theorem
  about \<open>negotiate\<close> or \<open>handle_connection\<close> holds for every interleaving. Where a property needs
  something of them (nobody else removes this session), it is a hypothesis (\<open>others_hold\<close>). The log is
  not read by the code; it is what the ordering properties speak about.

  \<^bold>\<open>What is shown.\<close> Framing: sent frames are the received frames, no frame is read across its bounds, no
  input makes the reader ask for more than the cap, and on every byte sequence receiving agrees with the
  reference parser up to its error. Sessions: the buffer is the last bytes of the history,
  readers deliver it in order and lossless while they keep up, no reader sleeps through output, resuming
  finds the session, removed tokens are dead. The tasks of a session: no interleaving loses, duplicates or
  reorders output or input, the bounded queues never deadlock, and at rest the tasks have computed what the
  sequential definitions compute. End to end: keystrokes reach the target in the order typed, and the bytes on
  the client's stream decode to the session's output. Data plane: what a sender sends to a client attached at any
  time, the rate cap with rounding, and that limited chunks do get through. Negotiation: refinement of the
  protocol, authorization before any target is contacted, nothing left behind by a refused client,
  signatures matched to their requests. Lifecycle: dropped clients can come back, closed ones cannot, usage
  and close are reported in order, connections do not touch each other's sessions. Start-up: which hook and
  which certificate are used, and that with a control plane a client is served only if that control plane
  admitted the name and token of its \<open>Hello\<close>. Control plane:
  failing closed, and the requests sent. Some properties record behaviour that contradicts a comment of the
  source: a closed session whose SSH connection stays, a session left behind by a broken greeting, a lone
  certificate that is ignored, a webhook URL that is not fully stripped.

  \<^bold>\<open>Bounds.\<close> Offsets and meters are 64-bit words; properties about contents assume that fewer than
  $2^{64}$ bytes were output. Loops that end with the client's stream recurse on the frames still to come,
  so they need no fuel: a stream always ends, with the connection. The session's tasks run over an explicit
  list of steps, and \<open>pipe_weight\<close> bounds the steps they can take by themselves. The limiter's loop runs over a list of
  clock delays and is \<open>Waiting\<close> when the list is used up; it is shown that enough time
  always ends it.

  \<^bold>\<open>Abstractions.\<close> The SSH actor applies a pending resize together with the next event its \<open>select!\<close> yields,
  so a resize may still be pending when the tasks are at rest, where the code applies it before it waits. A
  write to the target completes with a given outcome; one that blocks holds the actor back, which is a run in
  which the actor takes no step. The accept loop runs over the list of what \<open>accept\<close> returns. Ownership of a
  session (\<open>own_step\<close>) is a model of its own, of the handles that \<open>Session::spawn\<close> and \<open>spawn_ingest\<close> share.

  \<^bold>\<open>Not modelled.\<close> Third-party crates (parameters, with their documented behaviour as named hypotheses,
  among them the channels of tokio and the parser of the command line), random id and token generation (drawn
  values), the capacity of the out-of-band queue between receiver and sender of a connection (a full queue
  delays the receiver), cancellation of the sender task in the middle of a write, overflow of the bucket's
  doubles to infinity (out of reach of its values), logging, and the integration tests over real sockets.
\<close>

subsection \<open>From the client's keyboard to the target\<close>

text \<open>The inputs a client's frames stand for, and those a handler's log says it has queued.\<close>

fun frame_inputs :: "client_frame \<Rightarrow> ssh_input list" where
  "frame_inputs (C_Data bytes) = [In_Data bytes]"
| "frame_inputs (C_Resize cols rows) = [In_Resize (ucast cols) (ucast rows)]"
| "frame_inputs _ = []"

fun logged_inputs :: "event list \<Rightarrow> ssh_input list" where
  "logged_inputs [] = []"
| "logged_inputs (Ev_Input a inp # es) = inp # logged_inputs es"
| "logged_inputs (_ # es) = logged_inputs es"

lemma logged_inputs_append [simp]: "logged_inputs (es @ fs) = logged_inputs es @ logged_inputs fs"
  by (induction es rule: logged_inputs.induct) simp_all

lemma logged_frame_events: "logged_inputs (frame_events session f) = frame_inputs f"
  by (cases f) simp_all

lemma logged_frames_events: "logged_inputs (concat (map (frame_events session) fs)) = concat (map frame_inputs fs)"
  by (induction fs) (simp_all add: logged_frame_events)

text \<open>
  C1 (safety). What a client types arrives at the target in order and unaltered. Take the frames a client
  has sent, the bytes they put on the control stream, the frames the gateway reads from these bytes, the
  inputs its receiver loop queues to the session, and any interleaving of the session's tasks in which
  these are the queued inputs: the calls made on the SSH channel, flushes aside, are those of an initial
  part of the keystrokes and resizes that the client sent before its \<open>Close\<close>, one call for each.
\<close>

theorem keystrokes_reach_target_in_order:
  assumes "postcard_ok ser de" and "writer_ok wr outbox" and "send_frames ser wr fs w = (Inr (), w')" and "outbox w = []"
    and "incoming s = fst (parse_stream de (outbox w'))"
    and "receiver_loop G session s = (outcome, s')" and "events s' = events s @ logged"
    and "mpsc_ok C V" and "pipe_run C D es (pipe_new C D ssh sid token m) = Some t" and "client_inputs es = logged_inputs logged"
  shows "prefix (filter (\<lambda>c. c \<noteq> Flush) (calls (pp_actor t)))
    (map input_call (concat (map frame_inputs (takeWhile (\<lambda>f. f \<noteq> C_Close) fs))))"
proof -
  have fs: "incoming s = fs" using parse_send_frames [OF assms(1-4)] assms(5) by simp
  with receiver_loop_effect [OF assms(6)] assms(7)
  have "logged = concat (map (frame_events session) (takeWhile (\<lambda>f. f \<noteq> C_Close) fs))" by (simp add: until_close_def)
  then have "client_inputs es = concat (map frame_inputs (takeWhile (\<lambda>f. f \<noteq> C_Close) fs))"
    using assms(10) by (simp add: logged_frames_events)
  with input_calls_prefix [OF assms(8,9)] show ?thesis by simp
qed

theorem keystrokes_reach_target_in_order_witness:
  "prefix (filter (\<lambda>c. c \<noteq> Flush) (calls (pp_actor demo_rest))) [Write_all [9]]"
proof -
  let ?G = "demo_gw (\<lambda>_ _. None) allow_all" and ?session = "\<lparr>sr_arc = 0, sr_id = 7, sr_token = [1, 2]\<rparr>"
  have sent: "send_frames demo_ser list_wr [C_Data [9], C_Ping] [] = (Inr (), [0, 0, 0, 2, 2, 9, 0, 0, 0, 1, 5])"
    by (simp add: io_apply framed_send_def encode_framed_def encode_def length_prefix_def
        to_be_bytes_def MAX_FRAME_LEN_def list_wr_def)
  let ?s = "demo_conn (fst (parse_stream demo_de (id [0, 0, 0, 2, 2, 9, 0, 0, 0, 1, 5])))"
  have parsed: "incoming ?s = fst (parse_stream demo_de (id [0, 0, 0, 2, 2, 9, 0, 0, 0, 1, 5]))" by (simp add: demo_conn_def)
  obtain outcome s' where loop: "receiver_loop ?G ?session ?s = (outcome, s')" by fastforce
  have frames: "incoming ?s = [C_Data [9], C_Ping]"
    unfolding parsed using parse_send_frames [OF demo_postcard_ok list_wr_ok sent] by simp
  from receiver_loop_effect [OF loop] have logged: "events s' = events ?s @ [Ev_Input 0 (In_Data [9]), Ev_Oob S_Pong]"
    unfolding frames by (simp add: until_close_def)
  have "client_inputs demo_events = logged_inputs [Ev_Input 0 (In_Data [9]), Ev_Oob S_Pong]" by (simp add: demo_events_def)
  from keystrokes_reach_target_in_order [OF demo_postcard_ok list_wr_ok sent _ parsed loop logged list_chan_ok demo_pipe_run this]
  show ?thesis by simp
qed

subsection \<open>From the session to the client's screen\<close>

text \<open>
  C2 (functional). What a client's end of the stream decodes. Attach a sender to a session at any point
  of its life, with any entitlement, and let session output, reads, pongs, limiter delays and send failures
  be interleaved in any way; put the frames it sends on the wire and parse the bytes. As long as no more
  than the scrollback capacity is ever unread, the data decoded is a prefix of: the retained scrollback
  followed by the live output. When the sender is still streaming and has just polled its reader, it is all
  of it, and the metered bytes are exactly the bytes decoded.
\<close>

theorem client_decodes_session_output:
  assumes "scroll_rep inner hist" and "length hist + length (outputs (reads es)) < 2 ^ 64"
    and "keeps_up (max_bytes inner) (min (length hist) (max_bytes inner)) (reads es)" and "oob_no_data es"
    and "sender_run es inner (sender_new ent now) = (inner', s)"
    and "postcard_ok ser de" and "writer_ok wr outbox" and "send_frames ser wr (sn_frames s) w = (Inr (), w')" and "outbox w = []"
  shows "let missed = length hist - max_bytes inner; got = concat (data_frames (fst (parse_stream de (outbox w'))))
    in prefix got (drop missed (hist @ outputs (reads es))) \<and>
       (sn_status s = Streaming \<longrightarrow>
          bytes_out (sn_meter s) = of_nat (length got) \<and>
          ((\<exists>xs. reads es = xs @ [Poll]) \<longrightarrow> got = drop missed (hist @ outputs (reads es))))"
  using attached_client_receives_output [OF assms(1-5)] parse_send_frames [OF assms(6-9)] by (simp add: Let_def)

text \<open>A serializer of two server frames for a concrete instance.\<close>

fun demo_server_ser :: "server_frame \<Rightarrow> ext_error + bytes" where
  "demo_server_ser (S_Data bs) = Inr (2 # bs)"
| "demo_server_ser S_Pong = Inr [5]"
| "demo_server_ser _ = Inl ''unsupported''"

fun demo_server_de :: "bytes \<Rightarrow> ext_error + server_frame" where
  "demo_server_de [] = Inl ''unexpected end''"
| "demo_server_de (t # bs) =
     (if t = 2 then Inr (S_Data bs) else if t = 5 \<and> bs = [] then Inr S_Pong else Inl ''bad tag'')"

lemma demo_server_postcard_ok: "postcard_ok demo_server_ser demo_server_de"
  unfolding postcard_ok_def
proof (intro allI impI)
  fix f b assume "demo_server_ser f = Inr b"
  then show "demo_server_de b = Inr f" by (cases f) auto
qed

theorem client_decodes_session_output_witness:
  "concat (data_frames (fst (parse_stream demo_server_de
     [0, 0, 0, 5, 2, 2, 3, 4, 5, 0, 0, 0, 1, 5, 0, 0, 0, 3, 2, 6, 7]))) = [2, 3, 4, 5, 6, 7]"
proof -
  let ?inner = "session_append (sess_inner (session_spawn 7 [] None 4)) [1, 2, 3, 4, 5]"
  let ?es = "[Take_chunk [] 0 True, Take_oob (Some S_Pong) True, Session_output [6, 7], Take_chunk [] 0 True]"
  have rep: "scroll_rep ?inner [1, 2, 3, 4, 5]"
    using scroll_rep_append [OF scroll_rep_spawn, of "[1, 2, 3, 4, 5]" 7 "[]" None 4] by simp
  have m: "max_bytes ?inner = 4" by (simp add: session_simps)
  obtain inner' s where run: "sender_run ?es ?inner (sender_new unlimited 0) = (inner', s)" by fastforce
  then have st: "sn_status s = Streaming" "sn_frames s = [S_Data [2, 3, 4, 5], S_Pong, S_Data [6, 7]]"
    by (auto simp: sender_new_def sender_chunk_def sender_oob_def send_or_stop_def session_spawn_def session_append_def
        reader_poll_def limiter_new_def unlimited_def throttle_def Let_def)
  have sent: "send_frames demo_server_ser list_wr (sn_frames s) [] =
      (Inr (), [0, 0, 0, 5, 2, 2, 3, 4, 5, 0, 0, 0, 1, 5, 0, 0, 0, 3, 2, 6, 7])"
    by (simp add: st(2) io_apply framed_send_def encode_framed_def encode_def length_prefix_def
        to_be_bytes_def MAX_FRAME_LEN_def list_wr_def)
  have "reads ?es = [Poll, Output [6, 7]] @ [Poll]" by simp
  with client_decodes_session_output [OF rep _ _ _ run demo_server_postcard_ok list_wr_ok sent] m st(1) show ?thesis
    by (simp add: Let_def)
qed

end
